(* ===== verification/Prelude.thy ===== *)
theory Prelude
  imports Main "HOL-Library.Word"
begin

unbundle bit_operations_syntax

text \<open>
  The shared vocabulary of the development: machine integers and byte buffers, the two memory
  layouts the sources rely on, and the generic list lemmas of the component theories.

  A C++ object of an unsigned type of \<open>w\<close> bits is a \<open>w word\<close>. Memory that the code reaches
  through a \<open>uint8_t*\<close> is a list of bytes. Reading or writing such memory through a wider
  pointer (\<open>reinterpret_cast<uint32_t*>\<close>) is \<open>le_load\<close> and \<open>le_store\<close>: the native byte order
  is the little-endian one of the two supported platforms, x86_64 and aarch64.
\<close>

type_synonym u8 = "8 word"
type_synonym u16 = "16 word"
type_synonym u32 = "32 word"
type_synonym u64 = "64 word"

text \<open>The standard exceptions the modelled code throws; \<open>Inl\<close> of one is a throw.\<close>

datatype cpp_error =
    Out_of_range
  | Runtime_error string
  | Domain_error string
  | Invalid_argument string
  | Bad_alloc

text \<open>A throw ends a computation.\<close>

definition bind_result :: "'e + 'a \<Rightarrow> ('a \<Rightarrow> 'e + 'b) \<Rightarrow> 'e + 'b" where
  "bind_result m f = (case m of Inl e \<Rightarrow> Inl e | Inr x \<Rightarrow> f x)"

lemma bind_result_simps [simp]:
  "bind_result (Inr x) f = f x" "bind_result (Inl e) f = Inl e"
  by (simp_all add: bind_result_def)

lemma bind_result_Inr:
  "bind_result m f = Inr y \<longleftrightarrow> (\<exists>x. m = Inr x \<and> f x = Inr y)"
  by (cases m) auto

lemma bind_result_cong [fundef_cong]:
  "m = m' \<Longrightarrow> (\<And>x. m' = Inr x \<Longrightarrow> f x = g x) \<Longrightarrow> bind_result m f = bind_result m' g"
  by (cases m') auto

named_theorems byte_simps \<open>bits of words that are assembled from, or split into, bytes\<close>
named_theorems model_defs \<open>definitions unfolded when a model is evaluated at a concrete input\<close>

lemma bit_foldr_or [byte_simps]:
  "bit (foldr (OR) ws (0 :: 'a::len word)) i \<longleftrightarrow> (\<exists>w \<in> set ws. bit w i)"
  by (induction ws) (auto simp: bit_simps)

lemma and_ff [byte_simps]: "w AND 0xff = take_bit 8 (w :: 'a::len word)"
  by (simp add: take_bit_eq_mask mask_eq_exp_minus_1)

lemma bit_beyond [byte_simps]: "LENGTH('a) \<le> n \<Longrightarrow> bit (w :: 'a::len word) n = False"
  using bit_imp_le_length [of w n] by auto

subsection \<open>Native (little-endian) memory\<close>

abbreviation sizeof :: "'a::len word \<Rightarrow> nat" where
  "sizeof w \<equiv> LENGTH('a) div 8"

fun le_load :: "u8 list \<Rightarrow> 'a::len word" where
  "le_load [] = 0"
| "le_load (b # bs) = ucast b OR push_bit 8 (le_load bs)"

fun le_store :: "nat \<Rightarrow> 'a::len word \<Rightarrow> u8 list" where
  "le_store 0 w = []"
| "le_store (Suc n) w = ucast w # le_store n (drop_bit 8 w)"

lemma length_le_store [simp]: "length (le_store n w) = n"
  by (induction n arbitrary: w) simp_all

lemma nth_le_store [simp]: "i < n \<Longrightarrow> le_store n w ! i = ucast (drop_bit (8 * i) w)"
proof (induction n arbitrary: w i)
  case (Suc n)
  then show ?case by (cases i) (simp_all add: drop_bit_drop_bit ac_simps)
qed simp

lemma bit_le_load [byte_simps]:
  "bit (le_load bs :: 'a::len word) i \<longleftrightarrow>
     i < LENGTH('a) \<and> i div 8 < length bs \<and> bit (bs ! (i div 8)) (i mod 8)"
proof (induction bs arbitrary: i)
  case (Cons b bs)
  show ?case
  proof (cases "i < 8")
    case True
    then show ?thesis by (auto simp: bit_simps)
  next
    case False
    then obtain j where i: "i = j + 8" by (metis add.commute le_Suc_ex not_less)
    have "\<not> bit b i" using False bit_imp_le_length [of b i] by auto
    then have "\<not> bit b (j + 8)" using i by simp
    moreover have "(j + 8) div 8 = Suc (j div 8)" by simp
    ultimately show ?thesis by (auto simp: bit_simps Cons.IH i)
  qed
qed simp

lemma le_load_le_store:
  assumes "8 dvd LENGTH('a)"
  shows "le_load (le_store (sizeof w) w) = (w :: 'a::len word)"
proof (rule bit_word_eqI)
  fix i assume i: "i < LENGTH('a)"
  then have "i div 8 < LENGTH('a) div 8"
    using assms by (auto elim!: dvdE)
  then show "bit (le_load (le_store (sizeof w) w) :: 'a word) i \<longleftrightarrow> bit w i"
    using i by (simp add: bit_le_load bit_simps)
qed

lemma le_store_le_load:
  assumes "8 * length bs \<le> LENGTH('a)"
  shows "le_store (length bs) (le_load bs :: 'a::len word) = bs"
proof (rule nth_equalityI)
  fix i assume "i < length (le_store (length bs) (le_load bs :: 'a word))"
  then have i: "i < length bs" by simp
  show "le_store (length bs) (le_load bs :: 'a word) ! i = bs ! i"
  proof (rule bit_word_eqI)
    fix k :: nat assume "k < LENGTH(8)"
    then have k: "k < 8" by simp
    have "8 * i + k < 8 * length bs" using i k by linarith
    then have "8 * i + k < LENGTH('a)" using assms by linarith
    then show "bit (le_store (length bs) (le_load bs :: 'a word) ! i) k \<longleftrightarrow> bit (bs ! i) k"
      using i k by (simp add: bit_simps bit_le_load)
  qed
qed simp

subsection \<open>Network (big-endian) byte order\<close>

text \<open>
  \<open>be_store\<close> and \<open>be_load\<close> lay a value out in network byte order. \<open>net_swap\<close> is what
  \<open>htons\<close>, \<open>ntohs\<close>, \<open>htonl\<close> and \<open>ntohl\<close> compute on a little-endian platform: the value whose
  native layout is the network layout of the argument.
\<close>

definition be_store :: "nat \<Rightarrow> 'a::len word \<Rightarrow> u8 list" where
  "be_store n w = rev (le_store n w)"

definition be_load :: "u8 list \<Rightarrow> 'a::len word" where
  "be_load bs = le_load (rev bs)"

definition net_swap :: "'a::len word \<Rightarrow> 'a word" where
  "net_swap w = le_load (be_store (sizeof w) w)"

abbreviation htons :: "u16 \<Rightarrow> u16" where "htons \<equiv> net_swap"
abbreviation ntohs :: "u16 \<Rightarrow> u16" where "ntohs \<equiv> net_swap"
abbreviation htonl :: "u32 \<Rightarrow> u32" where "htonl \<equiv> net_swap"
abbreviation ntohl :: "u32 \<Rightarrow> u32" where "ntohl \<equiv> net_swap"

lemma length_be_store [simp]: "length (be_store n w) = n"
  by (simp add: be_store_def)

lemma nth_be_store [simp]: "i < n \<Longrightarrow> be_store n w ! i = ucast (drop_bit (8 * (n - 1 - i)) w)"
  by (simp add: be_store_def rev_nth)

lemma bit_be_load [byte_simps]:
  "bit (be_load bs :: 'a::len word) i \<longleftrightarrow>
     i < LENGTH('a) \<and> i div 8 < length bs \<and> bit (bs ! (length bs - 1 - i div 8)) (i mod 8)"
  by (auto simp: be_load_def bit_le_load rev_nth)

lemma le_store_net_swap:
  assumes "8 dvd LENGTH('a)"
  shows "le_store (sizeof w) (net_swap w) = be_store (sizeof w) (w :: 'a::len word)"
  using le_store_le_load [of "be_store (sizeof w) w", where 'a = 'a] assms
  by (simp add: net_swap_def)

lemma net_swap_le_load:
  assumes "8 * length bs = LENGTH('a)"
  shows "net_swap (le_load bs :: 'a::len word) = be_load bs"
  using assms le_store_le_load [of bs, where 'a = 'a]
  by (simp add: net_swap_def be_store_def be_load_def flip: assms)

lemma be_load_be_store:
  assumes "8 dvd LENGTH('a)"
  shows "be_load (be_store (sizeof w) w) = (w :: 'a::len word)"
  using le_load_le_store [OF assms] by (simp add: be_load_def be_store_def)

lemma be_store_be_load:
  assumes "8 * length bs \<le> LENGTH('a)"
  shows "be_store (length bs) (be_load bs :: 'a::len word) = bs"
  using le_store_le_load [of "rev bs", where 'a = 'a] assms by (simp add: be_load_def be_store_def)

lemma net_swap_net_swap:
  assumes "8 dvd LENGTH('a)"
  shows "net_swap (net_swap w) = (w :: 'a::len word)"
  using le_load_le_store [OF assms, of w]
  by (simp add: net_swap_def [of "net_swap w"] le_store_net_swap [OF assms] be_store_def)

subsection \<open>The number a big-endian byte string denotes\<close>

fun bytes_val :: "u8 list \<Rightarrow> nat" where
  "bytes_val [] = 0"
| "bytes_val (b # bs) = unat b * 256 ^ length bs + bytes_val bs"

lemma bytes_val_bound: "bytes_val bs < 256 ^ length bs"
proof (induction bs)
  case (Cons b bs)
  have "unat b \<le> 255" using unsigned_less [of b, where ?'a = nat] by simp
  then have "unat b * 256 ^ length bs \<le> 255 * 256 ^ length bs" by (rule mult_le_mono1)
  with Cons.IH show ?case by (simp only: bytes_val.simps length_Cons power_Suc)
qed simp

lemma bytes_val_append: "bytes_val (xs @ ys) = bytes_val xs * 256 ^ length ys + bytes_val ys"
  by (induction xs) (simp_all add: power_add algebra_simps)

lemma unat_le_load:
  "8 * length bs \<le> LENGTH('a) \<Longrightarrow> unat (le_load bs :: 'a::len word) = bytes_val (rev bs)"
proof (induction bs)
  case (Cons b bs)
  let ?w = "le_load bs :: 'a word"
  have len: "8 + 8 * length bs \<le> LENGTH('a)" using Cons.prems by simp
  have w: "unat ?w = bytes_val (rev bs)" using Cons by simp
  have bw: "unat ?w < 256 ^ length bs" using bytes_val_bound [of "rev bs"] w by simp
  have bb: "unat b < 256" using unsigned_less [of b, where ?'a = nat] by simp
  have "(256::nat) * 256 ^ length bs = 2 ^ (8 + 8 * length bs)"
    by (simp add: power_add power_mult)
  also have "\<dots> \<le> 2 ^ LENGTH('a)" using len by (intro power_increasing) simp_all
  finally have fit: "256 * 256 ^ length bs \<le> (2::nat) ^ LENGTH('a)" .
  have "256 * 1 \<le> 256 * (256::nat) ^ length bs" by (intro mult_le_mono2) simp
  with fit have "256 \<le> (2::nat) ^ LENGTH('a)" by linarith
  with bb have ub: "unat (ucast b :: 'a word) = unat b"
    by (simp add: unsigned_ucast_eq take_bit_nat_eq_self)
  have pw: "unat (push_bit 8 ?w) = 256 * unat ?w"
  proof -
    have "256 * unat ?w < 2 ^ LENGTH('a)" using bw fit by linarith
    then show ?thesis by (simp add: unsigned_push_bit_eq push_bit_nat_def take_bit_nat_eq_self ac_simps)
  qed
  have "le_load (b # bs) = ucast b + push_bit 8 ?w"
    by (simp, rule disjunctive_add [symmetric]) (auto simp: bit_simps dest: bit_imp_le_length)
  moreover have "unat (ucast b :: 'a word) + unat (push_bit 8 ?w) < 2 ^ LENGTH('a)"
    using pw ub bb bw fit by linarith
  ultimately show ?case
    using pw ub w by (simp add: unat_word_ariths bytes_val_append)
qed simp

lemma unat_be_load:
  "8 * length bs \<le> LENGTH('a) \<Longrightarrow> unat (be_load bs :: 'a::len word) = bytes_val bs"
  using unat_le_load [of "rev bs"] by (simp add: be_load_def)

lemma unat_of_nat_small: "n < 2 ^ LENGTH('a) \<Longrightarrow> unat (of_nat n :: 'a::len word) = n"
  by (simp add: unat_of_nat take_bit_nat_eq_self)

lemma unat_eq_of_nat: "unat (w :: 'a::len word) = n \<Longrightarrow> w = of_nat n"
  by auto

lemma unat_add_wrap:
  fixes a b :: "'a::len word"
  assumes "2 ^ LENGTH('a) \<le> unat a + unat b"
  shows "unat (a + b) + 2 ^ LENGTH('a) = unat a + unat b"
proof -
  let ?B = "2 ^ LENGTH('a) :: nat"
  obtain k where k: "unat a + unat b = ?B + k" using assms by (auto simp: le_iff_add)
  have "k < ?B"
    using k unsigned_less [of a, where ?'a = nat] unsigned_less [of b, where ?'a = nat] by linarith
  then show ?thesis unfolding unat_word_ariths k by (simp add: mod_add_self1)
qed

lemma unat_and_not_mask: "unat (x AND NOT (mask n) :: 'a::len word) = 2 ^ n * (unat x div 2 ^ n)"
proof -
  have x: "unat x < 2 ^ LENGTH('a)" using unsigned_less [of x, where ?'a = nat] by simp
  have 1: "x AND NOT (mask n) = push_bit n (drop_bit n x)" by (rule bit_word_eqI) (auto simp: bit_simps)
  have "unat (push_bit n (drop_bit n x)) = take_bit LENGTH('a) (2 ^ n * (unat x div 2 ^ n))"
    unfolding unsigned_push_bit_eq unsigned_drop_bit_eq using x
    by (simp add: push_bit_eq_mult drop_bit_eq_div mult.commute take_bit_nat_eq_self)
  also have "\<dots> = 2 ^ n * (unat x div 2 ^ n)"
    using x times_div_less_eq_dividend [of "2 ^ n" "unat x"] by (intro take_bit_nat_eq_self) linarith
  finally show ?thesis by (simp only: 1)
qed

lemma unat_not: "unat (NOT w :: 'a::len word) = 2 ^ LENGTH('a) - 1 - unat w"
proof -
  have "NOT w = - 1 - w" by (simp add: not_eq_complement)
  then show ?thesis by (simp only: unat_sub [OF word_order.extremum] unsigned_minus_1_eq_mask mask_eq_exp_minus_1)
qed

subsection \<open>Arrays\<close>

text \<open>An index loop that rewrites entry \<open>i\<close> of an array from its old contents.\<close>

lemma length_fold_update [simp]: "length (fold (\<lambda>i xs. xs[i := f i (xs ! i)]) is xs) = length xs"
  by (induction "is" arbitrary: xs) simp_all

lemma nth_fold_update:
  assumes "i < length xs"
  shows "fold (\<lambda>i xs. xs[i := f i (xs ! i)]) [0..<n] xs ! i = (if i < n then f i (xs ! i) else xs ! i)"
  using assms by (induction n) (auto simp: nth_list_update less_Suc_eq)

lemma fold_shift_update:
  assumes "k + n \<le> length xs"
  shows "length (fold (\<lambda>i xs. xs[i + k := g i]) [0..<n] xs) = length xs
    \<and> (\<forall>i<length xs. fold (\<lambda>i xs. xs[i + k := g i]) [0..<n] xs ! i = (if k \<le> i \<and> i < k + n then g (i - k) else xs ! i))"
  using assms by (induction n) (auto simp: nth_list_update less_Suc_eq)

text \<open>The effect of filling the array at \<open>p + k\<close> with the elements \<open>ys\<close>.\<close>

definition write_at :: "nat \<Rightarrow> 'a list \<Rightarrow> 'a list \<Rightarrow> 'a list" where
  "write_at k ys xs = take k xs @ ys @ drop (k + length ys) xs"

lemma length_write_at [simp]: "k + length ys \<le> length xs \<Longrightarrow> length (write_at k ys xs) = length xs"
  by (simp add: write_at_def)

lemma nth_write_at:
  assumes "k + length ys \<le> length xs" "i < length xs"
  shows "write_at k ys xs ! i = (if k \<le> i \<and> i < k + length ys then ys ! (i - k) else xs ! i)"
  using assms by (auto simp: write_at_def nth_append min_def)

lemma nth_write_at_after: "k + length ys \<le> i \<Longrightarrow> i < length xs \<Longrightarrow> write_at k ys xs ! i = xs ! i"
  by (simp add: nth_write_at)

lemma write_at_zero_all [simp]: "length ys = length xs \<Longrightarrow> write_at 0 ys xs = ys"
  by (simp add: write_at_def)

text \<open>An invariant established one index at a time holds after the whole loop.\<close>

lemma fold_upt_from_invariant:
  assumes "m \<le> n" "P m s" and "\<And>i s. m \<le> i \<Longrightarrow> i < n \<Longrightarrow> P i s \<Longrightarrow> P (Suc i) (f i s)"
  shows "P n (fold f [m..<n] s)"
  using assms
proof (induction n)
  case (Suc n)
  then show ?case by (cases "m = Suc n") simp_all
qed simp

lemmas fold_upt_invariant = fold_upt_from_invariant [where m = 0, simplified]

text \<open>A pointer into packet memory where the code looks at the alignment of the address.\<close>

record packet_ptr =
  address :: nat
  bytes :: "u8 list"

definition ptr_add :: "packet_ptr \<Rightarrow> nat \<Rightarrow> packet_ptr" where
  "ptr_add p n = \<lparr>address = address p + n, bytes = drop n (bytes p)\<rparr>"

text \<open>How many bytes lie before the first 32-bit boundary.\<close>

definition head_length :: "nat \<Rightarrow> nat" where
  "head_length a = (4 - a mod 4) mod 4"

lemma head_length_cases:
  "a mod 4 = 0 \<and> head_length a = 0 \<or> a mod 4 = 1 \<and> head_length a = 3
    \<or> a mod 4 = 2 \<and> head_length a = 2 \<or> a mod 4 = 3 \<and> head_length a = 1"
proof -
  have "a mod 4 < 4" by simp
  then consider "a mod 4 = 0" | "a mod 4 = 1" | "a mod 4 = 2" | "a mod 4 = 3" by linarith
  then show ?thesis by cases (simp_all add: head_length_def)
qed

end
