(* ===== verification/Endian.thy ===== *)
theory Endian
  imports Prelude
begin

text \<open>
  \<^verbatim>\<open>src/lib/packet/type/endian.hpp\<close>: fixed-width fields that hold their value in network byte
  order (\<open>field<Octets>\<close>), the byte swap that \<open>load\<close> and \<open>store\<close> use, the comparison operators,
  and \<open>number<T, Octets>\<close>, a field with the arithmetic operators of \<open>T\<close>.

  The template parameter \<open>Octets\<close> is the argument \<open>n\<close>; the integral type \<open>T\<close> is the type of the
  word. The compile-time conditions \<open>Octets <= sizeof(T)\<close> are hypotheses of the lemmas.
\<close>

unbundle bit_operations_syntax

subsection \<open>Byte swapping\<close>

definition bswap_impl :: "'a::len word \<Rightarrow> nat list \<Rightarrow> 'a word" where
  "bswap_impl i ns =
     foldr (OR) (map (\<lambda>n. push_bit ((sizeof i - 1 - n) * 8) (drop_bit (n * 8) i AND 0xff)) ns) 0"

definition bswap_impl_16 :: "128 word \<Rightarrow> 128 word" where
  "bswap_impl_16 i =
     (let x0 = ucast i :: u64; x1 = ucast (drop_bit 64 i) :: u64 in
        push_bit 64 (ucast (bswap_impl x0 [0..<8])) OR ucast (bswap_impl x1 [0..<8]))"

definition bswap :: "'a::len word \<Rightarrow> 'a word" where
  "bswap value = bswap_impl value [0..<sizeof value]"

subsection \<open>Fields\<close>

record endian_field =
  octets :: "u8 list"

definition field_wf :: "nat \<Rightarrow> endian_field \<Rightarrow> bool" where
  "field_wf n f \<longleftrightarrow> length (octets f) = n"

definition field_store_list :: "nat \<Rightarrow> 'a::len word list \<Rightarrow> endian_field option" where
  "field_store_list n value =
     (if n = length value * (LENGTH('a) div 8)
      then Some \<lparr>octets = concat (map (\<lambda>x. le_store (sizeof x) (bswap x)) value)\<rparr>
      else None)"

definition field_store :: "nat \<Rightarrow> 'a::len word \<Rightarrow> endian_field" where
  "field_store n value =
     (let tmp = bswap (push_bit ((sizeof value - n) * 8) value) in
        \<lparr>octets = take n (le_store (sizeof tmp) tmp)\<rparr>)"

definition field_load :: "endian_field \<Rightarrow> 'a::len word" where
  "field_load f =
     (let sz = LENGTH('a) div 8; n = length (octets f);
          tmp = le_load (octets f @ replicate (sz - n) 0) :: 'a word in
        drop_bit ((sz - n) * 8) (bswap tmp))"

definition field_load_idx :: "endian_field \<Rightarrow> nat \<Rightarrow> cpp_error + 'a::len word" where
  "field_load_idx f idx =
     (let sz = LENGTH('a) div 8; n = length (octets f) in
        if sz * idx + 1 > n then Inl Out_of_range
        else if sz * (idx + 1) \<le> n then
          Inr (bswap (le_load (take sz (drop (idx * sz) (octets f)))))
        else
          (let remainder = n - sz * idx;
               (tmp, shift) =
                 fold (\<lambda>octet (tmp, shift). (tmp OR push_bit shift (ucast octet), shift + 8))
                   (take remainder (rev (octets f))) (0, 0) in
             Inr tmp))"

definition field_at :: "endian_field \<Rightarrow> nat \<Rightarrow> cpp_error + u8" where
  "field_at f idx =
     (if \<not> idx < length (octets f) then Inl Out_of_range else Inr (octets f ! idx))"

subsection \<open>Comparisons\<close>

text \<open>\<open>std::array\<close> compares lexicographically.\<close>

fun octets_less :: "u8 list \<Rightarrow> u8 list \<Rightarrow> bool" where
  "octets_less xs [] = False"
| "octets_less [] (y # ys) = True"
| "octets_less (x # xs) (y # ys) = (x < y \<or> x = y \<and> octets_less xs ys)"

definition field_eq :: "endian_field \<Rightarrow> endian_field \<Rightarrow> bool" where
  "field_eq lhs rhs \<longleftrightarrow> octets lhs = octets rhs"

definition field_ne :: "endian_field \<Rightarrow> endian_field \<Rightarrow> bool" where
  "field_ne lhs rhs \<longleftrightarrow> octets lhs \<noteq> octets rhs"

definition field_lt :: "endian_field \<Rightarrow> endian_field \<Rightarrow> bool" where
  "field_lt lhs rhs \<longleftrightarrow> octets_less (octets lhs) (octets rhs)"

definition field_le :: "endian_field \<Rightarrow> endian_field \<Rightarrow> bool" where
  "field_le lhs rhs \<longleftrightarrow> \<not> octets_less (octets rhs) (octets lhs)"

definition field_gt :: "endian_field \<Rightarrow> endian_field \<Rightarrow> bool" where
  "field_gt lhs rhs \<longleftrightarrow> octets_less (octets rhs) (octets lhs)"

definition field_ge :: "endian_field \<Rightarrow> endian_field \<Rightarrow> bool" where
  "field_ge lhs rhs \<longleftrightarrow> \<not> octets_less (octets lhs) (octets rhs)"

definition field_eq_int :: "endian_field \<Rightarrow> 'a::len word \<Rightarrow> bool" where
  "field_eq_int lhs rhs \<longleftrightarrow> field_load lhs = rhs"

definition field_ne_int :: "endian_field \<Rightarrow> 'a::len word \<Rightarrow> bool" where
  "field_ne_int lhs rhs \<longleftrightarrow> field_load lhs \<noteq> rhs"

definition field_lt_int :: "endian_field \<Rightarrow> 'a::len word \<Rightarrow> bool" where
  "field_lt_int lhs rhs \<longleftrightarrow> field_load lhs < rhs"

definition field_le_int :: "endian_field \<Rightarrow> 'a::len word \<Rightarrow> bool" where
  "field_le_int lhs rhs \<longleftrightarrow> field_load lhs \<le> rhs"

definition field_gt_int :: "endian_field \<Rightarrow> 'a::len word \<Rightarrow> bool" where
  "field_gt_int lhs rhs \<longleftrightarrow> field_load lhs > rhs"

definition field_ge_int :: "endian_field \<Rightarrow> 'a::len word \<Rightarrow> bool" where
  "field_ge_int lhs rhs \<longleftrightarrow> field_load lhs \<ge> rhs"

subsection \<open>Numbers\<close>

text \<open>
  \<open>number<T, Octets>\<close>: the compound operators load the value at type \<open>T\<close> (the word \<open>'a\<close>),
  combine it with the operand at the common type of the operands (the word \<open>'c\<close>, after the usual
  arithmetic conversions of unsigned operands) and store the low octets of the result.
  Division by zero is undefined in C++ and is \<open>None\<close> here.
\<close>

definition number_of :: "nat \<Rightarrow> 'a::len word \<Rightarrow> endian_field" where
  "number_of n value = field_store n value"

definition number_load :: "endian_field \<Rightarrow> 'a::len word" where
  "number_load f = field_load f"

definition number_uminus :: "endian_field \<Rightarrow> 'a::len word" where
  "number_uminus f = - number_load f"

definition number_update ::
  "'a::len itself \<Rightarrow> ('c::len word \<Rightarrow> 'c word) \<Rightarrow> endian_field \<Rightarrow> endian_field" where
  "number_update T g f = field_store (length (octets f)) (g (ucast (number_load f :: 'a word)))"

definition number_pre_incr :: "'a::len itself \<Rightarrow> endian_field \<Rightarrow> endian_field" where
  "number_pre_incr T f = number_update T (\<lambda>x :: 'a word. x + 1) f"

definition number_pre_decr :: "'a::len itself \<Rightarrow> endian_field \<Rightarrow> endian_field" where
  "number_pre_decr T f = number_update T (\<lambda>x :: 'a word. x - 1) f"

definition number_post_incr :: "'a::len itself \<Rightarrow> endian_field \<Rightarrow> endian_field \<times> endian_field" where
  "number_post_incr T f = (let tmp = f in (number_pre_incr T f, tmp))"

definition number_post_decr :: "'a::len itself \<Rightarrow> endian_field \<Rightarrow> endian_field \<times> endian_field" where
  "number_post_decr T f = (let tmp = f in (number_pre_decr T f, tmp))"

definition number_assign :: "endian_field \<Rightarrow> 'c::len word \<Rightarrow> endian_field" where
  "number_assign f rhs = field_store (length (octets f)) rhs"

definition number_add :: "'a::len itself \<Rightarrow> endian_field \<Rightarrow> 'c::len word \<Rightarrow> endian_field" where
  "number_add T f rhs = number_update T (\<lambda>x. x + rhs) f"

definition number_sub :: "'a::len itself \<Rightarrow> endian_field \<Rightarrow> 'c::len word \<Rightarrow> endian_field" where
  "number_sub T f rhs = number_update T (\<lambda>x. x - rhs) f"

definition number_mul :: "'a::len itself \<Rightarrow> endian_field \<Rightarrow> 'c::len word \<Rightarrow> endian_field" where
  "number_mul T f rhs = number_update T (\<lambda>x. x * rhs) f"

definition number_div :: "'a::len itself \<Rightarrow> endian_field \<Rightarrow> 'c::len word \<Rightarrow> endian_field option" where
  "number_div T f rhs = (if rhs = 0 then None else Some (number_update T (\<lambda>x. x div rhs) f))"

definition number_mod :: "'a::len itself \<Rightarrow> endian_field \<Rightarrow> 'c::len word \<Rightarrow> endian_field option" where
  "number_mod T f rhs = (if rhs = 0 then None else Some (number_update T (\<lambda>x. x mod rhs) f))"

definition number_and :: "'a::len itself \<Rightarrow> endian_field \<Rightarrow> 'c::len word \<Rightarrow> endian_field" where
  "number_and T f rhs = number_update T (\<lambda>x. x AND rhs) f"

definition number_or :: "'a::len itself \<Rightarrow> endian_field \<Rightarrow> 'c::len word \<Rightarrow> endian_field" where
  "number_or T f rhs = number_update T (\<lambda>x. x OR rhs) f"

definition number_xor :: "'a::len itself \<Rightarrow> endian_field \<Rightarrow> 'c::len word \<Rightarrow> endian_field" where
  "number_xor T f rhs = number_update T (\<lambda>x. x XOR rhs) f"

definition number_shl :: "'a::len itself \<Rightarrow> endian_field \<Rightarrow> nat \<Rightarrow> endian_field" where
  "number_shl T f rhs = number_update T (\<lambda>x :: 'a word. push_bit rhs x) f"

definition number_shr :: "'a::len itself \<Rightarrow> endian_field \<Rightarrow> nat \<Rightarrow> endian_field" where
  "number_shr T f rhs = number_update T (\<lambda>x :: 'a word. drop_bit rhs x) f"

subsection \<open>The byte swap\<close>

lemma bit_bswap_term:
  assumes "8 dvd LENGTH('a)" and "i < LENGTH('a)" and "n < sizeof w"
  shows "bit (push_bit ((sizeof w - 1 - n) * 8) (drop_bit (n * 8) (w :: 'a::len word) AND 0xff)) i
    \<longleftrightarrow> n = sizeof w - 1 - i div 8 \<and> bit w (8 * n + i mod 8)"
proof -
  obtain m where L: "LENGTH('a) = 8 * m" using assms(1) by (auto elim: dvdE)
  define q r where "q = i div 8" and "r = i mod 8"
  have i: "i = 8 * q + r" "r < 8" by (simp_all add: q_def r_def)
  have q: "q < m" using assms(2) L i by linarith
  have n: "n < m" using assms(3) L by simp
  have s: "(m - Suc n) * 8 = 8 * m - 8 * Suc n" by (simp add: diff_mult_distrib)
  have hi: "8 * m - 8 * Suc n \<le> i \<and> i - (8 * m - 8 * Suc n) < 8 \<longleftrightarrow> n = m - 1 - q"
    using i q n by auto
  have lo: "n = m - 1 - q \<Longrightarrow> i - (8 * m - 8 * Suc n) = r"
    using i q n by auto
  show ?thesis
    using assms(2) hi lo i L s
    by (auto simp: and_ff bit_simps q_def [symmetric] r_def [symmetric] ac_simps)
qed

lemma bit_bswap [byte_simps]:
  assumes "8 dvd LENGTH('a)" and "i < LENGTH('a)"
  shows "bit (bswap (w :: 'a::len word)) i \<longleftrightarrow> bit w (8 * (sizeof w - 1 - i div 8) + i mod 8)"
proof -
  have "i div 8 < sizeof w" using assms by (auto elim!: dvdE)
  then show ?thesis
    using bit_bswap_term [OF assms, of _ w]
    by (auto simp: bswap_def bswap_impl_def bit_foldr_or)
qed

lemma bswap_net_swap:
  assumes "8 dvd LENGTH('a)"
  shows "bswap (w :: 'a::len word) = net_swap w"
proof (rule bit_word_eqI)
  fix i assume i: "i < LENGTH('a)"
  then have "i div 8 < sizeof w" using assms by (auto elim!: dvdE)
  then show "bit (bswap w) i = bit (net_swap w) i"
    using i by (simp add: bit_bswap [OF assms] net_swap_def bit_le_load bit_simps)
qed

subsection \<open>Fields hold network byte order\<close>

lemma octets_field_store:
  assumes "8 dvd LENGTH('a)" and "n \<le> sizeof v"
  shows "octets (field_store n (v :: 'a::len word)) = be_store n v"
proof (rule nth_equalityI)
  let ?s = "sizeof v"
  let ?t = "push_bit ((?s - n) * 8) v"
  have o: "octets (field_store n v) = take n (be_store ?s ?t)"
    using le_store_net_swap [OF assms(1), of ?t]
    by (simp add: field_store_def bswap_net_swap [OF assms(1)])
  show "length (octets (field_store n v)) = length (be_store n v)"
    using o assms(2) by simp
  fix i assume "i < length (octets (field_store n v))"
  then have i: "i < n" using o assms(2) by simp
  show "octets (field_store n v) ! i = be_store n v ! i"
  proof (rule bit_word_eqI)
    fix k :: nat assume "k < LENGTH(8)"
    then have k: "k < 8" by simp
    obtain m where L: "LENGTH('a) = 8 * m" using assms(1) by (auto elim: dvdE)
    have n: "n \<le> m" using assms(2) L by simp
    have idx: "8 * (m - Suc i) + k = (m - n) * 8 + (8 * (n - Suc i) + k)"
      using i n by (simp add: algebra_simps)
    have "8 * (m - Suc i) + k < 8 * m" using i n k by linarith
    then show "bit (octets (field_store n v) ! i) k = bit (be_store n v ! i) k"
      using i n k idx by (simp add: o L bit_simps ac_simps)
  qed
qed

lemma field_wf_store [simp]:
  "8 dvd LENGTH('a) \<Longrightarrow> n \<le> sizeof v \<Longrightarrow> field_wf n (field_store n (v :: 'a::len word))"
  by (simp add: field_wf_def octets_field_store)

lemma field_load_be:
  assumes "8 dvd LENGTH('a)" and "length (octets f) \<le> LENGTH('a) div 8"
  shows "(field_load f :: 'a::len word) = be_load (octets f)"
proof (rule bit_word_eqI)
  fix i assume i: "i < LENGTH('a)"
  obtain m where L: "LENGTH('a) = 8 * m" using assms(1) by (auto elim: dvdE)
  define n where "n = length (octets f)"
  have n: "n \<le> m" using assms(2) L by (simp add: n_def)
  define q where "q = i div 8"
  have q: "q < m" using i L by (simp add: q_def)
  let ?bs = "octets f @ replicate (m - n) 0"
  have swap: "bswap (le_load ?bs :: 'a word) = be_load ?bs"
    using n L by (simp add: bswap_net_swap [OF assms(1)] net_swap_le_load n_def)
  have lt: "(m - n) * 8 + i < 8 * m \<longleftrightarrow> q < n" "m + q - n < m \<longleftrightarrow> q < n"
    using n q by (auto simp: q_def)
  have "bit (field_load f :: 'a word) i \<longleftrightarrow> q < n \<and> bit (?bs ! (m - 1 - (m - n + q))) (i mod 8)"
    using n lt by (simp add: field_load_def Let_def L swap n_def [symmetric] bit_drop_bit_eq
        bit_be_load q_def [symmetric])
  also have "\<dots> \<longleftrightarrow> q < n \<and> bit (octets f ! (n - 1 - q)) (i mod 8)"
    using n q by (auto simp: nth_append n_def)
  also have "\<dots> \<longleftrightarrow> bit (be_load (octets f) :: 'a word) i"
    using i by (simp add: bit_be_load n_def q_def)
  finally show "bit (field_load f :: 'a word) i = bit (be_load (octets f) :: 'a word) i" .
qed

lemma field_load_store:
  assumes "8 dvd LENGTH('a)" and "n \<le> sizeof v"
  shows "field_load (field_store n v) = take_bit (8 * n) (v :: 'a::len word)"
proof (rule bit_word_eqI)
  fix i assume i: "i < LENGTH('a)"
  have n: "i div 8 < n \<longleftrightarrow> i < 8 * n" by auto
  have "i div 8 < n \<Longrightarrow> bit (be_store n v ! (n - Suc (i div 8))) (i mod 8) = bit v i"
    by (simp add: bit_simps)
  then show "bit (field_load (field_store n v) :: 'a word) i = bit (take_bit (8 * n) v) i"
    using i assms n
    by (auto simp: field_load_be octets_field_store bit_be_load bit_take_bit_iff)
qed

lemma field_store_load:
  assumes "8 dvd LENGTH('a)" and "length (octets f) \<le> LENGTH('a) div 8"
  shows "field_store (length (octets f)) (field_load f :: 'a::len word) = f"
proof -
  have "octets (field_store (length (octets f)) (field_load f :: 'a word)) = octets f"
    using assms be_store_be_load [of "octets f", where 'a = 'a]
    by (simp add: octets_field_store field_load_be)
  then show ?thesis by (cases f) (simp add: field_store_def Let_def)
qed

lemma field_load_unat:
  assumes "8 dvd LENGTH('a)" and "length (octets f) \<le> LENGTH('a) div 8"
  shows "unat (field_load f :: 'a::len word) = bytes_val (octets f)"
proof -
  have "8 * length (octets f) \<le> LENGTH('a)" using assms by (auto elim!: dvdE)
  then show ?thesis using assms by (simp add: field_load_be unat_be_load)
qed

lemma octets_less_bytes_val:
  "length xs = length ys \<Longrightarrow> octets_less xs ys \<longleftrightarrow> bytes_val xs < bytes_val ys"
proof (induction xs ys rule: octets_less.induct)
  case (3 x xs y ys)
  let ?p = "256 ^ length ys :: nat"
  have len: "length xs = length ys" using 3 by simp
  have bx: "bytes_val xs < ?p" using bytes_val_bound [of xs] len by simp
  have by': "bytes_val ys < ?p" using bytes_val_bound [of ys] by simp
  have mono: "a * ?p + c < b * ?p + d" if "a < b" "c < ?p" for a b c d
  proof -
    have "(a + 1) * ?p \<le> b * ?p" using that(1) by (intro mult_le_mono1) simp
    then show ?thesis using that(2) by simp
  qed
  consider "x < y" | "x = y" | "y < x" by fastforce
  then show ?case
  proof cases
    case 1
    then show ?thesis using mono [of "unat x" "unat y"] bx len by (simp add: word_less_nat_alt)
  next
    case 2
    then show ?thesis using "3.IH" len by simp
  next
    case 3
    then have "unat y * ?p + bytes_val ys < unat x * ?p + bytes_val xs"
      using mono [of "unat y" "unat x"] by' by (simp add: word_less_nat_alt)
    then show ?thesis using 3 len by (auto simp: less_le_not_le)
  qed
qed simp_all

lemma fold_shift_or:
  "fold (\<lambda>octet (tmp, shift). (tmp OR push_bit shift (ucast octet), shift + 8)) bs (t, s) =
     (t OR push_bit s (le_load bs :: 'a::len word), s + 8 * length bs)"
proof (induction bs arbitrary: t s)
  case (Cons b bs)
  show ?case
    by (simp add: Cons.IH push_bit_or or.assoc push_bit_push_bit ac_simps)
qed simp

lemma field_load_idx_be:
  assumes "8 dvd LENGTH('a)" and "LENGTH('a) div 8 * idx < length (octets f)"
  shows "field_load_idx f idx =
    Inr (be_load (take (LENGTH('a) div 8) (drop (LENGTH('a) div 8 * idx) (octets f)))
      :: 'a::len word)"
proof (cases "LENGTH('a) div 8 * (idx + 1) \<le> length (octets f)")
  case True
  let ?bs = "take (LENGTH('a) div 8) (drop (idx * (LENGTH('a) div 8)) (octets f))"
  have "8 * length ?bs = LENGTH('a)" using True assms(1) by (auto elim!: dvdE simp: algebra_simps)
  then have "bswap (le_load ?bs :: 'a word) = be_load ?bs"
    by (simp add: bswap_net_swap [OF assms(1)] net_swap_le_load)
  then show ?thesis using True assms(2)
    by (simp add: field_load_idx_def Let_def ac_simps)
next
  case False
  let ?o = "octets f" and ?k = "LENGTH('a) div 8 * idx"
  have "take (length ?o - ?k) (rev ?o) = rev (drop ?k ?o)"
    using assms(2) by (simp add: take_rev)
  moreover have "take (LENGTH('a) div 8) (drop ?k ?o) = drop ?k ?o"
    using False by simp
  ultimately show ?thesis using False assms(2)
    by (simp add: field_load_idx_def Let_def fold_shift_or be_load_def)
qed

lemma bytes_val_field_store:
  assumes "8 dvd LENGTH('a)" and "n \<le> sizeof v"
  shows "bytes_val (octets (field_store n (v :: 'a::len word))) = unat v mod 256 ^ n"
proof -
  have "bytes_val (octets (field_store n v)) = unat (field_load (field_store n v) :: 'a word)"
    using assms field_wf_store [OF assms] by (simp add: field_load_unat field_wf_def)
  also have "\<dots> = take_bit (8 * n) (unat v)"
    using assms by (simp add: field_load_store unsigned_take_bit_eq)
  also have "\<dots> = unat v mod 256 ^ n" by (simp add: take_bit_nat_def power_mult)
  finally show ?thesis .
qed

lemma bytes_val_number_update:
  assumes "8 dvd LENGTH('a)" and "8 dvd LENGTH('c)" and "LENGTH('a) \<le> LENGTH('c)"
    and "length (octets f) \<le> LENGTH('a) div 8"
  shows "bytes_val (octets (number_update TYPE('a::len) (g :: 'c::len word \<Rightarrow> 'c word) f)) =
    unat (g (word_of_nat (bytes_val (octets f)))) mod 256 ^ length (octets f)"
proof -
  have "LENGTH('a) div 8 \<le> LENGTH('c) div 8" using assms(3) by (rule div_le_mono)
  moreover have "ucast (number_load f :: 'a word) = (word_of_nat (bytes_val (octets f)) :: 'c word)"
    using field_load_unat [OF assms(1,4)] of_nat_unat [of "field_load f :: 'a word", where ?'a = "'c word"]
    by (simp add: number_load_def)
  ultimately show ?thesis
    using assms by (simp add: number_update_def bytes_val_field_store)
qed

lemma bswap_impl_16_bswap: "bswap_impl_16 i = bswap i"
proof (rule bit_word_eqI)
  fix k assume "k < LENGTH(128)"
  then have k: "k < 128" by simp
  have b: "bswap_impl x [0..<8] = bswap (x :: u64)" for x by (simp add: bswap_def)
  show "bit (bswap_impl_16 i) k = bit (bswap i) k"
  proof (cases "k < 64")
    case True
    then have "k div 8 < 8" by simp
    then have "8 * (15 - k div 8) = 64 + 8 * (7 - k div 8)"
      and "8 * (7 - k div 8) + k mod 8 < 64"
      by (linarith, auto)
    then show ?thesis
      using True by (simp add: bswap_impl_16_def b bit_simps bit_bswap add.assoc)
  next
    case False
    define j where "j = k - 64"
    have j: "k = j + 64" "j < 64" using False k by (simp_all add: j_def)
    have "k = j + 8 * 8" using j(1) by simp
    then have "k div 8 = j div 8 + 8" "k mod 8 = j mod 8"
      by (simp, simp only: mod_mult_self2)
    then have "8 * (7 - j div 8) + j mod 8 = 8 * (15 - k div 8) + k mod 8"
      and "8 * (7 - j div 8) + j mod 8 < 64"
      by simp_all
    moreover have "\<not> bit (bswap (ucast (drop_bit 64 i) :: u64)) (j + 64)"
      by (auto dest: bit_imp_le_length)
    ultimately show ?thesis
      using j by (simp add: bswap_impl_16_def b bit_simps bit_bswap)
  qed
qed

lemma field_orders:
  assumes "8 dvd LENGTH('a)" and "n \<le> LENGTH('a) div 8" and "field_wf n f" and "field_wf n g"
  shows "field_lt f g \<longleftrightarrow> field_lt_int f (field_load g :: 'a::len word)"
    and "field_le f g \<longleftrightarrow> field_le_int f (field_load g :: 'a word)"
    and "field_gt f g \<longleftrightarrow> field_gt_int f (field_load g :: 'a word)"
    and "field_ge f g \<longleftrightarrow> field_ge_int f (field_load g :: 'a word)"
    and "field_eq f g \<longleftrightarrow> field_eq_int f (field_load g :: 'a word)"
    and "field_ne f g \<longleftrightarrow> field_ne_int f (field_load g :: 'a word)"
proof -
  have v: "unat (field_load f :: 'a word) = bytes_val (octets f)"
    "unat (field_load g :: 'a word) = bytes_val (octets g)"
    using assms by (simp_all add: field_load_unat field_wf_def)
  have len: "length (octets f) = length (octets g)" using assms by (simp add: field_wf_def)
  note defs = field_lt_def field_lt_int_def field_le_def field_le_int_def field_gt_def
    field_gt_int_def field_ge_def field_ge_int_def
  show "field_lt f g \<longleftrightarrow> field_lt_int f (field_load g :: 'a word)"
    and "field_le f g \<longleftrightarrow> field_le_int f (field_load g :: 'a word)"
    and "field_gt f g \<longleftrightarrow> field_gt_int f (field_load g :: 'a word)"
    and "field_ge f g \<longleftrightarrow> field_ge_int f (field_load g :: 'a word)"
    using v len by (auto simp: defs octets_less_bytes_val word_less_nat_alt word_le_nat_alt)
  have "octets f = octets g" if "field_load f = (field_load g :: 'a word)"
    using that field_store_load [OF assms(1), of f] field_store_load [OF assms(1), of g] assms
    by (simp add: field_wf_def)
  moreover have "field_load f = (field_load g :: 'a word)" if "octets f = octets g"
    using that by (simp add: field_load_def)
  ultimately show "field_eq f g \<longleftrightarrow> field_eq_int f (field_load g :: 'a word)"
    and "field_ne f g \<longleftrightarrow> field_ne_int f (field_load g :: 'a word)"
    by (auto simp: field_eq_def field_eq_int_def field_ne_def field_ne_int_def)
qed

lemma number_arithmetic:
  assumes "8 dvd LENGTH('a)" and "8 dvd LENGTH('c)" and "LENGTH('a) \<le> LENGTH('c)"
    and "field_wf n f" and "n \<le> LENGTH('a) div 8"
  shows "bytes_val (octets (number_add TYPE('a::len) f (rhs :: 'c::len word))) =
      (bytes_val (octets f) + unat rhs) mod 256 ^ n"
    and "bytes_val (octets (number_mul TYPE('a) f rhs)) = (bytes_val (octets f) * unat rhs) mod 256 ^ n"
    and "field_wf n (number_add TYPE('a) f rhs)"
    and "field_wf n (number_mul TYPE('a) f rhs)"
proof -
  have n: "length (octets f) = n" using assms(4) by (simp add: field_wf_def)
  have le: "n \<le> LENGTH('c) div 8" using assms(3,5) div_le_mono [of "LENGTH('a)" "LENGTH('c)" 8] by simp
  then have "8 * n \<le> LENGTH('c)" by (auto elim!: dvdE [OF assms(2)])
  then have "(2::nat) ^ (8 * n) dvd 2 ^ LENGTH('c)" by (rule le_imp_power_dvd)
  then have d: "(256::nat) ^ n dvd 2 ^ LENGTH('c)" by (simp add: power_mult)
  note upd = bytes_val_number_update [OF assms(1-3), of f]
  show "bytes_val (octets (number_add TYPE('a) f rhs)) = (bytes_val (octets f) + unat rhs) mod 256 ^ n"
    "bytes_val (octets (number_mul TYPE('a) f rhs)) = (bytes_val (octets f) * unat rhs) mod 256 ^ n"
    using upd n assms(5) d
    by (simp_all add: number_add_def number_mul_def unat_word_ariths unsigned_of_nat take_bit_nat_def
        mod_mod_cancel mod_add_left_eq mod_mult_left_eq)
  show "field_wf n (number_add TYPE('a) f rhs)" "field_wf n (number_mul TYPE('a) f rhs)"
    using n le assms(2) by (simp_all add: number_add_def number_mul_def number_update_def)
qed

subsection \<open>Properties\<close>



text \<open>
  The comparison operators on two fields of the same width, which compare the octet arrays
  lexicographically, agree with the comparison operators that load both values as unsigned numbers.
\<close>

theorem field_order_is_numeric:
  assumes "8 dvd LENGTH('a)" and "n \<le> LENGTH('a) div 8" and "field_wf n f" and "field_wf n g"
  shows "(field_lt f g \<longleftrightarrow> field_lt_int f (field_load g :: 'a::len word))
    \<and> (field_le f g \<longleftrightarrow> field_le_int f (field_load g :: 'a word))
    \<and> (field_gt f g \<longleftrightarrow> field_gt_int f (field_load g :: 'a word))
    \<and> (field_ge f g \<longleftrightarrow> field_ge_int f (field_load g :: 'a word))
    \<and> (field_eq f g \<longleftrightarrow> field_eq_int f (field_load g :: 'a word))
    \<and> (field_ne f g \<longleftrightarrow> field_ne_int f (field_load g :: 'a word))"
  by (intro conjI field_orders [OF assms])

theorem field_order_is_numeric_witness:
  "field_lt \<lparr>octets = [1, 2]\<rparr> \<lparr>octets = [2, 1]\<rparr> \<longleftrightarrow>
     field_lt_int \<lparr>octets = [1, 2]\<rparr> (field_load \<lparr>octets = [2, 1]\<rparr> :: u16)"
  using field_order_is_numeric [of 2 "\<lparr>octets = [1, 2]\<rparr>" "\<lparr>octets = [2, 1]\<rparr>", where 'a = 16]
  by (simp add: field_wf_def)

text \<open>
  The indexed load throws exactly when the requested element starts past the end of the field, and
  otherwise returns the number denoted by the octets of that element, also when only the last few
  octets of the field are left for it.
\<close>

theorem field_load_idx_value:
  assumes "8 dvd LENGTH('a)"
  shows "field_load_idx f idx =
    (if LENGTH('a) div 8 * idx < length (octets f)
     then Inr (be_load (take (LENGTH('a) div 8) (drop (LENGTH('a) div 8 * idx) (octets f)))
       :: 'a::len word)
     else Inl Out_of_range)"
proof (cases "LENGTH('a) div 8 * idx < length (octets f)")
  case True
  then show ?thesis by (simp only: field_load_idx_be [OF assms True] if_True)
next
  case False
  then show ?thesis by (simp add: field_load_idx_def Let_def)
qed

theorem field_load_idx_value_witness:
  "field_load_idx \<lparr>octets = [1, 2, 3]\<rparr> 1 = Inr (3 :: u16)
    \<and> field_load_idx \<lparr>octets = [1, 2, 3]\<rparr> 2 = (Inl Out_of_range :: cpp_error + u16)"
  using field_load_idx_value [of "\<lparr>octets = [1, 2, 3]\<rparr>" 1, where 'a = 16]
    field_load_idx_value [of "\<lparr>octets = [1, 2, 3]\<rparr>" 2, where 'a = 16]
  by (simp add: be_load_def)

text \<open>
  The compound assignments of \<open>number<T, Octets>\<close> compute modulo \<open>2\<^sup>8\<^sup>n\<close>: addition and multiplication
  of the denoted numbers wrap around at the width of the field, whatever wider type the operand has,
  and the field keeps its width.
\<close>

theorem number_arithmetic_modular:
  assumes "8 dvd LENGTH('a)" and "8 dvd LENGTH('c)" and "LENGTH('a) \<le> LENGTH('c)"
    and "field_wf n f" and "n \<le> LENGTH('a) div 8"
  shows "bytes_val (octets (number_add TYPE('a::len) f (rhs :: 'c::len word))) =
      (bytes_val (octets f) + unat rhs) mod 256 ^ n
    \<and> bytes_val (octets (number_mul TYPE('a) f rhs)) = (bytes_val (octets f) * unat rhs) mod 256 ^ n
    \<and> field_wf n (number_add TYPE('a) f rhs) \<and> field_wf n (number_mul TYPE('a) f rhs)"
  by (intro conjI number_arithmetic [OF assms])

theorem number_arithmetic_modular_witness:
  "bytes_val (octets (number_add TYPE(8) \<lparr>octets = [250]\<rparr> (10 :: u32))) = 4
    \<and> field_wf 1 (number_mul TYPE(8) \<lparr>octets = [250]\<rparr> (10 :: u32))"
  using number_arithmetic_modular [of 1 "\<lparr>octets = [250]\<rparr>" "10 :: u32", where 'a = 8]
  by (simp add: field_wf_def)

end
