(* ===== verification/Pga_Crc.thy ===== *)
theory Pga_Crc
  imports Prelude
begin

text \<open>
  The signature CRC of \<^verbatim>\<open>src/lib/spirent_pga/common/crc.h\<close> (the table driven variant), with the
  bit-by-bit CRC-16/CCITT as its reference.
\<close>

unbundle bit_operations_syntax

definition ccitt16 :: "u16 list" where
  "ccitt16 = [
     0x0000, 0x1021, 0x2042, 0x3063, 0x4084, 0x50a5, 0x60c6, 0x70e7,
     0x8108, 0x9129, 0xa14a, 0xb16b, 0xc18c, 0xd1ad, 0xe1ce, 0xf1ef,
     0x1231, 0x0210, 0x3273, 0x2252, 0x52b5, 0x4294, 0x72f7, 0x62d6,
     0x9339, 0x8318, 0xb37b, 0xa35a, 0xd3bd, 0xc39c, 0xf3ff, 0xe3de,
     0x2462, 0x3443, 0x0420, 0x1401, 0x64e6, 0x74c7, 0x44a4, 0x5485,
     0xa56a, 0xb54b, 0x8528, 0x9509, 0xe5ee, 0xf5cf, 0xc5ac, 0xd58d,
     0x3653, 0x2672, 0x1611, 0x0630, 0x76d7, 0x66f6, 0x5695, 0x46b4,
     0xb75b, 0xa77a, 0x9719, 0x8738, 0xf7df, 0xe7fe, 0xd79d, 0xc7bc,
     0x48c4, 0x58e5, 0x6886, 0x78a7, 0x0840, 0x1861, 0x2802, 0x3823,
     0xc9cc, 0xd9ed, 0xe98e, 0xf9af, 0x8948, 0x9969, 0xa90a, 0xb92b,
     0x5af5, 0x4ad4, 0x7ab7, 0x6a96, 0x1a71, 0x0a50, 0x3a33, 0x2a12,
     0xdbfd, 0xcbdc, 0xfbbf, 0xeb9e, 0x9b79, 0x8b58, 0xbb3b, 0xab1a,
     0x6ca6, 0x7c87, 0x4ce4, 0x5cc5, 0x2c22, 0x3c03, 0x0c60, 0x1c41,
     0xedae, 0xfd8f, 0xcdec, 0xddcd, 0xad2a, 0xbd0b, 0x8d68, 0x9d49,
     0x7e97, 0x6eb6, 0x5ed5, 0x4ef4, 0x3e13, 0x2e32, 0x1e51, 0x0e70,
     0xff9f, 0xefbe, 0xdfdd, 0xcffc, 0xbf1b, 0xaf3a, 0x9f59, 0x8f78,
     0x9188, 0x81a9, 0xb1ca, 0xa1eb, 0xd10c, 0xc12d, 0xf14e, 0xe16f,
     0x1080, 0x00a1, 0x30c2, 0x20e3, 0x5004, 0x4025, 0x7046, 0x6067,
     0x83b9, 0x9398, 0xa3fb, 0xb3da, 0xc33d, 0xd31c, 0xe37f, 0xf35e,
     0x02b1, 0x1290, 0x22f3, 0x32d2, 0x4235, 0x5214, 0x6277, 0x7256,
     0xb5ea, 0xa5cb, 0x95a8, 0x8589, 0xf56e, 0xe54f, 0xd52c, 0xc50d,
     0x34e2, 0x24c3, 0x14a0, 0x0481, 0x7466, 0x6447, 0x5424, 0x4405,
     0xa7db, 0xb7fa, 0x8799, 0x97b8, 0xe75f, 0xf77e, 0xc71d, 0xd73c,
     0x26d3, 0x36f2, 0x0691, 0x16b0, 0x6657, 0x7676, 0x4615, 0x5634,
     0xd94c, 0xc96d, 0xf90e, 0xe92f, 0x99c8, 0x89e9, 0xb98a, 0xa9ab,
     0x5844, 0x4865, 0x7806, 0x6827, 0x18c0, 0x08e1, 0x3882, 0x28a3,
     0xcb7d, 0xdb5c, 0xeb3f, 0xfb1e, 0x8bf9, 0x9bd8, 0xabbb, 0xbb9a,
     0x4a75, 0x5a54, 0x6a37, 0x7a16, 0x0af1, 0x1ad0, 0x2ab3, 0x3a92,
     0xfd2e, 0xed0f, 0xdd6c, 0xcd4d, 0xbdaa, 0xad8b, 0x9de8, 0x8dc9,
     0x7c26, 0x6c07, 0x5c64, 0x4c45, 0x3ca2, 0x2c83, 0x1ce0, 0x0cc1,
     0xef1f, 0xff3e, 0xcf5d, 0xdf7c, 0xaf9b, 0xbfba, 0x8fd9, 0x9ff8,
     0x6e17, 0x7e36, 0x4e55, 0x5e74, 0x2e93, 0x3eb2, 0x0ed1, 0x1ef0]"

definition crc16_step :: "u8 \<Rightarrow> u16 \<Rightarrow> u16" where
  "crc16_step x crc16 =
     ccitt16 ! unat ((drop_bit 8 crc16 XOR ucast x) AND 0xff) XOR push_bit 8 crc16"

definition calculate_signature_crc16 :: "u8 list \<Rightarrow> u16" where
  "calculate_signature_crc16 data = NOT (fold crc16_step (take 16 data) 0xffff)"

subsection \<open>The bit-serial reference\<close>

definition crc_bit :: "u16 \<Rightarrow> u16" where
  "crc_bit c = (if bit c 15 then push_bit 1 c XOR 0x1021 else push_bit 1 c)"

definition crc_byte :: "u8 \<Rightarrow> u16 \<Rightarrow> u16" where
  "crc_byte x c = (crc_bit ^^ 8) (c XOR push_bit 8 (ucast x))"

definition crc_ref :: "u8 list \<Rightarrow> u16" where
  "crc_ref data = NOT (fold crc_byte data 0xffff)"

lemma crc_bit_xor: "crc_bit (a XOR b) = crc_bit a XOR crc_bit b"
  by (auto simp: crc_bit_def bit_simps ac_simps push_bit_xor)

lemma crc_bits_xor: "(crc_bit ^^ n) (a XOR b) = (crc_bit ^^ n) a XOR (crc_bit ^^ n) b"
  by (induction n) (simp_all add: crc_bit_xor)

lemma crc_bits_shift:
  assumes "n \<le> 8"
  shows "(crc_bit ^^ n) (take_bit 8 c) = push_bit n (take_bit 8 c)"
  using assms
proof (induction n)
  case (Suc n)
  have "\<not> bit (push_bit n (take_bit 8 c)) 15" using Suc.prems by (auto simp: bit_simps)
  with Suc show ?case by (simp add: crc_bit_def)
qed simp

text \<open>A table of a linear function is spanned by its values at the powers of two.\<close>

fun xor_span :: "u16 list \<Rightarrow> u16 list" where
  "xor_span [] = [0]"
| "xor_span (e # es) = xor_span es @ map ((XOR) e) (xor_span es)"

lemma length_xor_span [simp]: "length (xor_span es) = 2 ^ length es"
  by (induction es) simp_all

lemma xor_span_linear:
  fixes f :: "u16 \<Rightarrow> u16"
  assumes lin: "\<And>a b. f (a XOR b) = f a XOR f b" and "n \<le> 16" "b < 2 ^ n"
  shows "xor_span (map (\<lambda>k. f (push_bit k 1)) (rev [0..<n])) ! b = f (of_nat b)"
  using assms(2,3)
proof (induction n arbitrary: b)
  case 0
  have "f 0 = 0" using lin [of 0 0] by simp
  with 0 show ?case by simp
next
  case (Suc n)
  show ?case
  proof (cases "b < 2 ^ n")
    case True
    with Suc show ?thesis by (simp add: nth_append)
  next
    case False
    define c where "c = b - 2 ^ n"
    have b: "b = 2 ^ n + c" and c: "c < 2 ^ n" using False Suc.prems by (simp_all add: c_def)
    have "push_bit n 1 AND (of_nat c :: u16) = 0"
    proof (rule bit_word_eqI)
      fix i
      have "\<not> bit c n" using c by (simp add: bit_iff_odd)
      then show "bit (push_bit n 1 AND (of_nat c :: u16)) i = bit 0 i"
        by (auto simp: bit_simps bit_1_iff)
    qed
    then have "(push_bit n 1 XOR of_nat c :: u16) = push_bit n 1 + of_nat c"
      by (simp add: disjunctive_xor_eq_or disjunctive_add_eq_or)
    then have "of_nat b = push_bit n 1 XOR (of_nat c :: u16)"
      by (simp add: b push_bit_eq_mult)
    then have "f (of_nat b) = f (push_bit n 1) XOR f (of_nat c)" by (simp only: lin)
    with Suc c show ?thesis by (simp add: nth_append b)
  qed
qed

lemma crc_eight_bits:
  "(crc_bit ^^ 8) c = crc_bit (crc_bit (crc_bit (crc_bit (crc_bit (crc_bit (crc_bit (crc_bit c)))))))"
  by (simp add: numeral_eq_Suc)

lemma ccitt16_span:
  "ccitt16 = xor_span (map (\<lambda>k. (crc_bit ^^ 8) (push_bit 8 (push_bit k 1))) (rev [0..<8]))"
proof -
  have "map (\<lambda>k. (crc_bit ^^ 8) (push_bit 8 (push_bit k 1))) (rev [0..<8]) =
      [0x9188, 0x48c4, 0x2462, 0x1231, 0x8108, 0x4084, 0x2042, 0x1021]"
    by (simp add: upt_rec crc_eight_bits crc_bit_def push_bit_eq_mult)
  then show ?thesis by (simp add: ccitt16_def)
qed

lemma ccitt16_nth: "b < 256 \<Longrightarrow> ccitt16 ! b = (crc_bit ^^ 8) (push_bit 8 (of_nat b))"
  unfolding ccitt16_span
  by (rule xor_span_linear [where f = "\<lambda>w. (crc_bit ^^ 8) (push_bit 8 w)"])
    (simp_all add: push_bit_xor crc_bits_xor)

lemma crc_step_ref: "crc16_step x c = crc_byte x c"
proof -
  let ?b = "take_bit 8 (drop_bit 8 c XOR ucast x)"
  have n: "of_nat (unat ?b) = ?b" by simp
  have lt: "unat ?b < 256"
    using take_bit_nat_less_exp [of 8 "unat (drop_bit 8 c XOR ucast x)"]
    by (simp add: unsigned_take_bit_eq del: take_bit_xor)
  have split: "c XOR push_bit 8 (ucast x) = push_bit 8 ?b XOR take_bit 8 c"
    by (rule bit_word_eqI) (auto simp: bit_simps dest: bit_imp_le_length)
  have "push_bit 8 (take_bit 8 c) = push_bit 8 c"
    by (rule bit_word_eqI) (auto simp: bit_simps dest: bit_imp_le_length)
  then show ?thesis
    unfolding crc16_step_def crc_byte_def split crc_bits_xor and_ff ccitt16_nth [OF lt] n
    by (simp add: crc_bits_shift)
qed

lemma xor_cancel16: "a XOR c = b XOR c \<longleftrightarrow> a = (b :: u16)"
proof
  assume "a XOR c = b XOR c"
  then have "(a XOR c) XOR c = (b XOR c) XOR c" by simp
  then show "a = b" by (simp add: xor.assoc)
qed simp

lemma bit_crc_bit: "bit (crc_bit c) i \<longleftrightarrow>
    i < 16 \<and> ((i \<noteq> 0 \<and> bit c (i - 1)) \<noteq> (bit c 15 \<and> bit (0x1021 :: u16) i))"
proof -
  have p: "bit (push_bit 1 c) i \<longleftrightarrow> i < 16 \<and> i \<noteq> 0 \<and> bit c (i - 1)"
    unfolding bit_push_bit_iff by auto
  have "bit (0x1021 :: u16) i \<Longrightarrow> i < 16" by (drule bit_imp_le_length) simp
  then show ?thesis
    unfolding crc_bit_def by (cases "bit c 15") (simp_all only: bit_xor_iff p if_True if_False, blast+)
qed

lemma crc_bit_inj: "crc_bit a = crc_bit b \<Longrightarrow> a = b"
proof (rule bit_word_eqI)
  fix i
  assume eq: "crc_bit a = crc_bit b" and i: "i < LENGTH(16)"
  have top: "bit a 15 = bit b 15"
    using arg_cong [OF eq, of "\<lambda>w. bit w 0"] by (simp add: bit_crc_bit)
  then show "bit a i = bit b i"
    using i arg_cong [OF eq, of "\<lambda>w. bit w (Suc i)"] by (cases "i = 15") (auto simp: bit_crc_bit)
qed

lemma crc_bits_inj: "(crc_bit ^^ n) a = (crc_bit ^^ n) b \<longleftrightarrow> a = b"
  by (induction n) (auto dest: crc_bit_inj)

lemma crc_byte_state_inj: "crc_byte x a = crc_byte x b \<longleftrightarrow> a = b"
  unfolding crc_byte_def crc_bits_inj by (rule xor_cancel16)

lemma fold_crc_state_inj: "fold crc_byte xs a = fold crc_byte xs b \<longleftrightarrow> a = b"
  by (induction xs arbitrary: a b) (simp_all add: crc_byte_state_inj)

lemma crc_two_bytes:
  "crc_byte y (crc_byte x c) = (crc_bit ^^ 16) (c XOR (push_bit 8 (ucast x) XOR ucast y))"
proof -
  have take_byte: "take_bit 8 (ucast y :: u16) = ucast y"
    by (rule bit_word_eqI) (auto simp: bit_simps dest: bit_imp_le_length)
  have "(crc_bit ^^ 8) (ucast y) = push_bit 8 (ucast y :: u16)"
    using crc_bits_shift [of 8 "ucast y"] by (simp add: take_byte)
  then have "crc_byte y (crc_byte x c) =
      (crc_bit ^^ 8) ((crc_bit ^^ 8) (c XOR push_bit 8 (ucast x) XOR ucast y))"
    by (simp add: crc_byte_def crc_bits_xor xor.assoc)
  also have "\<dots> = (crc_bit ^^ (8 + 8)) (c XOR push_bit 8 (ucast x) XOR ucast y)"
    unfolding funpow_add by simp
  finally show ?thesis by (simp add: xor.assoc)
qed

lemma fold_crc_step_ref: "fold crc16_step xs c = fold crc_byte xs c"
  by (induction xs arbitrary: c) (simp_all add: crc_step_ref)

text \<open>
  C15: The table driven CRC of the signature bytes is the bit-serial CRC-16/CCITT (polynomial
  0x1021, initial value 0xffff, complemented) of the first sixteen bytes.
\<close>

theorem crc16_is_bit_serial: "calculate_signature_crc16 data = crc_ref (take 16 data)"
  by (simp add: calculate_signature_crc16_def crc_ref_def fold_crc_step_ref)

lemma burst_word:
  assumes "(push_bit 8 (ucast (x :: u8)) XOR ucast (y :: u8) :: u16) = push_bit 8 (ucast x') XOR ucast y'"
  shows "x = x'" and "y = y'"
proof -
  have "bit x i = bit x' i" if "i < 8" for i
    using arg_cong [OF assms, of "\<lambda>w. bit w (8 + i)"] that
    by (auto simp: bit_simps dest: bit_imp_le_length)
  then show "x = x'" by (intro bit_word_eqI) simp
  have "bit y i = bit y' i" if "i < 8" for i
    using arg_cong [OF assms, of "\<lambda>w. bit w i"] that by (auto simp: bit_simps)
  then show "y = y'" by (intro bit_word_eqI) simp
qed

text \<open>
  C36: Corrupting one byte, or two adjacent bytes, of the sixteen signature bytes always changes
  the CRC.
\<close>

theorem crc16_detects_bursts:
  assumes "length pre + length post = 14" and "(x, y) \<noteq> (x', y')"
  shows "calculate_signature_crc16 (pre @ [x, y] @ post) \<noteq>
    calculate_signature_crc16 (pre @ [x', y'] @ post)"
proof -
  have "crc_byte y (crc_byte x c) \<noteq> crc_byte y' (crc_byte x' c)" for c
    using assms(2) burst_word [of x y x' y'] xor_cancel16 [of _ c]
    unfolding crc_two_bytes crc_bits_inj by (auto simp: xor.commute [of c])
  then show ?thesis
    using assms(1) by (simp add: calculate_signature_crc16_def fold_crc_step_ref crc_step_ref fold_crc_state_inj)
qed

theorem crc16_detects_bursts_witness:
  "calculate_signature_crc16 ([] @ [1, 2] @ replicate 14 0) \<noteq>
    calculate_signature_crc16 ([] @ [1, 3] @ replicate 14 0)"
  by (rule crc16_detects_bursts) simp_all

end
