(* ===== verification/Pga_Signature.thy ===== *)
theory Pga_Signature
  imports Prelude
begin

text \<open>
  The Spirent packet signature of \<^verbatim>\<open>src/lib/spirent_pga\<close>: the scramble masks
  (\<^verbatim>\<open>scalar/signature_scramble.h\<close>), encoding and decoding of one batch of signatures
  (\<^verbatim>\<open>scalar/encode_signatures.cpp\<close>, \<^verbatim>\<open>scalar/decode_signatures.cpp\<close>), the CRC
  (\<^verbatim>\<open>common/crc.h\<close>) and the batching drivers and CRC filter of \<^verbatim>\<open>common/signature.cpp\<close>.

  A payload is the list of the bytes behind the pointer. The C arrays the code fills are lists,
  updated at the index the code writes; an \<open>int\<close> flag word is its 32-bit pattern. The drivers call
  the encode and decode routines through the function table of \<^verbatim>\<open>functions.h\<close>, whose entry is
  chosen at run time, so those two routines are arguments of the drivers and the interface
  \<open>signature_codec\<close> states what the drivers need; the scalar routines provide it.
\<close>

unbundle bit_operations_syntax

subsection \<open>Scramble masks\<close>

definition rotate_left :: "u32 \<Rightarrow> u32 \<Rightarrow> u32" where
  "rotate_left value count =
     (let mask = 31; count = count AND mask in
        push_bit (unat count) value OR drop_bit (unat (- count AND mask)) value)"

definition scramble_masks :: "u32 list list" where
  "scramble_masks =
     [[0xffff8404, 0x7807807b, 0x87807c7b, 0x838003ff],
      [0x00f0f7f8, 0x0808fff7, 0x070ffff8, 0xf0f000f0],
      [0x00100e1f, 0xf01001ee, 0x01f1fe1f, 0xeff01ff0],
      [0x00203c1c, 0x3fdfc01c, 0x3fc003dc, 0x23c023c0],
      [0x003fb807, 0xb8384078, 0x47bf8047, 0xbfbfc03f],
      [0x00f08fff, 0x8ff08070, 0x808f807f, 0x708fff0f],
      [0x00e0fe1f, 0xffe0fe1e, 0xfefe01e0, 0xe0ffe0ff],
      [0x003fc203, 0xc03fc1fd, 0xc1c1fdc3, 0xc3c03c3f]]"

definition scramble :: "u8 \<Rightarrow> nat \<Rightarrow> u32" where
  "scramble byte index =
     (let base = push_bit 24 (ucast byte) OR push_bit 16 (ucast byte) OR push_bit 8 (ucast byte)
            OR ucast byte in
        (base AND scramble_masks ! 0 ! index)
        XOR (rotate_left base 1 AND scramble_masks ! 1 ! index)
        XOR (rotate_left base 2 AND scramble_masks ! 2 ! index)
        XOR (rotate_left base 3 AND scramble_masks ! 3 ! index)
        XOR (rotate_left base 4 AND scramble_masks ! 4 ! index)
        XOR (rotate_left base 5 AND scramble_masks ! 5 ! index)
        XOR (rotate_left base 6 AND scramble_masks ! 6 ! index)
        XOR (rotate_left base 7 AND scramble_masks ! 7 ! index))"

definition get_scramble_mask :: "u8 \<Rightarrow> u32 list" where
  "get_scramble_mask seed = [scramble seed 0, scramble seed 1, scramble seed 2, scramble seed 3]"

subsection \<open>Encoding one batch\<close>

definition encode_data :: "u32 \<Rightarrow> u32 \<Rightarrow> u32 \<Rightarrow> u32 \<Rightarrow> u32 \<Rightarrow> u32 list" where
  "encode_data stream_id sequence_number timestamp_hi timestamp_lo flags =
     [drop_bit 8 stream_id,
      push_bit 24 stream_id
        OR ((drop_bit 8 sequence_number AND 0xffff00) XOR 0xffff00)
        OR drop_bit 24 sequence_number,
      push_bit 8 sequence_number OR drop_bit 24 timestamp_lo,
      push_bit 8 timestamp_lo OR (push_bit 2 timestamp_hi AND 0xfc) OR (flags AND 0x3)]"

definition encode_signature ::
  "u32 \<Rightarrow> u32 \<Rightarrow> u32 \<Rightarrow> u32 \<Rightarrow> u32 \<Rightarrow> u8 list \<Rightarrow> u8 list" where
  "encode_signature stream_id sequence_number timestamp_hi timestamp_lo flags destination =
     (let data = encode_data stream_id sequence_number timestamp_hi timestamp_lo flags;
          scramble_key = ucast (sequence_number AND 0xff) :: u8;
          mask = get_scramble_mask (scramble_key XOR 0xff) in
        le_store 4 (htonl (data ! 0 XOR mask ! 0)) @ le_store 4 (htonl (data ! 1 XOR mask ! 1))
        @ le_store 4 (htonl (data ! 2 XOR mask ! 2)) @ le_store 4 (htonl (data ! 3 XOR mask ! 3))
        @ drop 16 destination)"

definition encode_signatures ::
  "u8 list list \<Rightarrow> u32 list \<Rightarrow> u32 list \<Rightarrow> u32 list \<Rightarrow> u32 list \<Rightarrow> u32 list \<Rightarrow> nat \<Rightarrow> u8 list list"
where
  "encode_signatures destinations stream_ids sequence_numbers timestamps_hi timestamps_lo flags count =
     fold (\<lambda>i ds. ds[i := encode_signature (stream_ids ! i) (sequence_numbers ! i)
                           (timestamps_hi ! i) (timestamps_lo ! i) (flags ! i) (ds ! i)])
       [0..<count] destinations"

subsection \<open>Decoding one batch\<close>

record decoded =
  stream_id :: u32
  sequence_number :: u32
  timestamp_lo :: u32
  timestamp_hi :: u32
  flag :: u32

definition is_valid :: u32 where
  "is_valid = push_bit 2 1"

definition decode_signature :: "u8 list \<Rightarrow> decoded option" where
  "decode_signature payload =
     (let data = map (\<lambda>k. le_load (take 4 (drop (4 * k) payload)) :: u32) [0..<4];
          scramble_key = ucast (NOT (data ! 0 AND 0xff)) :: u8;
          mask = get_scramble_mask (scramble_key XOR 0xff);
          s0 = ntohl (data ! 0) XOR mask ! 0;
          s1 = ntohl (data ! 1) XOR mask ! 1;
          s2 = ntohl (data ! 2) XOR mask ! 2;
          s3 = ntohl (data ! 3) XOR mask ! 3;
          byte10 = ucast (drop_bit 8 s2 AND 0xff) :: u8;
          edm1 = ucast (NOT (drop_bit 8 s1) AND 0xffff) :: u16;
          edm2 = ucast ((push_bit 8 s1 OR drop_bit 24 s2) AND 0xffff) :: u16 in
        if scramble_key \<noteq> byte10 then None
        else if edm1 \<noteq> edm2 then None
        else Some \<lparr>stream_id = push_bit 8 s0 OR drop_bit 24 s1,
                   sequence_number = push_bit 24 s1 OR drop_bit 8 s2,
                   timestamp_lo = push_bit 24 s2 OR drop_bit 8 s3,
                   timestamp_hi = drop_bit 2 s3 AND 0x3f,
                   flag = is_valid OR (s3 AND 0x3)\<rparr>)"

record decode_out =
  stream_ids :: "u32 list"
  sequence_numbers :: "u32 list"
  timestamps_hi :: "u32 list"
  timestamps_lo :: "u32 list"
  flags :: "u32 list"

definition decode_write :: "nat \<Rightarrow> decoded option \<Rightarrow> decode_out \<Rightarrow> decode_out" where
  "decode_write i d out =
     (case d of
        None \<Rightarrow> out\<lparr>flags := (flags out)[i := 0]\<rparr>
      | Some s \<Rightarrow> out\<lparr>stream_ids := (stream_ids out)[i := stream_id s],
                     sequence_numbers := (sequence_numbers out)[i := sequence_number s],
                     timestamps_lo := (timestamps_lo out)[i := timestamp_lo s],
                     timestamps_hi := (timestamps_hi out)[i := timestamp_hi s],
                     flags := (flags out)[i := flag s]\<rparr>)"

definition decode_signatures :: "u8 list list \<Rightarrow> nat \<Rightarrow> decode_out \<Rightarrow> decode_out \<times> u16" where
  "decode_signatures payloads count out =
     fold (\<lambda>i (out, nb_sigs).
             let d = decode_signature (payloads ! i) in
               (decode_write i d out, if d = None then nb_sigs else nb_sigs + 1))
       [0..<count] (out, 0)"

subsection \<open>The scramble mask reveals its seed\<close>

lemma scramble_top_byte: "drop_bit 24 (scramble seed 0) = ucast seed"
proof -
  have "drop_bit 24 (scramble seed 0) = take_bit 8 (drop_bit 24
      (push_bit 24 (ucast seed) OR push_bit 16 (ucast seed) OR push_bit 8 (ucast seed) OR ucast seed))"
    by (simp add: scramble_def scramble_masks_def Let_def drop_bit_and and_ff)
  also have "\<dots> = ucast seed"
    by (rule bit_word_eqI) (auto simp: bit_simps dest: bit_imp_le_length)
  finally show ?thesis .
qed

lemma mask_ffff00: "(0xffff00 :: u32) = push_bit 8 (mask 16)"
  and mask_fc: "(0xfc :: u32) = push_bit 2 (mask 6)"
  and mask_3f: "(0x3f :: u32) = mask 6"
  and mask_3: "(0x3 :: u32) = mask 2"
  and mask_ffff: "(0xffff :: u32) = mask 16"
  by (simp_all add: mask_eq_exp_minus_1)

lemmas sig_masks = mask_ffff00 mask_fc mask_3f mask_3 mask_ffff and_ff

lemma reassemble:
  assumes "encode_data sid sq hi lo fl = [d0, d1, d2, d3]"
  shows "push_bit 8 d0 OR drop_bit 24 d1 = sid"
    and "push_bit 24 d1 OR drop_bit 8 d2 = sq"
    and "push_bit 24 d2 OR drop_bit 8 d3 = lo"
    and "drop_bit 2 d3 AND 0x3f = hi AND 0x3f"
    and "d3 AND 0x3 = fl AND 0x3"
    and "(ucast (drop_bit 8 d2 AND 0xff) :: u8) = ucast sq"
    and "(ucast (NOT (drop_bit 8 d1) AND 0xffff) :: u16) =
      ucast ((push_bit 8 d1 OR drop_bit 24 d2) AND 0xffff)"
  using assms unfolding encode_data_def sig_masks
  by (auto intro!: bit_word_eqI simp: bit_simps dest: bit_imp_le_length)

text \<open>The 16 signature bytes are the four scrambled words in network byte order.\<close>

definition wire :: "u32 list \<Rightarrow> u8 list" where
  "wire ws = concat (map (be_store 4) ws)"

lemma length_be_store_map [simp]: "length (wire ws) = 4 * length ws"
  by (induction ws) (simp_all add: wire_def)

lemma encode_signature_wire:
  "encode_signature sid sq hi lo fl dst =
     wire (map2 (XOR) (encode_data sid sq hi lo fl) (get_scramble_mask (ucast sq XOR 0xff)))
     @ drop 16 dst"
proof -
  have n: "le_store 4 (htonl w) = be_store 4 w" for w :: u32
    using le_store_net_swap [of w] by simp
  have k: "(ucast (sq AND 0xff) :: u8) = ucast sq"
    by (rule bit_word_eqI) (simp add: and_ff bit_simps)
  show ?thesis
    unfolding encode_signature_def k
    by (simp add: n wire_def encode_data_def get_scramble_mask_def Let_def)
qed

definition decode_words :: "u32 list \<Rightarrow> decoded option" where
  "decode_words ws =
     (let key = NOT (ucast (drop_bit 24 (ws ! 0))) :: u8;
          s = map2 (XOR) ws (get_scramble_mask (key XOR 0xff)) in
        if key \<noteq> ucast (drop_bit 8 (s ! 2)) then None
        else if (ucast (NOT (drop_bit 8 (s ! 1)) AND 0xffff) :: u16) \<noteq>
          ucast ((push_bit 8 (s ! 1) OR drop_bit 24 (s ! 2)) AND 0xffff) then None
        else Some \<lparr>stream_id = push_bit 8 (s ! 0) OR drop_bit 24 (s ! 1),
                   sequence_number = push_bit 24 (s ! 1) OR drop_bit 8 (s ! 2),
                   timestamp_lo = push_bit 24 (s ! 2) OR drop_bit 8 (s ! 3),
                   timestamp_hi = drop_bit 2 (s ! 3) AND 0x3f,
                   flag = is_valid OR (s ! 3 AND 0x3)\<rparr>)"

lemma decode_signature_wire: "decode_signature (wire [w0, w1, w2, w3] @ rest) = decode_words [w0, w1, w2, w3]"
proof -
  have l: "ntohl (le_load (be_store 4 w)) = w" for w :: u32
    using net_swap_le_load [of "be_store 4 w", where 'a = 32] be_load_be_store [of w] by simp
  have k: "(ucast (NOT (le_load (be_store 4 w) AND 0xff :: u32)) :: u8) = NOT (ucast (drop_bit 24 w))"
    for w :: u32
    by (rule bit_word_eqI) (simp add: and_ff bit_simps bit_le_load)
  have b: "(ucast (drop_bit 8 x AND 0xff) :: u8) = ucast (drop_bit 8 x)" for x :: u32
    by (rule bit_word_eqI) (simp add: and_ff bit_simps)
  have dr: "[0..<4] = [0, Suc 0, 2, 3]" by (simp add: upt_rec)
  show ?thesis
    unfolding decode_signature_def decode_words_def wire_def
    by (simp add: dr l k b get_scramble_mask_def Let_def del: bit.de_Morgan_conj)
qed

definition seal :: "u32 \<Rightarrow> u32 list \<Rightarrow> u32 list" where
  "seal sq ws = map2 (XOR) ws (get_scramble_mask (ucast sq XOR 0xff))"

lemma seal_seal: "length ws = 4 \<Longrightarrow> seal sq (seal sq ws) = ws"
  by (auto simp: seal_def get_scramble_mask_def numeral_eq_Suc length_Suc_conv xor.assoc)

lemma seal_key:
  assumes "drop_bit 24 d0 = 0"
  shows "NOT (ucast (drop_bit 24 (seal sq (d0 # ds) ! 0))) = (ucast sq :: u8)"
proof -
  have "drop_bit 24 (seal sq (d0 # ds) ! 0) = ucast (ucast sq XOR 0xff :: u8)"
    using assms by (simp add: seal_def get_scramble_mask_def scramble_top_byte)
  moreover have "ucast (ucast (ucast sq XOR 0xff :: u8) :: u32) = (ucast sq XOR 0xff :: u8)"
    by (rule bit_word_eqI) (simp add: bit_simps)
  moreover have "(0xff :: u8) = - 1" by simp
  ultimately show ?thesis by (metis bit.double_compl bit.xor_one_right)
qed

lemma decode_words_seal:
  assumes "drop_bit 24 d0 = 0"
  shows "decode_words (seal sq [d0, d1, d2, d3]) =
     (if ucast sq \<noteq> (ucast (drop_bit 8 d2) :: u8) then None
      else if (ucast (NOT (drop_bit 8 d1) AND 0xffff) :: u16) \<noteq>
        ucast ((push_bit 8 d1 OR drop_bit 24 d2) AND 0xffff) then None
      else Some \<lparr>stream_id = push_bit 8 d0 OR drop_bit 24 d1,
                 sequence_number = push_bit 24 d1 OR drop_bit 8 d2,
                 timestamp_lo = push_bit 24 d2 OR drop_bit 8 d3,
                 timestamp_hi = drop_bit 2 d3 AND 0x3f,
                 flag = is_valid OR (d3 AND 0x3)\<rparr>)"
proof -
  have m: "map2 (XOR) (seal sq [d0, d1, d2, d3]) (get_scramble_mask (ucast sq XOR 0xff)) = [d0, d1, d2, d3]"
    using seal_seal [of "[d0, d1, d2, d3]" sq] by (simp add: seal_def)
  show ?thesis
    unfolding decode_words_def Let_def seal_key [OF assms] m by simp
qed

lemma decode_words_encode:
  "decode_words (seal sq (encode_data sid sq hi lo fl)) =
     Some \<lparr>stream_id = sid, sequence_number = sq, timestamp_lo = lo, timestamp_hi = hi AND 0x3f,
           flag = is_valid OR (fl AND 0x3)\<rparr>"
proof -
  obtain d0 d1 d2 d3 where d: "encode_data sid sq hi lo fl = [d0, d1, d2, d3]"
    by (simp add: encode_data_def)
  have "d0 = drop_bit 8 sid" using d by (simp add: encode_data_def)
  then have "drop_bit 24 d0 = 0" by (simp add: drop_bit_drop_bit drop_bit_word_beyond)
  moreover have "(ucast (drop_bit 8 d2) :: u8) = ucast (drop_bit 8 d2 AND 0xff)"
    by (rule bit_word_eqI) (simp add: and_ff bit_simps)
  ultimately show ?thesis
    unfolding d using reassemble [OF d] by (simp add: decode_words_seal del: bit.de_Morgan_conj)
qed

lemma encode_data_decoded:
  assumes z: "drop_bit 24 d0 = 0"
    and edm: "(ucast (NOT (drop_bit 8 d1) AND 0xffff) :: u16) =
      ucast ((push_bit 8 d1 OR drop_bit 24 d2) AND 0xffff)"
  shows "encode_data (push_bit 8 d0 OR drop_bit 24 d1) (push_bit 24 d1 OR drop_bit 8 d2)
      (drop_bit 2 d3 AND 0x3f) (push_bit 24 d2 OR drop_bit 8 d3) (is_valid OR (d3 AND 0x3)) =
    [d0, d1, d2, d3]"
proof -
  have z': "bit d0 i \<Longrightarrow> i < 24" for i
    using arg_cong [OF z, of "\<lambda>w. bit w (i - 24)"]
    by (cases "i < 24") (simp_all add: bit_simps)
  have edm': "bit d1 (8 + j) \<longleftrightarrow> \<not> (8 \<le> j \<and> bit d1 (j - 8) \<or> bit d2 (24 + j))" if "j < 16" for j
    using arg_cong [OF edm, of "\<lambda>w. bit w j"] that unfolding mask_ffff
    by (auto simp: bit_simps dest: bit_imp_le_length)
  have mid: "bit d1 i \<longleftrightarrow> \<not> (16 \<le> i \<and> bit d1 (i - 16) \<or> bit d2 (i + 16))" if "8 \<le> i" "i < 24" for i
    using edm' [of "i - 8"] that by (auto simp: ac_simps le_diff_conv2)
  let ?sid = "push_bit 8 d0 OR drop_bit 24 d1" and ?sq = "push_bit 24 d1 OR drop_bit 8 d2"
  have "drop_bit 8 ?sid = d0"
    by (rule bit_word_eqI) (auto simp: bit_simps dest: bit_imp_le_length z')
  moreover have "push_bit 24 ?sid OR ((drop_bit 8 ?sq AND 0xffff00) XOR 0xffff00)
      OR drop_bit 24 ?sq = d1" (is "?w = _")
  proof (rule bit_word_eqI)
    fix i
    assume "i < LENGTH(32)"
    then consider "i < 8" | "8 \<le> i" "i < 24" | "24 \<le> i" "i < 32" by fastforce
    then show "bit ?w i = bit d1 i"
    proof cases
      case 2
      then show ?thesis
        unfolding mid [OF 2] mask_ffff00 by (auto simp: bit_simps ac_simps dest: bit_imp_le_length)
    qed (auto simp: mask_ffff00 bit_simps dest: bit_imp_le_length)
  qed
  moreover have "push_bit 8 ?sq OR drop_bit 24 (push_bit 24 d2 OR drop_bit 8 d3) = d2"
    by (auto intro!: bit_word_eqI simp: bit_simps dest: bit_imp_le_length)
  moreover have "push_bit 8 (push_bit 24 d2 OR drop_bit 8 d3)
      OR (push_bit 2 (drop_bit 2 d3 AND 0x3f) AND 0xfc) OR (d3 AND 0x3) = d3"
    (is "?w = _")
  proof (rule bit_word_eqI)
    fix i
    assume "i < LENGTH(32)"
    then consider "i < 2" | "2 \<le> i" "i < 8" | "8 \<le> i" "i < 32" by fastforce
    then show "bit ?w i = bit d3 i"
    proof cases
      case 2
      then obtain k where "i = k + 2" "k < 6" by (intro that [of "i - 2"]) auto
      then show ?thesis unfolding sig_masks by (simp add: bit_simps)
    next
      case 3
      then obtain k where "i = k + 8" by (metis add.commute le_Suc_ex)
      with 3 show ?thesis unfolding sig_masks by (simp add: bit_simps ac_simps)
    qed (simp add: sig_masks bit_simps)
  qed
  moreover have "(is_valid OR (d3 AND 0x3)) AND 0x3 = d3 AND 0x3"
    by (simp add: bit.conj_disj_distrib2 is_valid_def and.assoc)
  ultimately show ?thesis by (simp add: encode_data_def)
qed

lemma decode_words_Some:
  assumes "decode_words [w0, w1, w2, w3] = Some s"
  shows "seal (sequence_number s)
      (encode_data (stream_id s) (sequence_number s) (timestamp_hi s) (timestamp_lo s) (flag s)) =
    [w0, w1, w2, w3]"
proof -
  define sq where "sq = (ucast (NOT (ucast (drop_bit 24 w0) :: u8)) :: u32)"
  obtain d0 d1 d2 d3 where d: "seal sq [w0, w1, w2, w3] = [d0, d1, d2, d3]"
    by (simp add: seal_def get_scramble_mask_def)
  have w: "seal sq [d0, d1, d2, d3] = [w0, w1, w2, w3]"
    using seal_seal [of "[w0, w1, w2, w3]" sq] d by simp
  have ff: "(0xff :: u8) = - 1" by simp
  have sq: "(ucast sq XOR 0xff :: u8) = ucast (drop_bit 24 w0)"
    unfolding sq_def ff by (rule bit_word_eqI) (simp add: bit_simps)
  have z: "drop_bit 24 d0 = 0"
  proof -
    have "d0 = w0 XOR scramble (ucast (drop_bit 24 w0)) 0"
      using d by (simp add: seal_def get_scramble_mask_def sq)
    moreover have "ucast (ucast (drop_bit 24 w0) :: u8) = drop_bit 24 w0"
      by (rule bit_word_eqI) (auto simp: bit_simps dest: bit_imp_le_length)
    ultimately show ?thesis by (simp add: scramble_top_byte)
  qed
  note dw = decode_words_seal [OF z, of sq d1 d2 d3, unfolded w]
  from assms have key: "ucast sq = (ucast (drop_bit 8 d2) :: u8)"
    and edm: "(ucast (NOT (drop_bit 8 d1) AND 0xffff) :: u16) =
      ucast ((push_bit 8 d1 OR drop_bit 24 d2) AND 0xffff)"
    unfolding dw by (auto split: if_splits simp del: bit.de_Morgan_conj)
  from assms have s: "s = \<lparr>stream_id = push_bit 8 d0 OR drop_bit 24 d1,
                 sequence_number = push_bit 24 d1 OR drop_bit 8 d2,
                 timestamp_lo = push_bit 24 d2 OR drop_bit 8 d3,
                 timestamp_hi = drop_bit 2 d3 AND 0x3f,
                 flag = is_valid OR (d3 AND 0x3)\<rparr>"
    unfolding dw by (auto split: if_splits simp del: bit.de_Morgan_conj)
  have "(ucast (sequence_number s) :: u8) = ucast sq"
    unfolding key s by (rule bit_word_eqI) (simp add: bit_simps)
  then have "seal (sequence_number s) ws = seal sq ws" for ws by (simp add: seal_def)
  then show ?thesis
    using encode_data_decoded [OF z edm, of d3] w by (simp add: s)
qed

lemma decode_encode_signature:
  "decode_signature (encode_signature sid sq hi lo fl dst) =
     Some \<lparr>stream_id = sid, sequence_number = sq, timestamp_lo = lo, timestamp_hi = hi AND 0x3f,
           flag = is_valid OR (fl AND 0x3)\<rparr>"
proof -
  obtain w0 w1 w2 w3 where w: "seal sq (encode_data sid sq hi lo fl) = [w0, w1, w2, w3]"
    by (simp add: seal_def encode_data_def get_scramble_mask_def)
  then show ?thesis
    using decode_words_encode [of sq sid hi lo fl]
    by (simp add: encode_signature_wire flip: seal_def add: decode_signature_wire)
qed

lemma length_encode_signature [simp]:
  "length (encode_signature sid sq hi lo fl dst) = 16 + (length dst - 16)"
  by (simp add: encode_signature_wire encode_data_def get_scramble_mask_def)

lemma drop_encode_signature: "drop 16 (encode_signature sid sq hi lo fl dst) = drop 16 dst"
  by (simp add: encode_signature_wire encode_data_def get_scramble_mask_def)

lemma wire_of_bytes:
  assumes "16 \<le> length payload"
  obtains w0 w1 w2 w3 where "take 16 payload = wire [w0, w1, w2, w3]"
proof -
  let ?w = "\<lambda>k. be_load (take 4 (drop (4 * k) payload)) :: u32"
  have b: "be_store 4 (?w k) = take 4 (drop (4 * k) payload)" if "k < 4" for k
    using be_store_be_load [of "take 4 (drop (4 * k) payload)", where 'a = 32] assms that by simp
  have "take 16 payload = take 4 payload @ take 4 (drop 4 payload) @ take 4 (drop 8 payload)
      @ take 4 (drop 12 payload)"
    using take_add [of 4 12 payload] take_add [of 4 8 "drop 4 payload"]
      take_add [of 4 4 "drop 8 payload"] by simp
  also have "\<dots> = wire [?w 0, ?w 1, ?w 2, ?w 3]"
    using b [of 0] b [of 1] b [of 2] b [of 3] by (simp add: wire_def)
  finally show ?thesis using that by blast
qed

text \<open>
  C2: The decoder accepts only what the encoder produces: when the first sixteen bytes of a
  payload decode as a valid signature, encoding the decoded fields again rebuilds exactly those
  bytes and leaves the rest of the payload as it is.
\<close>

theorem encode_decode_signature:
  assumes "16 \<le> length payload" and "decode_signature payload = Some s"
  shows "encode_signature (stream_id s) (sequence_number s) (timestamp_hi s) (timestamp_lo s) (flag s)
    payload = payload"
proof -
  obtain w0 w1 w2 w3 where w: "take 16 payload = wire [w0, w1, w2, w3]"
    using wire_of_bytes [OF assms(1)] .
  then have p: "wire [w0, w1, w2, w3] @ drop 16 payload = payload"
    by (metis append_take_drop_id)
  have "decode_words [w0, w1, w2, w3] = Some s"
    using assms(2) decode_signature_wire [of w0 w1 w2 w3 "drop 16 payload"] by (simp only: p)
  then show ?thesis
    using decode_words_Some p by (simp add: encode_signature_wire flip: seal_def)
qed

theorem encode_decode_signature_witness:
  "encode_signature 0x01020304 7 0x3f 0xdeadbeef 5 (encode_signature 0x01020304 7 0x3f 0xdeadbeef 1 (replicate 20 0))
    = encode_signature 0x01020304 7 0x3f 0xdeadbeef 1 (replicate 20 0)"
  using encode_decode_signature
    [of "encode_signature 0x01020304 7 0x3f 0xdeadbeef 1 (replicate 20 0)"
      "\<lparr>stream_id = 0x01020304, sequence_number = 7, timestamp_lo = 0xdeadbeef, timestamp_hi = 0x3f, flag = 5\<rparr>"]
  by (simp add: decode_encode_signature is_valid_def)

subsection \<open>The batch loops\<close>

lemma length_encode_signatures [simp]:
  "length (encode_signatures ds sids sqs his los fls n) = length ds"
  using length_fold_update [where f = "\<lambda>i. encode_signature (sids ! i) (sqs ! i) (his ! i) (los ! i) (fls ! i)"]
  by (simp add: encode_signatures_def)

lemma nth_encode_signatures:
  assumes "i < length ds"
  shows "encode_signatures ds sids sqs his los fls n ! i =
    (if i < n then encode_signature (sids ! i) (sqs ! i) (his ! i) (los ! i) (fls ! i) (ds ! i) else ds ! i)"
  using nth_fold_update [OF assms, where f = "\<lambda>i. encode_signature (sids ! i) (sqs ! i) (his ! i) (los ! i) (fls ! i)"]
  by (simp add: encode_signatures_def)

text \<open>What a batch of decodes leaves in entry \<open>i\<close> of the output arrays.\<close>

definition out_lengths :: "nat \<Rightarrow> 'a decode_out_scheme \<Rightarrow> bool" where
  "out_lengths n out \<longleftrightarrow> n \<le> length (stream_ids out) \<and> n \<le> length (sequence_numbers out)
     \<and> n \<le> length (timestamps_hi out) \<and> n \<le> length (timestamps_lo out) \<and> n \<le> length (flags out)"

definition entry_is :: "decoded option \<Rightarrow> 'a decode_out_scheme \<Rightarrow> nat \<Rightarrow> bool" where
  "entry_is d out i =
     (case d of
        None \<Rightarrow> flags out ! i = 0
      | Some s \<Rightarrow> stream_ids out ! i = stream_id s \<and> sequence_numbers out ! i = sequence_number s
          \<and> timestamps_lo out ! i = timestamp_lo s \<and> timestamps_hi out ! i = timestamp_hi s
          \<and> flags out ! i = flag s)"

definition nb_valid :: "u8 list list \<Rightarrow> nat" where
  "nb_valid payloads = length (filter (\<lambda>p. decode_signature p \<noteq> None) payloads)"

definition same_lengths :: "'a decode_out_scheme \<Rightarrow> 'b decode_out_scheme \<Rightarrow> bool" where
  "same_lengths out out' \<longleftrightarrow> length (stream_ids out) = length (stream_ids out')
     \<and> length (sequence_numbers out) = length (sequence_numbers out')
     \<and> length (timestamps_hi out) = length (timestamps_hi out')
     \<and> length (timestamps_lo out) = length (timestamps_lo out')
     \<and> length (flags out) = length (flags out')"

lemma decode_write_entry:
  assumes "out_lengths (Suc n) out"
  shows "out_lengths (Suc n) (decode_write n d out)" and "entry_is d (decode_write n d out) n"
    and "i < n \<Longrightarrow> entry_is d' (decode_write n d out) i = entry_is d' out i"
    and "same_lengths (decode_write n d out) out"
  using assms
  by (auto simp: out_lengths_def entry_is_def decode_write_def same_lengths_def split: option.splits)

lemma decode_signatures_entries:
  assumes "count \<le> length payloads" "out_lengths count out"
  shows "same_lengths (fst (decode_signatures payloads count out)) out"
    and "i < count \<Longrightarrow> entry_is (decode_signature (payloads ! i)) (fst (decode_signatures payloads count out)) i"
    and "snd (decode_signatures payloads count out) = of_nat (nb_valid (take count payloads))"
proof -
  let ?P = "\<lambda>k (out' :: decode_out, m :: u16). same_lengths out' out \<and> m = of_nat (nb_valid (take k payloads))
      \<and> (\<forall>i<k. entry_is (decode_signature (payloads ! i)) out' i)"
  have "?P count (decode_signatures payloads count out)"
    unfolding decode_signatures_def
  proof (rule fold_upt_invariant)
    show "?P 0 (out, 0)" by (simp add: same_lengths_def nb_valid_def)
  next
    fix k and s :: "decode_out \<times> u16"
    assume k: "k < count" and inv: "?P k s"
    obtain o1 m where s: "s = (o1, m)" by fastforce
    have ol: "out_lengths (Suc k) o1"
      using assms(2) k inv by (auto simp: s out_lengths_def same_lengths_def)
    have "nb_valid (take (Suc k) payloads) =
        nb_valid (take k payloads) + (if decode_signature (payloads ! k) = None then 0 else 1)"
      using assms(1) k by (simp add: nb_valid_def take_Suc_conv_app_nth)
    with inv decode_write_entry [OF ol, where d = "decode_signature (payloads ! k)"]
    show "?P (Suc k) (case s of (out, nb_sigs) \<Rightarrow> let d = decode_signature (payloads ! k) in
        (decode_write k d out, if d = None then nb_sigs else nb_sigs + 1))"
      by (auto simp: s Let_def less_Suc_eq same_lengths_def)
  qed
  then show "same_lengths (fst (decode_signatures payloads count out)) out"
    "i < count \<Longrightarrow> entry_is (decode_signature (payloads ! i)) (fst (decode_signatures payloads count out)) i"
    "snd (decode_signatures payloads count out) = of_nat (nb_valid (take count payloads))"
    by (auto split: prod.splits)
qed

end
