(* ===== verification/Pga_Signature_Driver.thy ===== *)
theory Pga_Signature_Driver
  imports Pga_Signature Pga_Crc
begin

text \<open>
  The entry points of \<^verbatim>\<open>src/lib/spirent_pga/common/signature.cpp\<close>: the CRC filter, and the
  batching drivers \<open>decode\<close> and \<open>encode\<close> that cut the packets into groups of 32, hand each group to
  the routine of the function table, and convert the timestamps.

  The routine of the table is an argument of the drivers. What the drivers rely on is the locale
  \<open>signature_codec\<close>, and the scalar routines of \<^verbatim>\<open>Pga_Signature\<close> interpret it. The local arrays
  \<open>timestamps_hi\<close> and \<open>timestamps_lo\<close> start with whatever the stack holds, so their initial contents
  are part of the initial state. The \<open>uint16_t\<close> loop variable \<open>begin\<close> is a natural number: it never
  passes \<open>count\<close>, which is a 16-bit value.
\<close>

unbundle bit_operations_syntax

subsection \<open>CRC filter\<close>

datatype 'a access = Prefetch 'a | Transform 'a

type_synonym ('a, 'b, 's) ptr_state = "'a access list \<times> 'b list \<times> 's"

definition ptr_process ::
  "('a \<Rightarrow> 'b) \<Rightarrow> ('s \<Rightarrow> 'b \<Rightarrow> 's) \<Rightarrow> 'a \<Rightarrow> ('a, 'b, 's) ptr_state \<Rightarrow> ('a, 'b, 's) ptr_state" where
  "ptr_process xform reduce x =
     (\<lambda>(trace, out, acc). let y = xform x in (trace @ [Transform x], out @ [y], reduce acc y))"

definition ptr_prefetch :: "'a \<Rightarrow> ('a, 'b, 's) ptr_state \<Rightarrow> ('a, 'b, 's) ptr_state" where
  "ptr_prefetch x = (\<lambda>(trace, out, acc). (trace @ [Prefetch x], out, acc))"

definition prefetch_transform_reduce ::
  "('a \<Rightarrow> 'b) \<Rightarrow> ('s \<Rightarrow> 'b \<Rightarrow> 's) \<Rightarrow> nat \<Rightarrow> 'a list \<Rightarrow> 's \<Rightarrow> ('a, 'b, 's) ptr_state" where
  "prefetch_transform_reduce xform reduce prefetch_offset xs acc =
     (let n = length xs;
          stop = min n prefetch_offset;
          s = fold (\<lambda>p. ptr_prefetch (xs ! p)) [0..<stop] ([], [], acc);
          s = fold (\<lambda>p. ptr_process xform reduce (xs ! (p - stop)) \<circ> ptr_prefetch (xs ! p)) [stop..<n] s in
        fold (\<lambda>c. ptr_process xform reduce (xs ! c)) [n - stop..<n] s)"

definition crc_matches_payload :: "u8 list \<Rightarrow> bool" where
  "crc_matches_payload payload \<longleftrightarrow>
     ntohs (le_load (take 2 (drop 16 payload))) = calculate_signature_crc16 (take 16 payload)"

definition crc_filter :: "u8 list list \<Rightarrow> nat \<Rightarrow> u32 list \<Rightarrow> u32 list \<times> u16" where
  "crc_filter payloads count crc_matches =
     (let (trace, out, acc) = prefetch_transform_reduce
            (\<lambda>payload. if crc_matches_payload payload then 1 else 0 :: u32)
            (\<lambda>acc y. acc + ucast y) 8 (take count payloads) 0 in
        (write_at 0 out crc_matches, acc))"

subsection \<open>Decode\<close>

type_synonym decode_fn = "u8 list list \<Rightarrow> nat \<Rightarrow> decode_out \<Rightarrow> decode_out \<times> u16"

record decode_state = decode_out +
  timestamps :: "u64 list"
  nb_signatures :: u16

definition merge_timestamp :: "u32 \<Rightarrow> u32 \<Rightarrow> u64" where
  "merge_timestamp hi lo = (push_bit 32 (ucast hi) OR ucast lo) AND 0x3fffffffff"

definition decode_batch :: "decode_fn \<Rightarrow> u8 list list \<Rightarrow> nat \<Rightarrow> nat \<Rightarrow> decode_state \<Rightarrow> decode_state" where
  "decode_batch impl payloads beg loop_count st =
     (let (out, loop_signatures) = impl (drop beg payloads) loop_count
            \<lparr>stream_ids = drop beg (stream_ids st), sequence_numbers = drop beg (sequence_numbers st),
             timestamps_hi = timestamps_hi st, timestamps_lo = timestamps_lo st,
             flags = drop beg (flags st)\<rparr>;
          merged = map2 merge_timestamp (take loop_count (timestamps_hi out))
                     (take loop_count (timestamps_lo out)) in
        \<lparr>stream_ids = take beg (stream_ids st) @ stream_ids out,
         sequence_numbers = take beg (sequence_numbers st) @ sequence_numbers out,
         timestamps_hi = timestamps_hi out, timestamps_lo = timestamps_lo out,
         flags = take beg (flags st) @ flags out,
         timestamps = write_at (unat (nb_signatures st)) merged (timestamps st),
         nb_signatures = nb_signatures st + loop_signatures\<rparr>)"

function decode_loop :: "decode_fn \<Rightarrow> u8 list list \<Rightarrow> nat \<Rightarrow> nat \<Rightarrow> decode_state \<Rightarrow> decode_state" where
  "decode_loop impl payloads count beg st =
     (if beg < count
      then let en = beg + min 32 (count - beg) in
             decode_loop impl payloads count en (decode_batch impl payloads beg (en - beg) st)
      else st)"
  by pat_completeness auto
termination
  by (relation "measure (\<lambda>(impl, payloads, count, beg, st). count - beg)") auto

definition decode :: "decode_fn \<Rightarrow> u8 list list \<Rightarrow> nat \<Rightarrow> decode_state \<Rightarrow> decode_state" where
  "decode impl payloads count st = decode_loop impl payloads count 0 (st\<lparr>nb_signatures := 0\<rparr>)"

subsection \<open>Encode\<close>

type_synonym encode_fn =
  "u8 list list \<Rightarrow> u32 list \<Rightarrow> u32 list \<Rightarrow> u32 list \<Rightarrow> u32 list \<Rightarrow> u32 list \<Rightarrow> nat \<Rightarrow> u8 list list"

definition transform_pair :: "('a \<Rightarrow> 'b \<times> 'c) \<Rightarrow> 'a list \<Rightarrow> 'b list \<times> 'c list" where
  "transform_pair xform items =
     fold (\<lambda>item (cursor1, cursor2).
             let pair = xform item in (cursor1 @ [fst pair], cursor2 @ [snd pair])) items ([], [])"

definition split_timestamp :: "u64 \<Rightarrow> u32 \<times> u32" where
  "split_timestamp ts = (ucast (drop_bit 32 ts), ucast (ts AND 0xffffffff))"

function encode_loop ::
  "encode_fn \<Rightarrow> u32 list \<Rightarrow> u32 list \<Rightarrow> u64 list \<Rightarrow> u32 list \<Rightarrow> nat \<Rightarrow> nat
   \<Rightarrow> u32 list \<Rightarrow> u32 list \<Rightarrow> u8 list list \<Rightarrow> u8 list list" where
  "encode_loop impl sids sqs tss fls count beg ts_hi ts_lo destinations =
     (if beg < count
      then let en = beg + min 32 (count - beg);
               (his, los) = transform_pair split_timestamp (take (en - beg) (drop beg tss));
               ts_hi = write_at 0 his ts_hi;
               ts_lo = write_at 0 los ts_lo;
               destinations = take beg destinations
                 @ impl (drop beg destinations) (drop beg sids) (drop beg sqs) ts_hi ts_lo
                     (drop beg fls) (en - beg) in
             encode_loop impl sids sqs tss fls count en ts_hi ts_lo destinations
      else destinations)"
  by pat_completeness auto
termination
  by (relation "measure (\<lambda>(impl, sids, sqs, tss, fls, count, beg, ts_hi, ts_lo, destinations). count - beg)")
    auto

definition write_crc :: "u8 list \<Rightarrow> u8 list" where
  "write_crc destination =
     take 16 destination @ le_store 2 (htons (calculate_signature_crc16 (take 16 destination)))
     @ le_store 2 (0 :: u16) @ drop 20 destination"

definition encode ::
  "encode_fn \<Rightarrow> u32 list \<Rightarrow> u32 list \<Rightarrow> u8 list list \<Rightarrow> u32 list \<Rightarrow> u32 list \<Rightarrow> u64 list \<Rightarrow> u32 list
   \<Rightarrow> nat \<Rightarrow> u8 list list" where
  "encode impl ts_hi ts_lo destinations sids sqs tss fls count =
     (let ds = encode_loop impl sids sqs tss fls count 0 ts_hi ts_lo destinations in
        map write_crc (take count ds) @ drop count ds)"

declare decode_loop.simps [simp del] encode_loop.simps [simp del]

subsection \<open>The prefetching loop\<close>

definition ptr_done :: "('a \<Rightarrow> 'b) \<Rightarrow> ('s \<Rightarrow> 'b \<Rightarrow> 's) \<Rightarrow> 's \<Rightarrow> 'a list \<Rightarrow> ('a, 'b, 's) ptr_state \<Rightarrow> bool" where
  "ptr_done xform reduce acc xs s \<longleftrightarrow>
     fst (snd s) = map xform xs \<and> snd (snd s) = foldl reduce acc (map xform xs)"

lemma ptr_done_process:
  "ptr_done xform reduce acc xs s \<Longrightarrow> ptr_done xform reduce acc (xs @ [x]) (ptr_process xform reduce x s)"
  by (cases s) (simp add: ptr_done_def ptr_process_def Let_def)

lemma ptr_done_prefetch [simp]: "ptr_done xform reduce acc xs (ptr_prefetch x s) = ptr_done xform reduce acc xs s"
  by (cases s) (simp add: ptr_done_def ptr_prefetch_def)

lemma ptr_done_fold_prefetch [simp]:
  "ptr_done xform reduce acc xs (fold (\<lambda>p. ptr_prefetch (ys ! p)) ps s) = ptr_done xform reduce acc xs s"
  by (induction ps arbitrary: s) simp_all

lemma ptr_done_take:
  "i < length xs \<Longrightarrow> ptr_done xform reduce acc (take i xs) s \<Longrightarrow>
    ptr_done xform reduce acc (take (Suc i) xs) (ptr_process xform reduce (xs ! i) s)"
  by (simp add: take_Suc_conv_app_nth ptr_done_process)

lemma prefetch_transform_reduce_done:
  fixes xform :: "'a \<Rightarrow> 'b" and acc :: 's
  shows "ptr_done xform reduce acc xs (prefetch_transform_reduce xform reduce k xs acc)"
proof -
  let ?n = "length xs" and ?D = "\<lambda>c. ptr_done xform reduce acc (take c xs)"
  define stop where "stop = min ?n k"
  define s0 :: "('a, 'b, 's) ptr_state" where "s0 = fold (\<lambda>p. ptr_prefetch (xs ! p)) [0..<stop] ([], [], acc)"
  define s1 where "s1 = fold (\<lambda>p. ptr_process xform reduce (xs ! (p - stop)) \<circ> ptr_prefetch (xs ! p)) [stop..<?n] s0"
  have "?D (stop - stop) ([], [], acc)" by (simp add: ptr_done_def)
  then have "?D (stop - stop) s0" by (simp add: s0_def)
  then have "?D (?n - stop) s1"
    unfolding s1_def
    by (rule fold_upt_from_invariant [where P = "\<lambda>i. ?D (i - stop)", rotated])
      (simp_all add: stop_def Suc_diff_le ptr_done_take)
  then have "?D ?n (fold (\<lambda>c. ptr_process xform reduce (xs ! c)) [?n - stop..<?n] s1)"
    by (rule fold_upt_from_invariant [where P = ?D, rotated]) (simp_all add: ptr_done_take)
  then show ?thesis
    by (simp add: prefetch_transform_reduce_def Let_def s1_def s0_def stop_def)
qed

lemma crc_filter_eq:
  "crc_filter payloads count ms =
     (write_at 0 (map (\<lambda>p. if crc_matches_payload p then 1 else 0) (take count payloads)) ms,
      of_nat (length (filter crc_matches_payload (take count payloads))))"
proof -
  let ?f = "\<lambda>p. if crc_matches_payload p then 1 else 0 :: u32"
  have "foldl (\<lambda>acc y. acc + ucast y) a (map ?f ps) = a + of_nat (length (filter crc_matches_payload ps))"
    for ps and a :: u16
    by (induction ps arbitrary: a) auto
  then show ?thesis
    using prefetch_transform_reduce_done [of ?f "\<lambda>acc y. acc + ucast y" "0 :: u16" "take count payloads" 8]
    by (simp add: crc_filter_def ptr_done_def case_prod_unfold Let_def)
qed

subsection \<open>What the drivers rely on\<close>

locale signature_codec =
  fixes encode_impl :: encode_fn and decode_impl :: decode_fn
  assumes encode_length: "length (encode_impl ds sids sqs his los fls n) = length ds"
    and encode_nth: "i < length ds \<Longrightarrow> encode_impl ds sids sqs his los fls n ! i =
      (if i < n then encode_signature (sids ! i) (sqs ! i) (his ! i) (los ! i) (fls ! i) (ds ! i)
       else ds ! i)"
    and decode_lengths: "n \<le> length payloads \<Longrightarrow> out_lengths n out \<Longrightarrow>
      same_lengths (fst (decode_impl payloads n out)) out"
    and decode_entries: "n \<le> length payloads \<Longrightarrow> out_lengths n out \<Longrightarrow> i < n \<Longrightarrow>
      entry_is (decode_signature (payloads ! i)) (fst (decode_impl payloads n out)) i"
    and decode_count: "n \<le> length payloads \<Longrightarrow> out_lengths n out \<Longrightarrow>
      snd (decode_impl payloads n out) = of_nat (nb_valid (take n payloads))"

interpretation scalar_codec: signature_codec encode_signatures decode_signatures
  by unfold_locales (simp_all add: nth_encode_signatures decode_signatures_entries)

text \<open>What a driver leaves in entry \<open>i\<close> of the arrays of its caller.\<close>

definition fields_are :: "decoded option \<Rightarrow> decode_state \<Rightarrow> nat \<Rightarrow> bool" where
  "fields_are d st i =
     (case d of
        None \<Rightarrow> flags st ! i = 0
      | Some s \<Rightarrow> stream_ids st ! i = stream_id s \<and> sequence_numbers st ! i = sequence_number s
          \<and> flags st ! i = flag s)"

definition time_is :: "decoded option \<Rightarrow> decode_state \<Rightarrow> nat \<Rightarrow> bool" where
  "time_is d st i =
     (case d of
        None \<Rightarrow> True
      | Some s \<Rightarrow> timestamps st ! i = merge_timestamp (timestamp_hi s) (timestamp_lo s))"

definition arrays_hold :: "nat \<Rightarrow> decode_state \<Rightarrow> bool" where
  "arrays_hold count st \<longleftrightarrow> count \<le> length (stream_ids st) \<and> count \<le> length (sequence_numbers st)
     \<and> count \<le> length (flags st) \<and> count \<le> length (timestamps st)
     \<and> length (timestamps_hi st) = 32 \<and> length (timestamps_lo st) = 32"

definition all_valid :: "nat \<Rightarrow> u8 list list \<Rightarrow> bool" where
  "all_valid n payloads \<longleftrightarrow> (\<forall>i<n. decode_signature (payloads ! i) \<noteq> None)"

definition decode_inv :: "u8 list list \<Rightarrow> nat \<Rightarrow> nat \<Rightarrow> decode_state \<Rightarrow> bool" where
  "decode_inv payloads count beg st \<longleftrightarrow> arrays_hold count st
     \<and> nb_signatures st = of_nat (nb_valid (take beg payloads))
     \<and> (\<forall>i<beg. fields_are (decode_signature (payloads ! i)) st i)
     \<and> (all_valid beg payloads \<longrightarrow> (\<forall>i<beg. time_is (decode_signature (payloads ! i)) st i))"

lemma nb_valid_le: "nb_valid (take n payloads) \<le> n"
  unfolding nb_valid_def by (rule order_trans [OF length_filter_le]) simp

lemma nb_valid_all:
  "all_valid n payloads \<Longrightarrow> n \<le> length payloads \<Longrightarrow> nb_valid (take n payloads) = n"
  by (force simp: nb_valid_def all_valid_def in_set_conv_nth intro: arg_cong [where f = length, OF filter_True, THEN trans])

lemma nb_valid_split:
  "nb_valid (take (m + n) ps) = nb_valid (take m ps) + nb_valid (take n (drop m ps))"
  by (simp add: nb_valid_def take_add)

lemma transform_pair_map: "transform_pair f xs = (map (fst \<circ> f) xs, map (snd \<circ> f) xs)"
proof -
  have "fold (\<lambda>item (cursor1, cursor2). let pair = f item in (cursor1 @ [fst pair], cursor2 @ [snd pair])) xs (as, bs) =
      (as @ map (fst \<circ> f) xs, bs @ map (snd \<circ> f) xs)" for as bs
    by (induction xs arbitrary: as bs) (simp_all add: Let_def)
  then show ?thesis by (simp add: transform_pair_def)
qed

context signature_codec
begin

lemma decode_batch_inv:
  assumes inv: "decode_inv payloads count beg st" and n: "beg + n \<le> count" "n \<le> 32"
    and c: "count \<le> length payloads" "count < 2 ^ 16"
  shows "decode_inv payloads count (beg + n) (decode_batch decode_impl payloads beg n st)"
proof -
  define out where "out = \<lparr>stream_ids = drop beg (stream_ids st),
      sequence_numbers = drop beg (sequence_numbers st), timestamps_hi = timestamps_hi st,
      timestamps_lo = timestamps_lo st, flags = drop beg (flags st)\<rparr>"
  obtain out' m where im: "decode_impl (drop beg payloads) n out = (out', m)" by fastforce
  have pre: "n \<le> length (drop beg payloads)" "out_lengths n out"
    using inv n c by (auto simp: out_def out_lengths_def decode_inv_def arrays_hold_def)
  have len: "same_lengths out' out" and m: "m = of_nat (nb_valid (take n (drop beg payloads)))"
    and ent: "\<And>i. i < n \<Longrightarrow> entry_is (decode_signature (payloads ! (beg + i))) out' i"
    using decode_lengths [OF pre] decode_count [OF pre] decode_entries [OF pre] im n c by auto
  let ?st = "decode_batch decode_impl payloads beg n st"
  have st: "?st = \<lparr>stream_ids = take beg (stream_ids st) @ stream_ids out',
         sequence_numbers = take beg (sequence_numbers st) @ sequence_numbers out',
         timestamps_hi = timestamps_hi out', timestamps_lo = timestamps_lo out',
         flags = take beg (flags st) @ flags out',
         timestamps = write_at (unat (nb_signatures st)) (map2 merge_timestamp (take n (timestamps_hi out'))
                     (take n (timestamps_lo out'))) (timestamps st),
         nb_signatures = nb_signatures st + m\<rparr>"
    using im by (simp add: decode_batch_def out_def)
  have nb: "unat (nb_signatures st) = nb_valid (take beg payloads)"
    using inv nb_valid_le [of beg payloads] n c by (simp add: decode_inv_def unat_of_nat_small)
  have merged: "length (map2 merge_timestamp (take n (timestamps_hi out')) (take n (timestamps_lo out'))) = n"
    using len n inv by (simp add: same_lengths_def out_def decode_inv_def arrays_hold_def)
  have room: "nb_valid (take beg payloads) + n \<le> length (timestamps st)"
    using inv nb_valid_le [of beg payloads] n by (simp add: decode_inv_def arrays_hold_def)
  have ts: "length (timestamps ?st) = length (timestamps st)"
    unfolding st using room by (simp add: nb merged del: length_map)
  have old: "beg + n \<le> length (stream_ids st)" "beg + n \<le> length (sequence_numbers st)" "beg + n \<le> length (flags st)"
    using inv n by (auto simp: decode_inv_def arrays_hold_def)
  show ?thesis
    unfolding decode_inv_def
  proof (intro conjI allI impI)
    show "arrays_hold count ?st"
      using inv len n ts unfolding arrays_hold_def ts
      by (auto simp: st same_lengths_def out_def decode_inv_def arrays_hold_def)
    show "nb_signatures ?st = of_nat (nb_valid (take (beg + n) payloads))"
      using inv by (simp add: st m nb_valid_split decode_inv_def)
    fix i
    assume i: "i < beg + n"
    show "fields_are (decode_signature (payloads ! i)) ?st i"
      using inv old i ent [of "i - beg"]
      by (cases "i < beg") (auto simp: st decode_inv_def fields_are_def entry_is_def nth_append split: option.splits)
    assume "all_valid (beg + n) payloads"
    then have av: "all_valid beg payloads" by (simp add: all_valid_def)
    with nb nb_valid_all [of beg payloads] n c have nb': "unat (nb_signatures st) = beg" by simp
    show "time_is (decode_signature (payloads ! i)) ?st i"
      using inv av i ent [of "i - beg"] room merged nb nb' len n
      by (cases "i < beg") (auto simp: st decode_inv_def arrays_hold_def time_is_def entry_is_def nth_write_at
          same_lengths_def out_def split: option.splits)
  qed
qed

lemma decode_loop_inv:
  assumes "decode_inv payloads count beg st" "beg \<le> count" "count \<le> length payloads" "count < 2 ^ 16"
  shows "decode_inv payloads count count (decode_loop decode_impl payloads count beg st)"
  using assms
proof (induction "count - beg" arbitrary: beg st rule: less_induct)
  case less
  show ?case
  proof (cases "beg < count")
    case True
    define n where "n = min 32 (count - beg)"
    have n: "0 < n" "beg + n \<le> count" "n \<le> 32" using True by (auto simp: n_def)
    with less.prems have "decode_inv payloads count (beg + n) (decode_batch decode_impl payloads beg n st)"
      by (intro decode_batch_inv) auto
    with less.hyps [of "beg + n"] less.prems n True show ?thesis
      by (subst decode_loop.simps) (simp add: n_def)
  next
    case False
    with less.prems show ?thesis by (subst decode_loop.simps) simp
  qed
qed

lemma decode_inv_start: "arrays_hold count st \<Longrightarrow> decode_inv payloads count 0 (st\<lparr>nb_signatures := 0\<rparr>)"
  by (simp add: decode_inv_def arrays_hold_def nb_valid_def)

lemma decode_driver:
  assumes "arrays_hold count st" "count \<le> length payloads" "count < 2 ^ 16"
  shows "decode_inv payloads count count (decode decode_impl payloads count st)"
  unfolding decode_def using assms by (intro decode_loop_inv decode_inv_start) auto

lemma encode_loop_nth:
  assumes "count \<le> length tss" "length ts_hi = 32" "length ts_lo = 32" "beg \<le> count" "count \<le> length ds"
    "count \<le> length sids" "count \<le> length sqs" "count \<le> length fls"
  shows "length (encode_loop encode_impl sids sqs tss fls count beg ts_hi ts_lo ds) = length ds
    \<and> (\<forall>i<length ds. encode_loop encode_impl sids sqs tss fls count beg ts_hi ts_lo ds ! i =
        (if beg \<le> i \<and> i < count
         then encode_signature (sids ! i) (sqs ! i) (fst (split_timestamp (tss ! i)))
                (snd (split_timestamp (tss ! i))) (fls ! i) (ds ! i)
         else ds ! i))"
  using assms
proof (induction "count - beg" arbitrary: beg ts_hi ts_lo ds rule: less_induct)
  case less
  show ?case
  proof (cases "beg < count")
    case True
    define n where "n = min 32 (count - beg)"
    have n: "0 < n" "beg + n \<le> count" "n \<le> 32" using True by (auto simp: n_def)
    define his where "his = write_at 0 (map (fst \<circ> split_timestamp) (take n (drop beg tss))) ts_hi"
    define los where "los = write_at 0 (map (snd \<circ> split_timestamp) (take n (drop beg tss))) ts_lo"
    define ds' where "ds' = take beg ds @ encode_impl (drop beg ds) (drop beg sids) (drop beg sqs) his los (drop beg fls) n"
    have l: "length his = 32" "length los = 32" "length ds' = length ds"
      using n less.prems by (simp_all add: his_def los_def ds'_def encode_length)
    have hl: "his ! j = fst (split_timestamp (tss ! (beg + j)))" "los ! j = snd (split_timestamp (tss ! (beg + j)))"
      if "j < n" for j
      using that n less.prems by (simp_all add: his_def los_def nth_write_at)
    have d: "ds' ! i = (if beg \<le> i \<and> i < beg + n
         then encode_signature (sids ! i) (sqs ! i) (fst (split_timestamp (tss ! i)))
                (snd (split_timestamp (tss ! i))) (fls ! i) (ds ! i)
         else ds ! i)" if "i < length ds" for i
      using that n less.prems encode_nth [of "i - beg" "drop beg ds"] hl [of "i - beg"]
      by (cases "i < beg") (auto simp: ds'_def nth_append)
    have "encode_loop encode_impl sids sqs tss fls count beg ts_hi ts_lo ds =
        encode_loop encode_impl sids sqs tss fls count (beg + n) his los ds'"
      using True by (subst encode_loop.simps) (simp add: Let_def transform_pair_map flip: n_def his_def los_def ds'_def)
    with less.hyps [of "beg + n" his los ds'] less.prems n l d show ?thesis by auto
  next
    case False
    then have "encode_loop encode_impl sids sqs tss fls count beg ts_hi ts_lo ds = ds"
      by (subst encode_loop.simps) simp
    with False less.prems show ?thesis by auto
  qed
qed

end

text \<open>Encoding one packet's signature, timestamp split and CRC included.\<close>

lemma decode_signature_take: "decode_signature (take 16 p) = decode_signature p"
proof -
  have "map (\<lambda>k. le_load (take 4 (drop (4 * k) (take 16 p))) :: u32) [0..<4] =
      map (\<lambda>k. le_load (take 4 (drop (4 * k) p))) [0..<4]"
    by (auto simp: take_drop min_def)
  then show ?thesis by (simp only: decode_signature_def)
qed

lemma write_crc_signature:
  assumes "16 \<le> length d"
  shows "decode_signature (write_crc d) = decode_signature d" and "crc_matches_payload (write_crc d)"
proof -
  have t: "take 16 (write_crc d) = take 16 d" using assms by (simp add: write_crc_def)
  show "decode_signature (write_crc d) = decode_signature d"
    by (metis t decode_signature_take)
  let ?c = "calculate_signature_crc16 (take 16 d)"
  have "take 2 (drop 16 (write_crc d)) = le_store 2 (htons ?c)"
    using assms by (simp add: write_crc_def)
  moreover have "ntohs (le_load (le_store 2 (htons ?c))) = ?c"
    using le_load_le_store [of "htons ?c"] by (simp add: net_swap_net_swap)
  ultimately show "crc_matches_payload (write_crc d)"
    by (simp add: crc_matches_payload_def t)
qed

lemma merge_split_timestamp:
  "merge_timestamp (fst (split_timestamp ts) AND 0x3f) (snd (split_timestamp ts)) = ts AND 0x3fffffffff"
proof -
  have m: "(0x3fffffffff :: u64) = mask 38" "(0xffffffff :: u64) = mask 32"
    by (simp_all add: mask_eq_exp_minus_1)
  show ?thesis
    unfolding merge_timestamp_def split_timestamp_def mask_3f m
    by (rule bit_word_eqI) (auto simp: bit_simps dest: bit_imp_le_length)
qed

lemma encode_driver_nth:
  assumes "count \<le> length tss" "length ts_hi = 32" "length ts_lo = 32" "count \<le> length ds"
    "count \<le> length sids" "count \<le> length sqs" "count \<le> length fls"
  shows "length (encode encode_signatures ts_hi ts_lo ds sids sqs tss fls count) = length ds"
    and "i < length ds \<Longrightarrow> encode encode_signatures ts_hi ts_lo ds sids sqs tss fls count ! i =
      (if i < count
       then write_crc (encode_signature (sids ! i) (sqs ! i) (fst (split_timestamp (tss ! i)))
                         (snd (split_timestamp (tss ! i))) (fls ! i) (ds ! i))
       else ds ! i)"
  using scalar_codec.encode_loop_nth [of count tss ts_hi ts_lo 0 ds sids sqs fls] assms
  by (auto simp: encode_def Let_def nth_append)

text \<open>
  C6: For any mix of packets, the decode driver reports the number of valid signatures and stores,
  for each packet, the flag 0 if its signature is not valid and otherwise the stream id, the
  sequence number and the flags that its signature carries, in the packet's own slot; when all the
  packets are signed, each packet's slot also holds its 38-bit timestamp.
\<close>

theorem decode_driver_correct:
  assumes "arrays_hold count st" "count \<le> length payloads" "count < 2 ^ 16"
  shows "nb_signatures (decode decode_signatures payloads count st) = of_nat (nb_valid (take count payloads))
    \<and> (\<forall>i<count. fields_are (decode_signature (payloads ! i)) (decode decode_signatures payloads count st) i)
    \<and> (all_valid count payloads \<longrightarrow>
        (\<forall>i<count. time_is (decode_signature (payloads ! i)) (decode decode_signatures payloads count st) i))"
  using scalar_codec.decode_driver [OF assms] by (simp add: decode_inv_def)

definition demo_state :: "nat \<Rightarrow> decode_state" where
  "demo_state n = \<lparr>stream_ids = replicate n 0, sequence_numbers = replicate n 0, timestamps_hi = replicate 32 0,
     timestamps_lo = replicate 32 0, flags = replicate n 0, timestamps = replicate n 0, nb_signatures = 0\<rparr>"

lemma arrays_hold_demo: "arrays_hold n (demo_state n)"
  by (simp add: demo_state_def arrays_hold_def)

theorem decode_driver_correct_witness:
  "nb_signatures (decode decode_signatures [encode_signature 1 2 3 4 1 (replicate 20 0)] 1 (demo_state 1)) = 1
    \<and> stream_ids (decode decode_signatures [encode_signature 1 2 3 4 1 (replicate 20 0)] 1 (demo_state 1)) ! 0 = 1"
  using decode_driver_correct [of 1 "demo_state 1" "[encode_signature 1 2 3 4 1 (replicate 20 0)]"]
  by (simp add: demo_state_def arrays_hold_def nb_valid_def decode_encode_signature fields_are_def)

text \<open>
  C1: Packets that went through the encode driver pass the CRC filter and come back from the decode
  driver with their stream ids, sequence numbers, the low 38 bits of their timestamps and the low
  two bits of their flags; the bytes behind the 20-byte signature trailer and the packets
  beyond \<open>count\<close> are left alone.
\<close>

theorem signature_round_trip:
  assumes "count < 2 ^ 16" "count \<le> length ds" "\<forall>d \<in> set ds. 20 \<le> length d"
    and "count \<le> length sids" "count \<le> length sqs" "count \<le> length tss" "count \<le> length fls"
    and "length ts_hi = 32" "length ts_lo = 32" "arrays_hold count st" "count \<le> length ms"
    and "ds' = encode encode_signatures ts_hi ts_lo ds sids sqs tss fls count"
    and "st' = decode decode_signatures ds' count st"
  shows "nb_signatures st' = of_nat count
    \<and> crc_filter ds' count ms = (write_at 0 (replicate count 1) ms, of_nat count)
    \<and> (\<forall>i<count. stream_ids st' ! i = sids ! i \<and> sequence_numbers st' ! i = sqs ! i
          \<and> timestamps st' ! i = tss ! i AND 0x3fffffffff \<and> flags st' ! i = is_valid OR (fls ! i AND 0x3))
    \<and> (\<forall>i<length ds. drop 20 (ds' ! i) = drop 20 (ds ! i))
    \<and> drop count ds' = drop count ds"
proof -
  note enc = encode_driver_nth [of count tss ts_hi ts_lo ds sids sqs fls, OF assms(6,8,9,2,4,5,7), folded assms(12)]
  have len: "20 \<le> length (ds ! i)" if "i < length ds" for i using assms(3) that by simp
  have dec: "decode_signature (ds' ! i) = Some \<lparr>stream_id = sids ! i, sequence_number = sqs ! i,
      timestamp_lo = snd (split_timestamp (tss ! i)), timestamp_hi = fst (split_timestamp (tss ! i)) AND 0x3f,
      flag = is_valid OR (fls ! i AND 0x3)\<rparr>"
    and crc: "crc_matches_payload (ds' ! i)" if "i < count" for i
    using that assms(2) len [of i] by (simp_all add: enc write_crc_signature decode_encode_signature)
  have av: "all_valid count ds'" by (simp add: all_valid_def dec)
  have inv: "decode_inv ds' count count st'"
    unfolding assms(13) using assms(1,2,10) by (intro scalar_codec.decode_driver) (simp_all add: enc)
  have "filter crc_matches_payload (take count ds') = take count ds'"
    by (rule filter_True) (auto simp: in_set_conv_nth crc)
  moreover have "map (\<lambda>p. if crc_matches_payload p then 1 else 0 :: u32) (take count ds') = replicate count 1"
    using assms(2) by (intro nth_equalityI) (simp_all add: enc(1) crc)
  ultimately have "crc_filter ds' count ms = (write_at 0 (replicate count 1) ms, of_nat count)"
    using assms(2) by (simp only: crc_filter_eq) (simp add: enc(1))
  moreover have "drop count ds' = drop count ds"
    by (rule nth_equalityI) (simp_all add: enc)
  moreover have "drop 20 (ds' ! i) = drop 20 (ds ! i)" if "i < length ds" for i
    using that len [of i] drop_encode_signature [THEN arg_cong, of "drop 4"]
    by (simp add: enc write_crc_def add.commute)
  ultimately show ?thesis
    using inv nb_valid_all [OF av] assms(2) av
    by (simp add: decode_inv_def enc(1) fields_are_def time_is_def dec merge_split_timestamp)
qed

theorem signature_round_trip_witness:
  "crc_filter (encode encode_signatures (replicate 32 0) (replicate 32 0) [replicate 24 9] [1] [2] [0x123456789a] [1] 1)
     1 [0] = ([1], 1)"
  using signature_round_trip [where count = 1 and ds = "[replicate 24 9]" and sids = "[1]" and sqs = "[2]"
      and tss = "[0x123456789a]" and fls = "[1]" and ts_hi = "replicate 32 0" and ts_lo = "replicate 32 0"
      and st = "demo_state 1" and ms = "[0]", OF _ _ _ _ _ _ _ _ _ _ _ refl refl, THEN conjunct2, THEN conjunct1]
  by (simp add: arrays_hold_demo write_at_def)

lemma decode_two_batches:
  assumes "32 < count" "count \<le> 64"
  shows "decode impl payloads count st =
    decode_batch impl payloads 32 (count - 32) (decode_batch impl payloads 0 32 (st\<lparr>nb_signatures := 0\<rparr>))"
  unfolding decode_def using assms
  by (subst decode_loop.simps, simp, subst decode_loop.simps, simp, subst decode_loop.simps, simp)


lemma decode_zero_payload: "decode_signature (replicate 20 0) = None"
proof -
  have "scramble 0 i = 0" for i
    by (simp add: scramble_def rotate_left_def)
  moreover have "(- 256 :: u8) = 0" by simp
  ultimately have "scramble (- 256) i = 0" for i by (simp only:)
  moreover have "be_store 4 (0 :: u32) = replicate 4 0"
    by (intro nth_equalityI) simp_all
  then have "replicate 20 0 = wire [0, 0, 0, 0] @ replicate 4 0"
    by (simp add: wire_def numeral_eq_Suc)
  ultimately show ?thesis
    by (simp only: decode_signature_wire) (simp add: decode_words_def get_scramble_mask_def Let_def)
qed


text \<open>
  The CRC filter flags exactly the packets whose stored CRC is the CRC of their sixteen
  signature bytes, counts them, and touches no flag beyond the packets it was given.
\<close>

theorem crc_filter_correct:
  assumes "count \<le> length payloads" "count \<le> length ms" "count < 2 ^ 16" "i < length ms"
  shows "fst (crc_filter payloads count ms) ! i =
      (if i < count then if crc_matches_payload (payloads ! i) then 1 else 0 else ms ! i)
    \<and> unat (snd (crc_filter payloads count ms)) = card {j. j < count \<and> crc_matches_payload (payloads ! j)}"
proof -
  have "length (filter crc_matches_payload (take count payloads)) =
      card {j. j < count \<and> crc_matches_payload (payloads ! j)}" (is "?n = _")
    using assms(1) by (auto simp: length_filter_conv_card intro!: arg_cong [where f = card])
  moreover have "?n < 2 ^ 16"
    using length_filter_le [of crc_matches_payload "take count payloads"] assms by simp
  ultimately show ?thesis
    using assms by (simp add: crc_filter_eq nth_write_at unat_of_nat_small)
qed

theorem crc_filter_correct_witness:
  "unat (snd (crc_filter [write_crc (replicate 20 7)] 1 [0])) =
    card {j. j < 1 \<and> crc_matches_payload ([write_crc (replicate 20 7)] ! j)}"
  using crc_filter_correct [of 1 "[write_crc (replicate 20 7)]" "[0]" 0] by simp

end
