(* ===== verification/Ones_Complement.thy ===== *)
theory Ones_Complement
  imports Prelude
begin

text \<open>
  One's complement arithmetic, the reference for the Internet checksums: a number stands for its
  class modulo \<open>2\<^sup>k - 1\<close>, and zero is kept apart from the other representative of its class, because
  an end-around-carry sum is zero only when all its summands are.
\<close>

unbundle bit_operations_syntax

definition oc_eq :: "nat \<Rightarrow> nat \<Rightarrow> nat \<Rightarrow> bool" where
  "oc_eq m x y \<longleftrightarrow> x mod m = y mod m \<and> (x = 0 \<longleftrightarrow> y = 0)"

text \<open>The 16-bit end-around-carry sum with value \<open>n\<close>.\<close>

definition oc16 :: "nat \<Rightarrow> nat" where
  "oc16 n = (if n = 0 then 0 else Suc ((n - 1) mod 65535))"

text \<open>
  The sum of the 16-bit words of a byte string in memory order, an odd last byte being padded with
  a zero byte (RFC 1071).
\<close>

fun sum16 :: "u8 list \<Rightarrow> nat" where
  "sum16 [] = 0"
| "sum16 [a] = unat a"
| "sum16 (a # b # bs) = unat a + 256 * unat b + sum16 bs"

lemma oc_eq_refl [simp]: "oc_eq m x x"
  by (simp add: oc_eq_def)

lemma oc_eq_sym: "oc_eq m x y \<Longrightarrow> oc_eq m y x"
  by (simp add: oc_eq_def)

lemma oc_eq_trans [trans]: "oc_eq m x y \<Longrightarrow> oc_eq m y z \<Longrightarrow> oc_eq m x z"
  by (simp add: oc_eq_def)

lemma oc_eq_add: "oc_eq m x y \<Longrightarrow> oc_eq m x' y' \<Longrightarrow> oc_eq m (x + x') (y + y')"
  unfolding oc_eq_def by (auto intro: mod_add_cong)

lemma oc_eq_dvd:
  assumes "k dvd m" "oc_eq m x y"
  shows "oc_eq k x y"
proof -
  have "x mod k = x mod m mod k" "y mod k = y mod m mod k"
    using assms(1) by (simp_all add: mod_mod_cancel)
  with assms(2) show ?thesis by (simp add: oc_eq_def)
qed

lemma oc16_oc_eq: "oc_eq 65535 (oc16 n) n"
proof (cases n)
  case (Suc k)
  then show ?thesis by (simp add: oc_eq_def oc16_def mod_Suc_eq)
qed (simp add: oc16_def)

lemma oc16_le: "oc16 n \<le> 65535"
proof (cases "n = 0")
  case False
  then show ?thesis using mod_less_divisor [of 65535 "n - 1"] by (simp add: oc16_def)
qed (simp add: oc16_def)

lemma oc_eq_unique:
  assumes "oc_eq 65535 x y" "x \<le> 65535" "y \<le> 65535"
  shows "x = y"
proof -
  have *: "a mod 65535 = (if a = 65535 then 0 else a)" if "a \<le> 65535" for a :: nat
    using that by (cases "a = 65535") simp_all
  from assms show ?thesis
    unfolding oc_eq_def * [OF assms(2)] * [OF assms(3)] by (auto split: if_splits)
qed

lemma oc16_eqI: "oc_eq 65535 x n \<Longrightarrow> x \<le> 65535 \<Longrightarrow> x = oc16 n"
  by (rule oc_eq_unique [OF oc_eq_trans [OF _ oc_eq_sym [OF oc16_oc_eq]] _ oc16_le])

lemma oc16_cong: "oc_eq 65535 x n \<Longrightarrow> oc16 x = oc16 n"
  by (rule oc16_eqI [OF oc_eq_trans [OF oc16_oc_eq] oc16_le])

subsection \<open>Folding a sum\<close>

lemma fold_carry:
  fixes B x :: nat
  assumes "1 < B" "x < B * B"
  defines "s \<equiv> x div B + x mod B"
  shows "oc_eq (B - 1) ((s + s div B) mod B) x" and "s \<le> 2 * B - 2"
proof -
  have "x div B < B" using assms(2) by (rule less_mult_imp_div_less)
  then have q: "x div B \<le> B - 1" by simp
  have r: "x mod B \<le> B - 1" using assms(1) by (simp add: less_Suc_eq_le [symmetric])
  show bound: "s \<le> 2 * B - 2" using q r by (simp add: s_def)
  have x: "x = s + (x div B) * (B - 1)"
  proof -
    have "x = x div B * B + x mod B" by simp
    also have "x div B * B = x div B * (B - 1) + x div B" using assms(1) by (simp add: algebra_simps diff_mult_distrib2)
    finally show ?thesis by (simp add: s_def)
  qed
  have z: "s = 0 \<longleftrightarrow> x = 0" using x assms(1) by (auto simp: s_def)
  have "(s + (x div B) * (B - 1)) mod (B - 1) = s mod (B - 1)" by (rule mod_mult_self1)
  then have sx: "s mod (B - 1) = x mod (B - 1)" by (simp only: x [symmetric])
  show "oc_eq (B - 1) ((s + s div B) mod B) x"
  proof (cases "s < B")
    case True
    then show ?thesis using z sx by (simp add: oc_eq_def)
  next
    case False
    then obtain t where t: "s = B + t" by (auto simp: not_less le_iff_add)
    with bound assms(1) have tb: "Suc t < B" by linarith
    have "t div B = 0" "B \<noteq> 0" using tb by simp_all
    then have "s div B = 1" using div_add_self1 [of B t] by (simp only: t add_0 not_False_eq_True simp_thms)
    then have "s + s div B = B + Suc t" by (simp add: t)
    with tb have "(s + s div B) mod B = Suc t" by (simp only: mod_add_self1 mod_less)
    moreover have "s = Suc t + (B - 1)" using t assms(1) by simp
    then have "s mod (B - 1) = Suc t mod (B - 1)" by (simp only: mod_add_self2)
    ultimately show ?thesis using z sx t assms(1) by (auto simp: oc_eq_def)
  qed
qed

lemma oc_eq_fold_word:
  fixes x :: "'a::len word"
  assumes h: "LENGTH('a) = 2 * LENGTH('b::len)" "1 < LENGTH('b)" and m: "m = mask LENGTH('b)"
  defines "s \<equiv> drop_bit LENGTH('b) x + (x AND m)"
  shows "oc_eq (2 ^ LENGTH('b) - 1) (unat (ucast (s + drop_bit LENGTH('b) s) :: 'b word)) (unat x)"
proof -
  let ?B = "2 ^ LENGTH('b) :: nat"
  have B: "1 < ?B" "4 \<le> ?B" "unat x < ?B * ?B" "?B * ?B = 2 ^ LENGTH('a)"
    using unsigned_less [of x, where ?'a = nat] h power_increasing [of 2 "LENGTH('b)" "2::nat"]
    by (simp_all add: mult_2 power_add)
  note f = fold_carry [OF B(1,3)]
  have room: "4 * ?B \<le> ?B * ?B" using B(2) by (intro mult_le_mono1)
  have hi: "unat (drop_bit LENGTH('b) w) = unat w div ?B" for w :: "'a word"
    by (simp add: unsigned_drop_bit_eq drop_bit_nat_def take_bit_nat_eq_self)
  have lo: "unat (x AND m) = unat x mod ?B"
    by (simp add: m flip: take_bit_eq_mask) (simp add: unsigned_take_bit_eq take_bit_nat_def)
  have s: "unat s = unat x div ?B + unat x mod ?B"
    using f(2) room B unfolding s_def by (simp add: unat_word_ariths hi lo)
  have "unat (s + drop_bit LENGTH('b) s) = unat s + unat s div ?B"
    using f(2) room B div_le_dividend [of "unat s" ?B] unfolding unat_word_ariths hi s [symmetric]
    by (intro mod_less) linarith
  then have "unat (ucast (s + drop_bit LENGTH('b) s) :: 'b word) = (unat s + unat s div ?B) mod ?B"
    by (simp add: unsigned_ucast_eq take_bit_nat_def)
  with f(1) show ?thesis by (simp add: s)
qed

subsection \<open>Sums of bytes\<close>

lemma sum16_append: "even (length xs) \<Longrightarrow> sum16 (xs @ ys) = sum16 xs + sum16 ys"
  by (induction xs rule: sum16.induct) simp_all

lemma oc_eq_bytes_val: "oc_eq 65535 (bytes_val (rev bs)) (sum16 bs)"
proof (induction bs rule: sum16.induct)
  case (3 a b bs)
  let ?v = "bytes_val (rev bs)"
  have "?v * 65536 = ?v + ?v * 65535" by simp
  then have "(?v * 65536) mod 65535 = ?v mod 65535" by (simp only: mod_mult_self1)
  then have "oc_eq 65535 (?v * 65536) ?v" by (simp add: oc_eq_def)
  with 3 have "oc_eq 65535 (unat a + 256 * unat b + ?v * 65536) (unat a + 256 * unat b + sum16 bs)"
    by (intro oc_eq_add oc_eq_refl) (rule oc_eq_trans)
  then show ?case by (simp add: bytes_val_append ac_simps)
qed simp_all

lemma oc_eq_le_load:
  "8 * length bs \<le> LENGTH('a) \<Longrightarrow> oc_eq 65535 (unat (le_load bs :: 'a::len word)) (sum16 bs)"
  using oc_eq_bytes_val [of bs] by (simp add: unat_le_load)

text \<open>The sum of the \<open>n\<close> words of \<open>k\<close> bytes at the start of a buffer.\<close>

definition load_words :: "nat \<Rightarrow> nat \<Rightarrow> u8 list \<Rightarrow> 'a::len word list" where
  "load_words k n bs = map (\<lambda>i. le_load (take k (drop (k * i) bs))) [0..<n]"

lemma oc_eq_load_words:
  assumes "even k" "8 * k \<le> LENGTH('a)" "k * n \<le> length bs"
  shows "oc_eq 65535 (sum_list (map unat (load_words k n bs :: 'a::len word list))) (sum16 (take (k * n) bs))"
  using assms(3)
proof (induction n)
  case (Suc n)
  have "take (k * Suc n) bs = take (k * n) bs @ take k (drop (k * n) bs)"
    using take_add [of "k * n" k bs] by (simp only: mult_Suc_right add.commute)
  moreover have "length (take (k * n) bs) = k * n" using Suc.prems by simp
  ultimately have "sum16 (take (k * Suc n) bs) = sum16 (take (k * n) bs) + sum16 (take k (drop (k * n) bs))"
    using assms(1) by (simp add: sum16_append)
  moreover have "oc_eq 65535 (unat (le_load (take k (drop (k * n) bs)) :: 'a word)) (sum16 (take k (drop (k * n) bs)))"
    using assms(2) by (intro oc_eq_le_load) (simp add: min_def)
  ultimately show ?case using Suc by (simp add: load_words_def oc_eq_add)
qed (simp add: load_words_def)

text \<open>One end-around-carry addition.\<close>

definition add_carry :: "'a::len word \<Rightarrow> 'a word \<Rightarrow> 'a word" where
  "add_carry v s = (let s' = s + v in s' + (if s' < v then 1 else 0))"

lemma oc_eq_add_carry:
  fixes s v :: "'a::len word"
  assumes "1 < LENGTH('a)"
  shows "oc_eq (2 ^ LENGTH('a) - 1) (unat (add_carry v s)) (unat s + unat v)"
proof -
  let ?B = "2 ^ LENGTH('a) :: nat"
  have B: "2 \<le> ?B" using power_increasing [of 1 "LENGTH('a)" "2::nat"] assms by simp
  have s: "unat s < ?B" and v: "unat v < ?B"
    using unsigned_less [of s, where ?'a = nat] unsigned_less [of v, where ?'a = nat] by simp_all
  show ?thesis
  proof (cases "unat s + unat v < ?B")
    case True
    then have u: "unat (s + v) = unat s + unat v" by (simp add: unat_word_ariths)
    then have "\<not> s + v < v" by (simp add: word_less_nat_alt)
    then show ?thesis by (simp add: add_carry_def u)
  next
    case False
    then obtain k where k: "unat s + unat v = ?B + k" by (auto simp: not_less le_iff_add)
    with s v have kb: "Suc k < ?B" by linarith
    have u: "unat (s + v) = k"
      using kb unfolding unat_word_ariths k by (simp only: mod_add_self1 mod_less Suc_lessD)
    moreover have "k < unat v" using s k by linarith
    ultimately have "s + v < v" by (simp add: word_less_nat_alt)
    with u have "unat (add_carry v s) = Suc k"
      using kb by (simp add: add_carry_def unat_word_ariths(1) [of "s + v"])
    moreover have "unat s + unat v = Suc k + (?B - 1)" using k B by simp
    then have "(unat s + unat v) mod (?B - 1) = Suc k mod (?B - 1)" by (simp only: mod_add_self2)
    ultimately show ?thesis using k B by (simp add: oc_eq_def)
  qed
qed

lemma oc_eq_fold_add_carry:
  assumes "1 < LENGTH('a)"
  shows "oc_eq (2 ^ LENGTH('a) - 1) (unat (fold add_carry ws (s :: 'a::len word))) (unat s + sum_list (map unat ws))"
proof (induction ws arbitrary: s)
  case (Cons w ws)
  have "oc_eq (2 ^ LENGTH('a) - 1) (unat (add_carry w s) + sum_list (map unat ws))
      (unat s + unat w + sum_list (map unat ws))"
    by (rule oc_eq_add [OF oc_eq_add_carry [OF assms] oc_eq_refl])
  with Cons [of "add_carry w s"] show ?case by (simp add: add.assoc) (rule oc_eq_trans)
qed simp

end
