(* ===== verification/Pga_Checksum.thy ===== *)
theory Pga_Checksum
  imports Ones_Complement
begin

text \<open>
  The Internet checksums of \<^verbatim>\<open>src/lib/spirent_pga\<close>: the scalar routines
  (\<^verbatim>\<open>scalar/checksum.cpp\<close>), the header layouts they read (\<^verbatim>\<open>common/headers.h\<close>) and the entry
  points that batch packets and add header and payload sums (\<^verbatim>\<open>common/checksum.cpp\<close>).

  A packet pointer is the address with the bytes behind it: \<open>sum\<close> looks at the alignment of the
  address. The routines that the entry points take from the function table are arguments; the
  locale \<open>checksum_routines\<close> says what they have to compute and the scalar routines interpret it.
\<close>

unbundle bit_operations_syntax

subsection \<open>Scalar routines\<close>

definition fold64 :: "u64 \<Rightarrow> u32" where
  "fold64 acc =
     (let acc = drop_bit 32 acc + (acc AND 0xffffffff);
          acc = acc + drop_bit 32 acc in ucast acc)"

definition fold32 :: "u32 \<Rightarrow> u16" where
  "fold32 acc =
     (let acc = drop_bit 16 acc + (acc AND 0xffff);
          acc = acc + drop_bit 16 acc in ucast acc)"

text \<open>Entry \<open>k\<close> of the \<open>uint32_t data[]\<close> member of a header union.\<close>

definition data_word :: "u8 list \<Rightarrow> nat \<Rightarrow> u32" where
  "data_word header k = le_load (take 4 (drop (4 * k) header))"

definition checksum_ipv4_header :: "u8 list \<Rightarrow> u32" where
  "checksum_ipv4_header header =
     (let acc = ucast (data_word header 0) :: u64;
          acc = acc + ucast (data_word header 1);
          acc = acc + ucast (data_word header 2);
          acc = acc + ucast (data_word header 3);
          acc = acc + ucast (data_word header 4);
          nb_words = unat (data_word header 0 AND 0xf);
          acc = (if nb_words > 5
                 then fold (\<lambda>word acc. acc + ucast (data_word header word)) [5..<nb_words] acc
                 else acc);
          csum = fold32 (fold64 acc) in
        ucast (if csum = 0xffff then csum else 0xffff XOR csum))"

definition checksum_ipv4_headers :: "u8 list list \<Rightarrow> nat \<Rightarrow> u32 list \<Rightarrow> u32 list" where
  "checksum_ipv4_headers headers count checksums =
     write_at 0 (map checksum_ipv4_header (take count headers)) checksums"

definition ipv4_length :: "u8 list \<Rightarrow> u16" where
  "ipv4_length header = ntohs (le_load (take 2 (drop 2 header)))"

definition ipv4_pseudo :: "u8 list \<Rightarrow> u8 list" where
  "ipv4_pseudo header =
     (let ihl = header ! 0 AND 0xf in
        take 4 (drop 12 header) @ take 4 (drop 16 header) @ [0, header ! 9]
        @ le_store 2 (htons (ipv4_length header - 4 * ucast ihl)))"

definition checksum_ipv4_pseudoheader :: "u8 list \<Rightarrow> u32" where
  "checksum_ipv4_pseudoheader header =
     (let pheader = ipv4_pseudo header;
          acc = ucast (data_word pheader 0) :: u64;
          acc = acc + ucast (data_word pheader 1);
          acc = acc + ucast (data_word pheader 2) in
        ucast (fold32 (fold64 acc)))"

definition checksum_ipv4_pseudoheaders :: "u8 list list \<Rightarrow> nat \<Rightarrow> u32 list \<Rightarrow> u32 list" where
  "checksum_ipv4_pseudoheaders headers count checksums =
     write_at 0 (map checksum_ipv4_pseudoheader (take count headers)) checksums"

definition accumulate64 :: "u64 \<Rightarrow> u64 \<Rightarrow> u64" where
  "accumulate64 value acc = (let acc = acc + value in acc + (if acc < value then 1 else 0))"

definition checksum_data64 :: "u8 list \<Rightarrow> nat \<Rightarrow> u64" where
  "checksum_data64 data len =
     fold accumulate64 (map (\<lambda>i. le_load (take 8 (drop (8 * i) data))) [0..<len div 2]) 0"

definition checksum_data_aligned :: "u8 list \<Rightarrow> nat \<Rightarrow> u32" where
  "checksum_data_aligned data len =
     (let acc = checksum_data64 data len;
          acc = (if odd len then acc + ucast (data_word data (len - 1)) else acc) in
        fold64 acc)"

definition ipv6_hdr_sum :: "u8 list \<Rightarrow> u32" where
  "ipv6_hdr_sum header =
     ucast (fold32 (ucast (le_load (take 2 (drop 4 header)) :: u16)))
     + ucast (fold32 (ntohl (ucast (header ! 6))))"

definition checksum_ipv6_pseudoheader :: "u8 list \<Rightarrow> u32" where
  "checksum_ipv6_pseudoheader header =
     (let addr_sum = checksum_data_aligned (drop 8 header) 8 in
        ucast (fold32 (fold64 (ucast (ipv6_hdr_sum header + addr_sum)))))"

definition checksum_ipv6_pseudoheaders :: "u8 list list \<Rightarrow> nat \<Rightarrow> u32 list \<Rightarrow> u32 list" where
  "checksum_ipv6_pseudoheaders headers count checksums =
     write_at 0 (map checksum_ipv6_pseudoheader (take count headers)) checksums"

subsection \<open>Entry points\<close>

type_synonym data_fn = "u8 list \<Rightarrow> nat \<Rightarrow> u32"
type_synonym header_fn = "u8 list list \<Rightarrow> nat \<Rightarrow> u32 list \<Rightarrow> u32 list"

definition checksum_tail :: "u8 list \<Rightarrow> nat \<Rightarrow> nat \<Rightarrow> u64" where
  "checksum_tail data len idx =
     (let rest = (int len - int idx) mod 4; d = (\<lambda>k. ucast (data ! (idx + k)) :: u64) in
        if rest = 1 then d 0
        else if rest = 2 then d 0 OR push_bit 8 (d 1)
        else if rest = 3 then (d 0 OR push_bit 8 (d 1)) + d 2
        else 0)"

definition checksum_sum :: "data_fn \<Rightarrow> packet_ptr \<Rightarrow> nat \<Rightarrow> u16" where
  "checksum_sum impl p len =
     (let data = bytes p;
          unaligned = (address p mod 4 \<noteq> 0);
          acc = (if unaligned then ucast (le_load (take 2 data) :: u16) else 0) :: u64;
          idx = (if unaligned then 2 else 0);
          aligned_length = (len - idx) div 4;
          acc = acc + ucast (if aligned_length < 16 then checksum_data_aligned (drop idx data) aligned_length
                             else impl (drop idx data) aligned_length);
          idx = idx + aligned_length * 4;
          acc = acc + checksum_tail data len idx in
        fold32 (fold64 acc))"

definition ipv4_headers :: "header_fn \<Rightarrow> packet_ptr list \<Rightarrow> nat \<Rightarrow> u32 list \<Rightarrow> u32 list" where
  "ipv4_headers impl headers count checksums = impl (map bytes headers) count checksums"

definition tcpudp_total4 :: "data_fn \<Rightarrow> u32 \<Rightarrow> packet_ptr \<Rightarrow> u32" where
  "tcpudp_total4 impl csum p =
     (let len = ipv4_length (bytes p) - 20 in csum + ucast (checksum_sum impl (ptr_add p 20) (unat len)))"

definition tcpudp_total6 :: "data_fn \<Rightarrow> u32 \<Rightarrow> packet_ptr \<Rightarrow> packet_ptr \<Rightarrow> u32" where
  "tcpudp_total6 impl csum ipv6 payload =
     csum + ucast (checksum_sum impl payload (unat (ntohs (le_load (take 2 (drop 4 (bytes ipv6))) :: u16))))"

definition complement_fold :: "u32 \<Rightarrow> u32" where
  "complement_fold tot = ucast (fold32 (0xffffffff XOR tot))"

function ipv4_tcpudp_loop ::
  "header_fn \<Rightarrow> data_fn \<Rightarrow> packet_ptr list \<Rightarrow> nat \<Rightarrow> nat \<Rightarrow> u32 list \<Rightarrow> u32 list \<Rightarrow> u32 list" where
  "ipv4_tcpudp_loop pseudo impl headers count offset tmp checksums =
     (if offset < count
      then let loop_count = min 32 (count - offset);
               hs = drop offset headers;
               tmp = pseudo (map bytes hs) loop_count tmp;
               out = map2 (\<lambda>csum p. complement_fold (tcpudp_total4 impl csum p)) (take loop_count tmp) hs in
             ipv4_tcpudp_loop pseudo impl headers count (offset + loop_count) tmp (write_at offset out checksums)
      else checksums)"
  by pat_completeness auto
termination
  by (relation "measure (\<lambda>(pseudo, impl, headers, count, offset, tmp, checksums). count - offset)") auto

definition ipv4_tcpudp ::
  "header_fn \<Rightarrow> data_fn \<Rightarrow> u32 list \<Rightarrow> packet_ptr list \<Rightarrow> nat \<Rightarrow> u32 list \<Rightarrow> u32 list" where
  "ipv4_tcpudp pseudo impl tmp headers count checksums =
     ipv4_tcpudp_loop pseudo impl headers count 0 tmp checksums"

function ipv6_tcpudp_loop ::
  "header_fn \<Rightarrow> data_fn \<Rightarrow> packet_ptr list \<Rightarrow> packet_ptr list \<Rightarrow> nat \<Rightarrow> nat \<Rightarrow> u32 list \<Rightarrow> u32 list
   \<Rightarrow> u32 list" where
  "ipv6_tcpudp_loop pseudo impl headers payloads count offset tmp checksums =
     (if offset < count
      then let loop_count = min 32 (count - offset);
               tmp = pseudo (map bytes (drop offset headers)) loop_count tmp;
               checksums = fold (\<lambda>idx cs. cs[idx + offset :=
                     complement_fold (tcpudp_total6 impl (tmp ! idx) (headers ! (idx + offset))
                       (payloads ! (idx + offset)))]) [0..<loop_count] checksums in
             ipv6_tcpudp_loop pseudo impl headers payloads count (offset + loop_count) tmp checksums
      else checksums)"
  by pat_completeness auto
termination
  by (relation "measure (\<lambda>(pseudo, impl, headers, payloads, count, offset, tmp, checksums). count - offset)") auto

definition ipv6_tcpudp ::
  "header_fn \<Rightarrow> data_fn \<Rightarrow> u32 list \<Rightarrow> packet_ptr list \<Rightarrow> packet_ptr list \<Rightarrow> nat \<Rightarrow> u32 list \<Rightarrow> u32 list" where
  "ipv6_tcpudp pseudo impl tmp headers payloads count checksums =
     ipv6_tcpudp_loop pseudo impl headers payloads count 0 tmp checksums"

declare ipv4_tcpudp_loop.simps [simp del] ipv6_tcpudp_loop.simps [simp del]

subsection \<open>Folds\<close>

lemma oc_eq_fold32: "oc_eq 65535 (unat (fold32 w)) (unat w)"
  using oc_eq_fold_word [where 'b = 16 and x = w and m = "0xffff"]
  by (simp add: fold32_def Let_def mask_eq_exp_minus_1)

lemma oc_eq_fold64: "oc_eq 65535 (unat (fold64 w)) (unat w)"
proof (rule oc_eq_dvd)
  show "oc_eq (2 ^ 32 - 1) (unat (fold64 w)) (unat w)"
    using oc_eq_fold_word [where 'b = 32 and x = w and m = "0xffffffff"]
    by (simp add: fold64_def Let_def mask_eq_exp_minus_1)
qed simp

lemma oc_eq_fold: "oc_eq 65535 (unat (fold32 (fold64 w))) (unat w)"
  by (rule oc_eq_trans [OF oc_eq_fold32 oc_eq_fold64])

lemma unat_fold32_le: "unat (fold32 w) \<le> 65535"
  using unsigned_less [of "fold32 w", where ?'a = nat] by simp

lemma accumulate64_add_carry: "accumulate64 = add_carry"
  by (simp add: fun_eq_iff accumulate64_def add_carry_def)

lemma oc_eq_data64:
  assumes "8 * (len div 2) \<le> length data"
  shows "oc_eq 65535 (unat (checksum_data64 data len)) (sum16 (take (8 * (len div 2)) data))"
proof -
  let ?ws = "load_words 8 (len div 2) data :: u64 list"
  have "oc_eq (2 ^ LENGTH(64) - 1) (unat (fold add_carry ?ws 0)) (unat (0 :: u64) + sum_list (map unat ?ws))"
    by (rule oc_eq_fold_add_carry) simp
  then have "oc_eq 65535 (unat (fold add_carry ?ws 0)) (sum_list (map unat ?ws))"
    by (intro oc_eq_dvd [of 65535 "2 ^ LENGTH(64) - 1"]) simp_all
  moreover have "oc_eq 65535 (sum_list (map unat ?ws)) (sum16 (take (8 * (len div 2)) data))"
    using assms by (intro oc_eq_load_words) simp_all
  ultimately show ?thesis
    unfolding checksum_data64_def accumulate64_add_carry load_words_def [symmetric] by (rule oc_eq_trans)
qed

subsection \<open>Sums of 32-bit words\<close>

definition no_lost_carry :: "u8 list \<Rightarrow> nat \<Rightarrow> bool" where
  "no_lost_carry data len \<longleftrightarrow>
     even len \<or> unat (checksum_data64 data len) + unat (data_word data (len - 1)) < 2 ^ 64"

lemma oc_eq_data_word: "oc_eq 65535 (unat (data_word bs k)) (sum16 (take 4 (drop (4 * k) bs)))"
  unfolding data_word_def by (intro oc_eq_le_load) (simp add: min_def)

lemma unat_ucast64: "unat (ucast (w :: u32) :: u64) = unat w"
  using unsigned_less [of w, where ?'a = nat] by (simp add: unsigned_ucast_eq take_bit_nat_eq_self)

lemma oc_eq_data_aligned:
  assumes "4 * len \<le> length data" "no_lost_carry data len"
  shows "oc_eq 65535 (unat (checksum_data_aligned data len)) (sum16 (take (4 * len) data))"
proof (cases "even len")
  case True
  then have "8 * (len div 2) = 4 * len" by auto
  with True oc_eq_data64 [of len data] assms(1) show ?thesis
    unfolding checksum_data_aligned_def Let_def by (auto intro: oc_eq_trans [OF oc_eq_fold64])
next
  case False
  let ?n = "8 * (len div 2)" and ?last = "data_word data (len - 1)"
  have n: "4 * (len - 1) = ?n" "4 * len = ?n + 4" using False by (auto elim!: oddE)
  have "unat (checksum_data64 data len + ucast ?last) = unat (checksum_data64 data len) + unat ?last"
    using assms(2) False by (simp add: no_lost_carry_def unat_word_ariths unat_ucast64)
  moreover have "oc_eq 65535 \<dots> (sum16 (take ?n data) + sum16 (take 4 (drop ?n data)))"
    using oc_eq_data_word [of data "len - 1"] n assms(1) by (intro oc_eq_add oc_eq_data64) simp_all
  moreover have "sum16 (take (4 * len) data) = sum16 (take ?n data) + sum16 (take 4 (drop ?n data))"
    using n(2) assms(1) by (simp add: take_add sum16_append)
  ultimately show ?thesis
    using False unfolding checksum_data_aligned_def Let_def by (auto intro: oc_eq_trans [OF oc_eq_fold64])
qed

lemma unat_word_sum:
  assumes "n \<le> 2 ^ 31"
  shows "unat (fold (\<lambda>word acc. acc + ucast (data_word h word)) [0..<n] (0 :: u64)) = (\<Sum>w<n. unat (data_word h w))
    \<and> (\<Sum>w<n. unat (data_word h w)) \<le> n * 2 ^ 32"
  using assms
proof (induction n)
  case (Suc n)
  have "unat (data_word h n) < 2 ^ 32" using unsigned_less [of "data_word h n", where ?'a = nat] by simp
  with Suc show ?case by (simp add: unat_word_ariths unat_ucast64)
qed simp

lemma oc_eq_word_sum:
  assumes "4 * n \<le> length h"
  shows "oc_eq 65535 (\<Sum>w<n. unat (data_word h w)) (sum16 (take (4 * n) h))"
  using assms
proof (induction n)
  case (Suc n)
  have "take (4 * Suc n) h = take (4 * n) h @ take 4 (drop (4 * n) h)"
    using take_add [of "4 * n" 4 h] by (simp only: mult_Suc_right add.commute)
  with Suc have "sum16 (take (4 * Suc n) h) = sum16 (take (4 * n) h) + sum16 (take 4 (drop (4 * n) h))"
    by (simp add: sum16_append)
  with Suc oc_eq_data_word [of h n] show ?case by (simp add: oc_eq_add)
qed simp

lemma oc_eq_fold_words:
  assumes "n \<le> 2 ^ 31" "4 * n \<le> length h"
  shows "oc_eq 65535 (unat (fold32 (fold64 (fold (\<lambda>word acc. acc + ucast (data_word h word)) [0..<n] 0))))
    (sum16 (take (4 * n) h))"
  by (rule oc_eq_trans [OF oc_eq_fold])
    (simp only: unat_word_sum [OF assms(1), THEN conjunct1] oc_eq_word_sum [OF assms(2)])

subsection \<open>Headers\<close>

lemma oc_eq_mod: "oc_eq m x y \<Longrightarrow> x mod m = y mod m"
  by (simp add: oc_eq_def)

lemma unat_xor_ffff: "unat (0xffff XOR c :: u16) = 65535 - unat c"
proof -
  have "(0xffff :: u16) = - 1" by simp
  then have "0xffff XOR c = NOT c" using bit.xor_one_left [of c] by (rule ssubst)
  then show ?thesis by (simp add: unat_not)
qed

lemma unat_ffff: "unat c = 65535 \<longleftrightarrow> c = (0xffff :: u16)"
  by (simp add: word_unat_eq_iff)

lemma unat_le_ffff: "unat (c :: u16) \<le> 65535"
  using unsigned_less [of c, where ?'a = nat] by simp

lemma unat_complement:
  "unat (if c = 0xffff then c else 0xffff XOR c :: u16) = (if unat c = 65535 then 65535 else 65535 - unat c)"
  by (simp add: unat_xor_ffff unat_ffff)

lemma complement_sum:
  assumes "oc_eq 65535 (unat (c :: u16)) n"
  shows "(n + unat (if c = 0xffff then c else 0xffff XOR c)) mod 65535 = 0"
    and "unat (if c = 0xffff then c else 0xffff XOR c) \<noteq> 0"
proof -
  have "(unat c + unat (if c = 0xffff then c else 0xffff XOR c)) mod 65535 = 0"
    unfolding unat_complement using unat_le_ffff [of c] by simp
  then show "(n + unat (if c = 0xffff then c else 0xffff XOR c)) mod 65535 = 0"
    using mod_add_cong [OF oc_eq_mod [OF assms] refl, of "unat (if c = 0xffff then c else 0xffff XOR c)"]
    by (simp only:)
  show "unat (if c = 0xffff then c else 0xffff XOR c) \<noteq> 0"
    unfolding unat_complement using unat_le_ffff [of c] by simp
qed

lemma unat_and_f: "unat (w AND 0xf) < 16" for w :: u32
proof -
  have "w AND 0xf = take_bit 4 w" by (simp add: take_bit_eq_mask mask_eq_exp_minus_1)
  then show ?thesis using take_bit_nat_less_exp [of 4 "unat w"] by (simp add: unsigned_take_bit_eq)
qed

definition ipv4_words :: "u8 list \<Rightarrow> nat" where
  "ipv4_words header = max 5 (unat (data_word header 0 AND 0xf))"

lemma ipv4_header_fold:
  "checksum_ipv4_header header =
     (let csum = fold32 (fold64 (fold (\<lambda>word acc. acc + ucast (data_word header word)) [0..<ipv4_words header] 0)) in
        ucast (if csum = 0xffff then csum else 0xffff XOR csum))"
proof -
  have five: "[0..<5] = [0, 1, 2, 3, 4]" by (simp add: upt_rec)
  have split: "[0..<n] = [0..<5] @ [5..<n]" if "5 \<le> n" for n
    using that by (metis le0 upt_add_eq_append le_Suc_ex)
  show ?thesis
    unfolding checksum_ipv4_header_def ipv4_words_def
    by (cases "unat (data_word header 0 AND 0xf) > 5")
      (simp_all add: Let_def split [of "unat (data_word header 0 AND 0xf)"] five max_def)
qed

lemma unat_ucast16: "unat (ucast (w :: u16) :: u32) = unat w"
  using unsigned_less [of w, where ?'a = nat] by (simp add: unsigned_ucast_eq take_bit_nat_eq_self)

lemma ucast_ucast16: "ucast (ucast (w :: u16) :: u32) = w"
  by (rule bit_word_eqI) (simp add: bit_simps)

lemma sum16_le_store: "sum16 (le_store 2 w) = unat (w :: u16)"
proof -
  have "unat w = bytes_val (rev (le_store 2 w))"
    using unat_le_load [of "le_store 2 w", where 'a = 16] le_load_le_store [of w] by simp
  then show ?thesis by (simp add: numeral_2_eq_2)
qed

text \<open>
  C16: Writing the computed checksum into a header whose checksum field is zero makes the header
  verify: with options or without, its 16-bit one's complement sum becomes 0xffff. The stored
  value is never zero.
\<close>

theorem ipv4_header_verifies:
  assumes "4 * ipv4_words header \<le> length header" "take 2 (drop 10 header) = [0, 0]"
    and "c = checksum_ipv4_header header"
    and "header' = take 10 header @ le_store 2 (ucast c :: u16) @ drop 12 header"
  shows "oc16 (sum16 (take (4 * ipv4_words header) header')) = 0xffff \<and> c \<noteq> 0 \<and> unat c \<le> 0xffff"
proof -
  define n where "n = ipv4_words header"
  have n: "5 \<le> n" "n \<le> 15" "4 * n \<le> length header"
    using unat_and_f [of "data_word header 0"] assms(1) by (auto simp: n_def ipv4_words_def)
  define csum where "csum = fold32 (fold64 (fold (\<lambda>word acc. acc + ucast (data_word header word)) [0..<n] 0))"
  define r where "r = (if csum = 0xffff then csum else 0xffff XOR csum)"
  have c: "c = ucast r" by (simp add: assms(3) ipv4_header_fold r_def csum_def n_def)
  have "oc_eq 65535 (unat csum) (sum16 (take (4 * n) header))"
    unfolding csum_def using n by (intro oc_eq_fold_words) simp_all
  note sum0 = complement_sum(1) [OF this, folded r_def] and nz = complement_sum(2) [OF this, folded r_def]
  have h: "take (4 * n) header = take 10 header @ [0, 0] @ take (4 * n - 12) (drop 12 header)"
  proof -
    have "4 * n = 10 + (2 + (4 * n - 12))" using n by simp
    then have "take (4 * n) header = take 10 header @ take (2 + (4 * n - 12)) (drop 10 header)"
      using take_add [of 10 "2 + (4 * n - 12)" header] by (simp only:)
    then show ?thesis using assms(2) by (simp only: take_add [of 2 "4 * n - 12"] drop_drop) simp
  qed
  have u: "unat c = unat r" and uc: "(ucast c :: u16) = r"
    unfolding c by (rule unat_ucast16, rule ucast_ucast16)
  have h': "take (4 * n) header' = take 10 header @ le_store 2 r @ take (4 * n - 12) (drop 12 header)"
    using n by (simp add: assms(4) uc)
  have len: "even (length (take 10 header))" using n by simp
  have "sum16 (take (4 * n) header') = sum16 (take (4 * n) header) + unat r"
    unfolding h h' sum16_append [OF len]
    by (simp add: sum16_append [of "le_store 2 r"] sum16_le_store del: le_store.simps)
  then have "sum16 (take (4 * n) header') mod 65535 = 0" "sum16 (take (4 * n) header') \<noteq> 0"
    using sum0 nz by simp_all
  then have "oc_eq 65535 65535 (sum16 (take (4 * n) header'))" by (simp add: oc_eq_def)
  then have "65535 = oc16 (sum16 (take (4 * n) header'))" by (rule oc16_eqI) simp
  moreover have "unat r \<le> 0xffff" using unsigned_less [of r, where ?'a = nat] by simp
  ultimately show ?thesis using nz u by (auto simp: n_def)
qed

definition demo_header :: "u8 list" where
  "demo_header = [0x45, 0, 0, 0x73, 0, 0, 0x40, 0, 0x40, 0x11, 0, 0, 0xc0, 0xa8, 0, 1, 0xc0, 0xa8, 0, 0xc7]"

lemma demo_header_words: "ipv4_words demo_header = 5"
  by (simp add: ipv4_words_def data_word_def demo_header_def)

theorem ipv4_header_verifies_witness:
  "oc16 (sum16 (take 20 (take 10 demo_header
     @ le_store 2 (ucast (checksum_ipv4_header demo_header) :: u16) @ drop 12 demo_header))) = 0xffff"
  using ipv4_header_verifies [of demo_header, OF _ _ refl refl]
  unfolding demo_header_words by (simp add: demo_header_def)

lemma length_ipv4_pseudo: "20 \<le> length h \<Longrightarrow> length (ipv4_pseudo h) = 12"
  by (simp add: ipv4_pseudo_def Let_def)

lemma pseudoheader4_sum:
  assumes "20 \<le> length h"
  shows "unat (checksum_ipv4_pseudoheader h) = oc16 (sum16 (ipv4_pseudo h))"
proof -
  have three: "[0..<3] = [0, 1, 2]" by (simp add: upt_rec)
  have "checksum_ipv4_pseudoheader h =
      ucast (fold32 (fold64 (fold (\<lambda>word acc. acc + ucast (data_word (ipv4_pseudo h) word)) [0..<3] 0)))"
    by (simp add: checksum_ipv4_pseudoheader_def Let_def three)
  moreover have "oc_eq 65535 (unat (fold32 (fold64 (fold (\<lambda>word acc. acc + ucast (data_word (ipv4_pseudo h) word)) [0..<3] 0))))
      (sum16 (take (4 * 3) (ipv4_pseudo h)))"
    using assms by (intro oc_eq_fold_words) (simp_all add: length_ipv4_pseudo)
  ultimately show ?thesis
    using assms by (simp add: unat_ucast16 oc16_eqI length_ipv4_pseudo unat_fold32_le)
qed

subsection \<open>Payloads\<close>

lemma take_drop_split:
  "a + b \<le> len \<Longrightarrow> take len data = take a data @ take b (drop a data) @ drop (a + b) (take len data)"
  by (metis append_take_drop_id drop_drop drop_take add.commute take_add take_take min.absorb1 append.assoc
      le_add_diff_inverse)

lemma unat_two_bytes: "unat (ucast a OR push_bit 8 (ucast b) :: u64) = unat a + 256 * unat b"
  for a b :: u8
  using unat_le_load [of "[a, b]", where 'a = 64] by (simp add: ac_simps)

lemma checksum_tail_sum:
  assumes "idx \<le> len" "len - idx < 4" "len \<le> length data"
  shows "unat (checksum_tail data len idx) = sum16 (drop idx (take len data)) \<and> unat (checksum_tail data len idx) < 2 ^ 17"
proof -
  obtain k where k: "len = idx + k" "k < 4" using assms by (metis add_diff_inverse_nat not_le)
  have u: "unat (ucast a :: u64) = unat a \<and> unat a < 256" for a :: u8
    using unsigned_less [of a, where ?'a = nat] by (simp add: unsigned_ucast_eq take_bit_nat_eq_self)
  have d: "drop idx (take len data) = map (\<lambda>j. data ! (idx + j)) [0..<k]"
    using assms(3) k by (intro nth_equalityI) simp_all
  consider "k = 0" | "k = 1" | "k = 2" | "k = 3" using k(2) by linarith
  then show ?thesis
    unfolding d using u [of "data ! idx"] u [of "data ! (idx + 1)"] u [of "data ! (idx + 2)"]
    by cases (simp_all add: checksum_tail_def k(1) Let_def upt_rec [of _ 3] upt_rec [of _ 2] unat_two_bytes
        unat_word_ariths)
qed

text \<open>When \<open>sum\<close> computes the Internet checksum of the bytes it is given.\<close>

definition start_idx :: "packet_ptr \<Rightarrow> nat" where
  "start_idx p = (if address p mod 4 \<noteq> 0 then 2 else 0)"

definition sum_safe :: "packet_ptr \<Rightarrow> nat \<Rightarrow> bool" where
  "sum_safe p len \<longleftrightarrow> start_idx p \<le> len \<and> len \<le> length (bytes p)
     \<and> no_lost_carry (drop (start_idx p) (bytes p)) ((len - start_idx p) div 4)"

definition ipv6_pseudo :: "u8 list \<Rightarrow> u8 list" where
  "ipv6_pseudo header = take 32 (drop 8 header) @ [0, 0] @ take 2 (drop 4 header) @ [0, 0, 0, header ! 6]"

definition ipv6_no_wrap :: "u8 list \<Rightarrow> bool" where
  "ipv6_no_wrap header \<longleftrightarrow>
     unat (ipv6_hdr_sum header) + unat (checksum_data_aligned (drop 8 header) 8) < 2 ^ 32"

locale checksum_routines =
  fixes data_impl :: data_fn and pseudo4 :: header_fn and pseudo6 :: header_fn
  assumes data_sum: "4 * n \<le> length data \<Longrightarrow> no_lost_carry data n \<Longrightarrow>
      oc_eq 65535 (unat (data_impl data n)) (sum16 (take (4 * n) data))"
    and pseudo4_length: "n \<le> length hs \<Longrightarrow> n \<le> length tmp \<Longrightarrow> length (pseudo4 hs n tmp) = length tmp"
    and pseudo4_sum: "n \<le> length hs \<Longrightarrow> n \<le> length tmp \<Longrightarrow> i < n \<Longrightarrow> 20 \<le> length (hs ! i) \<Longrightarrow>
      unat (pseudo4 hs n tmp ! i) = oc16 (sum16 (ipv4_pseudo (hs ! i)))"
    and pseudo6_length: "n \<le> length hs \<Longrightarrow> n \<le> length tmp \<Longrightarrow> length (pseudo6 hs n tmp) = length tmp"
    and pseudo6_sum: "n \<le> length hs \<Longrightarrow> n \<le> length tmp \<Longrightarrow> i < n \<Longrightarrow> 40 \<le> length (hs ! i) \<Longrightarrow>
      ipv6_no_wrap (hs ! i) \<Longrightarrow> unat (pseudo6 hs n tmp ! i) = oc16 (sum16 (ipv6_pseudo (hs ! i)))"

lemma be_store_byte: "be_store 4 (ucast (b :: u8) :: u32) = [0, 0, 0, b]"
proof (rule nth_equalityI)
  have z: "drop_bit m (ucast b :: u32) = 0" if "8 \<le> m" for m
    using that bit_imp_le_length [of b] by (fastforce intro: bit_word_eqI simp: bit_simps)
  have u: "ucast (ucast b :: u32) = b" by (rule bit_word_eqI) (simp add: bit_simps)
  fix i
  assume "i < length (be_store 4 (ucast b :: u32))"
  then consider "i = 0" | "i = 1" | "i = 2" | "i = 3" by fastforce
  then show "be_store 4 (ucast b :: u32) ! i = [0, 0, 0, b] ! i"
    by cases (simp_all add: nth_be_store z u)
qed simp

lemma oc_eq_ipv6_hdr_sum:
  assumes "40 \<le> length h"
  shows "oc_eq 65535 (unat (ipv6_hdr_sum h)) (sum16 (take 2 (drop 4 h)) + 256 * unat (h ! 6))"
proof -
  let ?len = "le_load (take 2 (drop 4 h)) :: u16"
  have "unat (ipv6_hdr_sum h) = unat (fold32 (ucast ?len)) + unat (fold32 (ntohl (ucast (h ! 6))))"
    using unat_fold32_le [of "ucast ?len"] unat_fold32_le [of "ntohl (ucast (h ! 6))"]
    by (simp add: ipv6_hdr_sum_def unat_word_ariths unat_ucast16)
  also have "oc_eq 65535 \<dots> (sum16 (take 2 (drop 4 h)) + 256 * unat (h ! 6))"
  proof (rule oc_eq_add)
    have "oc_eq 65535 (unat (ucast ?len :: u32)) (sum16 (take 2 (drop 4 h)))"
      unfolding unat_ucast16 by (rule oc_eq_le_load) simp
    then show "oc_eq 65535 (unat (fold32 (ucast ?len))) (sum16 (take 2 (drop 4 h)))"
      by (rule oc_eq_trans [OF oc_eq_fold32])
    have "oc_eq 65535 (unat (le_load [0, 0, 0, h ! 6] :: u32)) (sum16 [0, 0, 0, h ! 6])"
      by (rule oc_eq_le_load) simp
    then have "oc_eq 65535 (unat (ntohl (ucast (h ! 6)))) (256 * unat (h ! 6))"
      by (simp add: net_swap_def be_store_byte del: le_load.simps)
    then show "oc_eq 65535 (unat (fold32 (ntohl (ucast (h ! 6))))) (256 * unat (h ! 6))"
      by (rule oc_eq_trans [OF oc_eq_fold32])
  qed
  finally show ?thesis .
qed

lemma sum16_ipv6_pseudo:
  assumes "40 \<le> length h"
  shows "sum16 (ipv6_pseudo h) = sum16 (take 2 (drop 4 h)) + 256 * unat (h ! 6) + sum16 (take 32 (drop 8 h))"
  using assms by (simp add: ipv6_pseudo_def sum16_append)

lemma pseudoheader6_sum:
  assumes "40 \<le> length h" "ipv6_no_wrap h"
  shows "unat (checksum_ipv6_pseudoheader h) = oc16 (sum16 (ipv6_pseudo h))"
proof -
  let ?addr = "checksum_data_aligned (drop 8 h) 8"
  have "oc_eq 65535 (unat ?addr) (sum16 (take (4 * 8) (drop 8 h)))"
    using assms(1) by (intro oc_eq_data_aligned) (simp_all add: no_lost_carry_def)
  then have "oc_eq 65535 (unat (ipv6_hdr_sum h) + unat ?addr) (sum16 (ipv6_pseudo h))"
    using oc_eq_add [OF oc_eq_ipv6_hdr_sum [OF assms(1)]] by (simp add: sum16_ipv6_pseudo [OF assms(1)])
  moreover have "unat (ucast (ipv6_hdr_sum h + ?addr) :: u64) = unat (ipv6_hdr_sum h) + unat ?addr"
    using assms(2) by (simp add: unat_ucast64 ipv6_no_wrap_def unat_word_ariths)
  ultimately have "oc_eq 65535 (unat (fold32 (fold64 (ucast (ipv6_hdr_sum h + ?addr))))) (sum16 (ipv6_pseudo h))"
    using oc_eq_trans [OF oc_eq_fold] by simp
  then show ?thesis
    by (simp add: checksum_ipv6_pseudoheader_def Let_def unat_ucast16 oc16_eqI unat_fold32_le)
qed

interpretation scalar_routines:
  checksum_routines checksum_data_aligned checksum_ipv4_pseudoheaders checksum_ipv6_pseudoheaders
  by unfold_locales
    (simp_all add: oc_eq_data_aligned checksum_ipv4_pseudoheaders_def checksum_ipv6_pseudoheaders_def nth_write_at
      pseudoheader4_sum pseudoheader6_sum)

text \<open>The checksums the entry points store.\<close>

definition csum4 :: "data_fn \<Rightarrow> packet_ptr \<Rightarrow> u32" where
  "csum4 impl p = complement_fold (tcpudp_total4 impl (of_nat (oc16 (sum16 (ipv4_pseudo (bytes p))))) p)"

definition csum6 :: "data_fn \<Rightarrow> packet_ptr \<Rightarrow> packet_ptr \<Rightarrow> u32" where
  "csum6 impl ipv6 payload =
     complement_fold (tcpudp_total6 impl (of_nat (oc16 (sum16 (ipv6_pseudo (bytes ipv6))))) ipv6 payload)"

context checksum_routines
begin

lemma checksum_sum_correct:
  assumes "sum_safe p len"
  shows "unat (checksum_sum data_impl p len) = oc16 (sum16 (take len (bytes p)))"
proof -
  define data k n where "data = bytes p" and "k = start_idx p" and "n = (len - k) div 4"
  define acc0 where "acc0 = (if k = 2 then ucast (le_load (take 2 data) :: u16) else 0 :: u64)"
  define body where "body = (if n < 16 then checksum_data_aligned (drop k data) n else data_impl (drop k data) n)"
  define tail where "tail = checksum_tail data len (k + n * 4)"
  have k: "k = 0 \<or> k = 2" "k \<le> len" "len \<le> length data" "no_lost_carry (drop k data) n"
    using assms by (auto simp: sum_safe_def start_idx_def k_def data_def n_def)
  have n: "k + n * 4 \<le> len" "len - (k + n * 4) < 4"
    using k(2) by (simp_all add: n_def)
  have sum: "checksum_sum data_impl p len = fold32 (fold64 (acc0 + ucast body + tail))"
    by (simp add: checksum_sum_def Let_def acc0_def body_def tail_def n_def k_def start_idx_def data_def)
  have a: "oc_eq 65535 (unat acc0) (sum16 (take k data))" "unat acc0 \<le> 65535"
    using k(1) oc_eq_le_load [of "take 2 data", where 'a = 16] unat_le_ffff [of "le_load (take 2 data)"]
    by (auto simp: acc0_def unsigned_ucast_eq take_bit_nat_eq_self)
  have b: "oc_eq 65535 (unat body) (sum16 (take (4 * n) (drop k data)))"
    using k n data_sum [of n "drop k data"] oc_eq_data_aligned [of n "drop k data"] by (auto simp: body_def)
  have bb: "unat body < 2 ^ 32" using unsigned_less [of body, where ?'a = nat] by simp
  have t: "unat tail = sum16 (drop (k + n * 4) (take len data))" "unat tail < 2 ^ 17"
    using checksum_tail_sum [of "k + n * 4" len data] n k by (auto simp: tail_def)
  have tot: "unat (acc0 + ucast body + tail) = unat acc0 + unat body + unat tail"
    using a(2) bb t(2) by (simp add: unat_word_ariths unat_ucast64)
  have "sum16 (take len data) = sum16 (take k data) + sum16 (take (4 * n) (drop k data))
      + sum16 (drop (k + n * 4) (take len data))"
  proof -
    have "length (take k data) = k" "length (take (n * 4) (drop k data)) = n * 4"
      using n k by simp_all
    then have even: "even (length (take k data))" "even (length (take (n * 4) (drop k data)))"
      using k(1) by auto
    show ?thesis
      using arg_cong [OF take_drop_split [of k "n * 4" len data, OF n(1)], of sum16]
      by (simp only: sum16_append [OF even(1)] sum16_append [OF even(2)] mult.commute add.assoc)
  qed
  then have "oc_eq 65535 (unat (acc0 + ucast body + tail)) (sum16 (take len data))"
    unfolding tot using a b t by (auto intro: oc_eq_add)
  then show ?thesis
    unfolding sum data_def by (intro oc16_eqI oc_eq_trans [OF oc_eq_fold] unat_fold32_le)
qed

lemma ipv4_loop_nth:
  assumes "count \<le> length headers" "\<forall>i<count. 20 \<le> length (bytes (headers ! i))" "length tmp = 32"
    and "count \<le> length cs" "offset \<le> count"
  shows "length (ipv4_tcpudp_loop pseudo4 data_impl headers count offset tmp cs) = length cs
    \<and> (\<forall>i<length cs. ipv4_tcpudp_loop pseudo4 data_impl headers count offset tmp cs ! i =
        (if offset \<le> i \<and> i < count then csum4 data_impl (headers ! i) else cs ! i))"
  using assms
proof (induction "count - offset" arbitrary: offset tmp cs rule: less_induct)
  case less
  show ?case
  proof (cases "offset < count")
    case True
    define n where "n = min 32 (count - offset)"
    have n: "0 < n" "offset + n \<le> count" "n \<le> 32" using True by (auto simp: n_def)
    let ?hs = "map bytes (drop offset headers)"
    define tmp' where "tmp' = pseudo4 ?hs n tmp"
    define out where "out = map2 (\<lambda>csum p. complement_fold (tcpudp_total4 data_impl csum p)) (take n tmp') (drop offset headers)"
    have l: "length tmp' = 32" "length out = n"
      using n less.prems by (simp_all add: tmp'_def out_def pseudo4_length)
    have "tmp' ! j = of_nat (oc16 (sum16 (ipv4_pseudo (bytes (headers ! (offset + j))))))" if "j < n" for j
    proof -
      have "unat (tmp' ! j) = oc16 (sum16 (ipv4_pseudo (?hs ! j)))"
        unfolding tmp'_def using n less.prems that by (intro pseudo4_sum) simp_all
      moreover have "?hs ! j = bytes (headers ! (offset + j))" using n less.prems that by simp
      ultimately show ?thesis by (intro unat_eq_of_nat) simp
    qed
    then have o: "out ! j = csum4 data_impl (headers ! (offset + j))" if "j < n" for j
      using that n l less.prems by (simp add: out_def csum4_def)
    have "ipv4_tcpudp_loop pseudo4 data_impl headers count offset tmp cs =
        ipv4_tcpudp_loop pseudo4 data_impl headers count (offset + n) tmp' (write_at offset out cs)"
      using True by (subst ipv4_tcpudp_loop.simps) (simp add: Let_def flip: n_def tmp'_def out_def)
    with less.hyps [of "offset + n" tmp' "write_at offset out cs"] less.prems n l o show ?thesis
      by (auto simp: nth_write_at)
  next
    case False
    then have "ipv4_tcpudp_loop pseudo4 data_impl headers count offset tmp cs = cs"
      by (subst ipv4_tcpudp_loop.simps) simp
    with False less.prems show ?thesis by auto
  qed
qed

lemma ipv6_loop_nth:
  assumes "count \<le> length headers" "\<forall>i<count. 40 \<le> length (bytes (headers ! i)) \<and> ipv6_no_wrap (bytes (headers ! i))"
    and "length tmp = 32" "count \<le> length cs" "offset \<le> count"
  shows "length (ipv6_tcpudp_loop pseudo6 data_impl headers payloads count offset tmp cs) = length cs
    \<and> (\<forall>i<length cs. ipv6_tcpudp_loop pseudo6 data_impl headers payloads count offset tmp cs ! i =
        (if offset \<le> i \<and> i < count then csum6 data_impl (headers ! i) (payloads ! i) else cs ! i))"
  using assms
proof (induction "count - offset" arbitrary: offset tmp cs rule: less_induct)
  case less
  show ?case
  proof (cases "offset < count")
    case True
    define n where "n = min 32 (count - offset)"
    have n: "0 < n" "offset + n \<le> count" "n \<le> 32" using True by (auto simp: n_def)
    let ?hs = "map bytes (drop offset headers)"
    define tmp' where "tmp' = pseudo6 ?hs n tmp"
    let ?g = "\<lambda>i. complement_fold (tcpudp_total6 data_impl (tmp' ! i) (headers ! (i + offset)) (payloads ! (i + offset)))"
    define cs' where "cs' = fold (\<lambda>i cs. cs[i + offset := ?g i]) [0..<n] cs"
    have l: "length tmp' = 32" using n less.prems by (simp add: tmp'_def pseudo6_length)
    have "tmp' ! j = of_nat (oc16 (sum16 (ipv6_pseudo (bytes (headers ! (offset + j))))))" if "j < n" for j
    proof -
      have "unat (tmp' ! j) = oc16 (sum16 (ipv6_pseudo (?hs ! j)))"
        unfolding tmp'_def using n less.prems that by (intro pseudo6_sum) simp_all
      moreover have "?hs ! j = bytes (headers ! (offset + j))" using n less.prems that by simp
      ultimately show ?thesis by (intro unat_eq_of_nat) simp
    qed
    then have g: "?g j = csum6 data_impl (headers ! (offset + j)) (payloads ! (offset + j))" if "j < n" for j
      using that by (simp add: csum6_def add.commute)
    have cs': "length cs' = length cs" "\<forall>i<length cs. cs' ! i = (if offset \<le> i \<and> i < offset + n then ?g (i - offset) else cs ! i)"
      using fold_shift_update [of offset n cs ?g] n less.prems by (simp_all add: cs'_def)
    have "ipv6_tcpudp_loop pseudo6 data_impl headers payloads count offset tmp cs =
        ipv6_tcpudp_loop pseudo6 data_impl headers payloads count (offset + n) tmp' cs'"
      using True by (subst ipv6_tcpudp_loop.simps) (simp add: Let_def flip: n_def tmp'_def cs'_def)
    moreover have "cs' ! i = (if offset \<le> i \<and> i < offset + n then csum6 data_impl (headers ! i) (payloads ! i) else cs ! i)"
      if "i < length cs" for i
      using cs'(2) g [of "i - offset"] that by auto
    ultimately show ?thesis
      using less.hyps [of "offset + n" tmp' cs'] less.prems n l cs'(1) by auto
  next
    case False
    then have "ipv6_tcpudp_loop pseudo6 data_impl headers payloads count offset tmp cs = cs"
      by (subst ipv6_tcpudp_loop.simps) simp
    with False less.prems show ?thesis by auto
  qed
qed

end

text \<open>A checksum that completes a one's complement sum \<open>n\<close> to zero and is not itself zero.\<close>

definition completes :: "u32 \<Rightarrow> nat \<Rightarrow> bool" where
  "completes c n \<longleftrightarrow> c \<noteq> 0 \<and> unat c \<le> 0xffff \<and> (n + unat c) mod 65535 = 0"

lemma complement_fold_completes:
  assumes "oc_eq 65535 (unat w) n" "unat w \<le> 131070"
  shows "completes (complement_fold w) n"
proof -
  have "(0xffffffff :: u32) = - 1" by simp
  then have "0xffffffff XOR w = NOT w" using bit.xor_one_left [of w] by (rule ssubst)
  then have u: "unat (0xffffffff XOR w) = 4294967295 - unat w" by (simp add: unat_not)
  have f: "oc_eq 65535 (unat (fold32 (0xffffffff XOR w))) (4294967295 - unat w)"
    using oc_eq_fold32 [of "0xffffffff XOR w"] by (simp only: u)
  have nz: "unat (fold32 (0xffffffff XOR w)) \<noteq> 0"
    using f assms(2) by (simp add: oc_eq_def)
  have "(n + unat (fold32 (0xffffffff XOR w))) mod 65535 = (unat w + (4294967295 - unat w)) mod 65535"
    by (rule mod_add_cong [OF oc_eq_mod [OF assms(1), symmetric] oc_eq_mod [OF f]])
  also have "\<dots> = 0" using assms(2) by simp
  finally show ?thesis
    using nz unat_fold32_le [of "0xffffffff XOR w"]
    by (auto simp: completes_def complement_fold_def unat_ucast16 simp flip: unat_ucast16)
qed

lemma unat_oc16: "unat (of_nat (oc16 n) :: u32) = oc16 n"
  using oc16_le [of n] by (intro unat_of_nat_small) simp

lemma total_completes:
  assumes "unat csum = oc16 n" "unat s = oc16 m"
  shows "completes (complement_fold (csum + ucast (s :: u16))) (n + m)"
proof -
  have "unat (csum + ucast s) = oc16 n + oc16 m"
    using assms oc16_le [of n] oc16_le [of m] by (simp add: unat_word_ariths unat_ucast16)
  then show ?thesis
    using oc16_le [of n] oc16_le [of m] oc_eq_add [OF oc16_oc_eq oc16_oc_eq, of n m]
    by (intro complement_fold_completes) simp_all
qed

text \<open>The packets for which the IPv4 entry point is meant, and the pseudo header of RFC 793 for them.\<close>

definition l4_length :: "packet_ptr \<Rightarrow> nat" where
  "l4_length p = unat (ipv4_length (bytes p)) - 20"

definition plain_ipv4 :: "packet_ptr \<Rightarrow> bool" where
  "plain_ipv4 p \<longleftrightarrow> 20 \<le> length (bytes p) \<and> bytes p ! 0 AND 0xf = 5 \<and> 20 \<le> unat (ipv4_length (bytes p))
     \<and> sum_safe (ptr_add p 20) (l4_length p)"

definition rfc_pseudo4 :: "packet_ptr \<Rightarrow> u8 list" where
  "rfc_pseudo4 p = take 8 (drop 12 (bytes p)) @ [0, bytes p ! 9] @ be_store 2 (of_nat (l4_length p) :: u16)"

lemma ipv4_pseudo_plain: "plain_ipv4 p \<Longrightarrow> ipv4_pseudo (bytes p) = rfc_pseudo4 p"
proof -
  assume p: "plain_ipv4 p"
  let ?len = "ipv4_length (bytes p)"
  have "?len - 20 = of_nat (unat (?len - 20))" by simp
  also have "unat (?len - 20) = unat ?len - 20"
    using p by (intro unat_sub [of 20 ?len, simplified]) (simp add: plain_ipv4_def word_le_nat_alt)
  finally have l: "?len - 20 = of_nat (l4_length p)" by (simp add: l4_length_def)
  have "take 8 (drop 12 (bytes p)) = take 4 (drop 12 (bytes p)) @ take 4 (drop 16 (bytes p))"
    using take_add [of 4 4 "drop 12 (bytes p)"] by simp
  moreover have "le_store 2 (htons w) = be_store 2 w" for w :: u16
    using le_store_net_swap [of w] by simp
  ultimately show ?thesis
    using p by (simp add: ipv4_pseudo_def rfc_pseudo4_def Let_def plain_ipv4_def l)
qed

lemma l4_length_unat: "plain_ipv4 p \<Longrightarrow> unat (ipv4_length (bytes p) - 20) = l4_length p"
  unfolding l4_length_def
  by (rule unat_sub [of 20 "ipv4_length (bytes p)", simplified]) (simp add: plain_ipv4_def word_le_nat_alt)


definition demo_packet :: packet_ptr where
  "demo_packet = \<lparr>address = 2, bytes = [0x45, 0, 0, 28, 0, 0, 0x40, 0, 0x40, 0x11, 0, 0, 10, 0, 0, 1, 10, 0, 0, 2,
     0, 7, 0, 9, 0, 8, 0, 0]\<rparr>"

lemma demo_packet_plain: "plain_ipv4 demo_packet \<and> l4_length demo_packet = 8"
proof -
  have len: "ipv4_length (bytes demo_packet) = 28"
    using net_swap_le_load [of "[0, 28]", where 'a = 16] by (simp add: demo_packet_def ipv4_length_def be_load_def)
  have "no_lost_carry [0, 9, 0, 8, 0, 0] 1"
    by (simp add: no_lost_carry_def checksum_data64_def data_word_def)
  then show ?thesis
    using len by (simp add: plain_ipv4_def l4_length_def sum_safe_def start_idx_def ptr_add_def demo_packet_def)
qed


text \<open>
  For IPv6 packets whose header sum does not wrap around 32 bits, the TCP/UDP entry point stores
  for every packet a non-zero 16-bit value that completes the one's complement sum of the RFC 8200
  pseudo header and of the payload to zero.
\<close>

theorem ipv6_tcpudp_correct:
  assumes "count \<le> length headers" "count \<le> length cs" "length tmp = 32"
    and "\<forall>i<count. 40 \<le> length (bytes (headers ! i)) \<and> ipv6_no_wrap (bytes (headers ! i))"
    and "\<forall>i<count. sum_safe (payloads ! i) (unat (ntohs (le_load (take 2 (drop 4 (bytes (headers ! i)))))))"
    and "cs' = ipv6_tcpudp checksum_ipv6_pseudoheaders checksum_data_aligned tmp headers payloads count cs"
  shows "(\<forall>i<count. completes (cs' ! i) (sum16 (ipv6_pseudo (bytes (headers ! i)))
        + sum16 (take (unat (ntohs (le_load (take 2 (drop 4 (bytes (headers ! i))))))) (bytes (payloads ! i)))))
    \<and> drop count cs' = drop count cs"
proof -
  have loop: "length cs' = length cs \<and> (\<forall>i<length cs. cs' ! i =
      (if i < count then csum6 checksum_data_aligned (headers ! i) (payloads ! i) else cs ! i))"
    using scalar_routines.ipv6_loop_nth [of count headers tmp cs 0 payloads] assms(1-4)
    by (simp add: assms(6) ipv6_tcpudp_def)
  have "completes (csum6 checksum_data_aligned (headers ! i) (payloads ! i)) (sum16 (ipv6_pseudo (bytes (headers ! i)))
        + sum16 (take (unat (ntohs (le_load (take 2 (drop 4 (bytes (headers ! i))))))) (bytes (payloads ! i))))"
    if "i < count" for i
    using that assms(5) unfolding csum6_def tcpudp_total6_def
    by (intro total_completes) (simp_all add: unat_oc16 scalar_routines.checksum_sum_correct)
  then show ?thesis
    using loop assms(2) by (auto intro: nth_equalityI)
qed

definition demo_header6 :: "u8 \<Rightarrow> u8 list" where
  "demo_header6 b = [0x60, 0, 0, 0, 0, 8, 17, 64] @ replicate 32 b"

lemma demo_header6_len: "40 \<le> length (demo_header6 b)" "take 2 (drop 4 (demo_header6 b)) = [0, 8]"
  "drop 8 (demo_header6 b) = replicate 32 b"
  by (simp_all add: demo_header6_def)

lemma demo_header6_hdr: "0 < unat (ipv6_hdr_sum (demo_header6 b))" "unat (ipv6_hdr_sum (demo_header6 b)) \<le> 131070"
proof -
  show "0 < unat (ipv6_hdr_sum (demo_header6 b))"
    using oc_eq_ipv6_hdr_sum [OF demo_header6_len(1), of b] by (simp add: oc_eq_def demo_header6_def)
  let ?x = "fold32 (ucast (le_load (take 2 (drop 4 (demo_header6 b))) :: u16))" and ?y = "fold32 (ntohl (ucast (demo_header6 b ! 6)))"
  have "unat (ucast ?x + ucast ?y :: u32) = unat ?x + unat ?y"
    using unat_le_ffff [of ?x] unat_le_ffff [of ?y] by (simp add: unat_word_ariths unat_ucast16)
  then show "unat (ipv6_hdr_sum (demo_header6 b)) \<le> 131070"
    using unat_le_ffff [of ?x] unat_le_ffff [of ?y] by (simp only: ipv6_hdr_sum_def)
qed

lemma replicate_words: "replicate 8 x = [x, x, x, x, x, x, x, x]" "replicate 4 x = [x, x, x, x]"
  by (simp_all add: numeral_eq_Suc)

lemma demo_address_sums:
  "checksum_data_aligned (replicate 32 0) 8 = 0" "checksum_data_aligned (replicate 32 0xff) 8 = 0xffffffff"
proof -
  have "[0..<4] = [0, 1, 2, 3]" by (simp add: upt_rec)
  then show "checksum_data_aligned (replicate 32 0) 8 = 0" "checksum_data_aligned (replicate 32 0xff) 8 = 0xffffffff"
    by (simp_all add: checksum_data_aligned_def checksum_data64_def accumulate64_def fold64_def replicate_words)
qed

lemma demo_header6_wraps: "ipv6_no_wrap (demo_header6 0)" "\<not> ipv6_no_wrap (demo_header6 0xff)"
  using demo_header6_hdr [where b = 0] demo_header6_hdr [where b = "0xff"]
  by (simp_all add: ipv6_no_wrap_def demo_header6_len demo_address_sums)

theorem ipv6_tcpudp_correct_witness:
  "completes (ipv6_tcpudp checksum_ipv6_pseudoheaders checksum_data_aligned (replicate 32 0)
      [\<lparr>address = 0, bytes = demo_header6 0\<rparr>] [\<lparr>address = 0, bytes = replicate 8 1\<rparr>] 1 [0] ! 0)
    (sum16 (ipv6_pseudo (demo_header6 0)) + sum16 (replicate 8 1))"
proof -
  have "ntohs (le_load [0, 8]) = 8"
    using net_swap_le_load [of "[0, 8]", where 'a = 16] by (simp add: be_load_def)
  then show ?thesis
    using ipv6_tcpudp_correct [of 1 "[\<lparr>address = 0, bytes = demo_header6 0\<rparr>]" "[0]" "replicate 32 0"
        "[\<lparr>address = 0, bytes = replicate 8 1\<rparr>]", OF _ _ _ _ _ refl]
    by (simp add: demo_header6_len demo_header6_wraps sum_safe_def start_idx_def no_lost_carry_def)
qed

text \<open>
  When the 32-bit addition of the header sum and the address sum wraps around, the IPv6 pseudo
  header checksum comes out one too small modulo 65535: the carry is lost, because both operands
  are 32-bit values and only their sum is widened.
\<close>

theorem ipv6_pseudo_lost_carry:
  assumes "40 \<le> length h" "\<not> ipv6_no_wrap h"
  shows "(unat (checksum_ipv6_pseudoheader h) + 1) mod 65535 = sum16 (ipv6_pseudo h) mod 65535"
proof -
  let ?addr = "checksum_data_aligned (drop 8 h) 8" and ?hdr = "ipv6_hdr_sum h"
  have "oc_eq 65535 (unat ?addr) (sum16 (take (4 * 8) (drop 8 h)))"
    using assms(1) by (intro oc_eq_data_aligned) (simp_all add: no_lost_carry_def)
  then have s: "oc_eq 65535 (unat ?hdr + unat ?addr) (sum16 (ipv6_pseudo h))"
    using oc_eq_add [OF oc_eq_ipv6_hdr_sum [OF assms(1)]] by (simp add: sum16_ipv6_pseudo [OF assms(1)])
  have w: "unat (ucast (?hdr + ?addr) :: u64) + 4294967296 = unat ?hdr + unat ?addr"
    using unat_add_wrap [of ?hdr ?addr] assms(2) by (simp add: unat_ucast64 ipv6_no_wrap_def)
  have "oc_eq 65535 (unat (checksum_ipv6_pseudoheader h)) (unat (ucast (?hdr + ?addr) :: u64))"
    using oc_eq_fold [of "ucast (?hdr + ?addr)"]
    by (simp add: checksum_ipv6_pseudoheader_def Let_def unat_ucast16)
  then have "(unat (checksum_ipv6_pseudoheader h) + 1) mod 65535 = (unat (ucast (?hdr + ?addr) :: u64) + 4294967296) mod 65535"
    by (rule mod_add_cong [OF oc_eq_mod]) simp
  then show ?thesis using oc_eq_mod [OF s] by (simp only: w)
qed

theorem ipv6_pseudo_lost_carry_witness:
  "(unat (checksum_ipv6_pseudoheader (demo_header6 0xff)) + 1) mod 65535 = sum16 (ipv6_pseudo (demo_header6 0xff)) mod 65535"
  by (rule ipv6_pseudo_lost_carry) (simp_all only: demo_header6_len demo_header6_wraps not_False_eq_True)

text \<open>
  The trailing word of an odd number of 32-bit words is added without the end-around carry: when
  that addition overflows, the data checksum comes out one too small modulo 65535.
\<close>

theorem data_aligned_lost_carry:
  assumes "4 * len \<le> length data" "\<not> no_lost_carry data len"
  shows "(unat (checksum_data_aligned data len) + 1) mod 65535 = sum16 (take (4 * len) data) mod 65535"
proof -
  let ?s = "checksum_data64 data len" and ?last = "data_word data (len - 1)" and ?n = "8 * (len div 2)"
  have odd: "odd len" and ov: "2 ^ 64 \<le> unat ?s + unat (ucast ?last :: u64)"
    using assms(2) by (auto simp: no_lost_carry_def unat_ucast64)
  have n: "4 * (len - 1) = ?n" "4 * len = ?n + 4" using odd by (auto elim!: oddE)
  have w: "unat (?s + ucast ?last) + 18446744073709551616 = unat ?s + unat ?last"
    using unat_add_wrap [of ?s "ucast ?last"] ov by (simp add: unat_ucast64)
  have "oc_eq 65535 (unat ?s + unat ?last) (sum16 (take ?n data) + sum16 (take 4 (drop ?n data)))"
    using oc_eq_data_word [of data "len - 1"] n assms(1) by (intro oc_eq_add oc_eq_data64) simp_all
  moreover have "sum16 (take (4 * len) data) = sum16 (take ?n data) + sum16 (take 4 (drop ?n data))"
    using n(2) assms(1) by (simp add: take_add sum16_append)
  moreover have "oc_eq 65535 (unat (checksum_data_aligned data len)) (unat (?s + ucast ?last))"
    using odd oc_eq_fold64 [of "?s + ucast ?last"] by (simp add: checksum_data_aligned_def Let_def)
  then have "(unat (checksum_data_aligned data len) + 1) mod 65535 = (unat (?s + ucast ?last) + 18446744073709551616) mod 65535"
    by (rule mod_add_cong [OF oc_eq_mod]) simp
  ultimately show ?thesis using oc_eq_mod by (simp only: w)
qed

theorem data_aligned_lost_carry_witness:
  "(unat (checksum_data_aligned (replicate 12 0xff) 3) + 1) mod 65535 = sum16 (replicate 12 0xff) mod 65535"
proof -
  have "\<not> no_lost_carry (replicate 12 0xff) 3"
    by (simp add: no_lost_carry_def checksum_data64_def data_word_def accumulate64_def replicate_words)
  then show ?thesis using data_aligned_lost_carry [of 3 "replicate 12 0xff"] by simp
qed

end
