(* ===== verification/Pga_Prbs.thy ===== *)
theory Pga_Prbs
  imports Prelude
begin

text \<open>
  PRBS payloads of \<^verbatim>\<open>src/lib/spirent_pga\<close>: the word step (\<^verbatim>\<open>common/prbs.h\<close>), the scalar fill and
  verify routines (\<^verbatim>\<open>scalar/prbs.cpp\<close>) and the entry points that handle the unaligned ends of a
  payload (\<^verbatim>\<open>common/fill.cpp\<close>, \<^verbatim>\<open>common/verify.cpp\<close>).

  The reference is the one-bit shift register of PRBS23: a word of the payload is the complement of
  32 consecutive bits of its output, most significant bit first. A fill operation is the list of
  the bytes it writes from the start of the payload on, with the seed it returns.
\<close>

unbundle bit_operations_syntax

subsection \<open>Word step\<close>

definition shift_left :: "u32 \<Rightarrow> nat \<Rightarrow> u32" where
  "shift_left v count =
     (let v = v AND 0x7fffff in push_bit count (push_bit 23 v OR v) OR drop_bit (23 - count) v)"

definition prbs_step :: "u32 \<Rightarrow> u32" where
  "prbs_step seed =
     (shift_left seed 9 AND 0xffffffff) XOR (shift_left seed 14 AND 0xfffffe00)
     XOR (shift_left seed 19 AND 0x00003fff)"

subsection \<open>Scalar routines\<close>

fun fill_prbs_aligned :: "nat \<Rightarrow> u32 \<Rightarrow> u8 list \<times> u32" where
  "fill_prbs_aligned 0 seed = ([], seed)"
| "fill_prbs_aligned (Suc len) seed =
     (let previous = seed;
          seed = prbs_step seed;
          (rest, last) = fill_prbs_aligned len seed in
        (le_store 4 (htonl (NOT previous)) @ rest, last))"

definition popcount :: "'a::len word \<Rightarrow> nat" where
  "popcount w = length (filter (bit w) [0..<LENGTH('a)])"

definition payload_word :: "u8 list \<Rightarrow> nat \<Rightarrow> u32" where
  "payload_word payload k = ntohl (le_load (take 4 (drop (4 * k) payload)))"

function verify_sync :: "u8 list \<Rightarrow> nat \<Rightarrow> nat \<Rightarrow> u32 \<Rightarrow> nat \<Rightarrow> u32 \<Rightarrow> nat \<times> u32 \<times> u32" where
  "verify_sync payload len offset expected sync_steps bit_errors =
     (if offset + 1 < len
      then let loop_errors = popcount (payload_word payload offset XOR NOT expected);
               bit_errors = bit_errors + of_nat loop_errors;
               sync_steps = (if loop_errors \<noteq> 0 then 0 else sync_steps + 1) in
             if sync_steps > 1 then (offset, expected, bit_errors)
             else verify_sync payload len (offset + 1) (prbs_step (NOT (payload_word payload offset)))
                    sync_steps bit_errors
      else (offset, expected, bit_errors))"
  by pat_completeness auto
termination
  by (relation "measure (\<lambda>(payload, len, offset, expected, sync_steps, bit_errors). len - offset)") auto

definition verify_prbs_aligned :: "u8 list \<Rightarrow> nat \<Rightarrow> u32 \<Rightarrow> u64" where
  "verify_prbs_aligned payload len expected =
     (let (offset, expected, bit_errors) = verify_sync payload len 0 expected 0 0;
          (expected, bit_errors) =
            fold (\<lambda>k (expected, bit_errors).
                    let expected = prbs_step expected in
                      (expected, bit_errors + of_nat (popcount (payload_word payload k XOR NOT expected))))
              [offset + 1..<len] (expected, bit_errors) in
        push_bit 32 (ucast (prbs_step expected)) OR ucast bit_errors)"

declare verify_sync.simps [simp del]

subsection \<open>Entry points\<close>

type_synonym fill_fn = "nat \<Rightarrow> u32 \<Rightarrow> u8 list \<times> u32"
type_synonym verify_fn = "u8 list \<Rightarrow> nat \<Rightarrow> u32 \<Rightarrow> u64"

definition seed_byte :: "u32 \<Rightarrow> nat \<Rightarrow> u8" where
  "seed_byte seed shift = ucast (drop_bit shift (NOT seed) AND 0xff)"

definition prbs_head :: "nat \<Rightarrow> u32 \<Rightarrow> u8 list \<times> u32" where
  "prbs_head payload_address seed =
     (let align = payload_address mod 4; next = prbs_step seed in
        if align = 0 then ([], seed)
        else if align = 1 then
          ([seed_byte seed 24, seed_byte seed 16, seed_byte seed 8], push_bit 24 seed OR drop_bit 8 next)
        else if align = 2 then
          ([seed_byte seed 24, seed_byte seed 16], push_bit 16 seed OR drop_bit 16 next)
        else ([seed_byte seed 24], push_bit 8 seed OR drop_bit 24 next))"

definition prbs_tail :: "nat \<Rightarrow> u32 \<Rightarrow> u8 list \<times> u32" where
  "prbs_tail rest seed =
     (let next = prbs_step seed in
        if rest = 0 then ([], seed)
        else if rest = 1 then ([seed_byte seed 24], push_bit 24 seed OR drop_bit 8 next)
        else if rest = 2 then
          ([seed_byte seed 24, seed_byte seed 16], push_bit 16 seed OR drop_bit 16 next)
        else
          ([seed_byte seed 24, seed_byte seed 16, seed_byte seed 8], push_bit 8 seed OR drop_bit 24 next))"

definition fill_prbs :: "fill_fn \<Rightarrow> nat \<Rightarrow> nat \<Rightarrow> u32 \<Rightarrow> u8 list \<times> u32" where
  "fill_prbs impl payload_address len seed =
     (let (head, seed) = prbs_head payload_address seed;
          idx = length head;
          aligned_length = (len - idx) div 4;
          (body, seed) = impl aligned_length seed;
          idx = idx + aligned_length * 4;
          (tail, seed) = prbs_tail (nat ((int len - int idx) mod 4)) seed in
        (head @ body @ tail, seed))"

record verify_results =
  seed :: u32
  bit_errors :: u32

definition to_verify_results :: "u64 \<Rightarrow> verify_results" where
  "to_verify_results results =
     \<lparr>seed = ucast (drop_bit 32 results), bit_errors = ucast (results AND 0xffffffff)\<rparr>"

definition tail_errors :: "u32 \<Rightarrow> u8 list \<Rightarrow> nat \<Rightarrow> nat \<Rightarrow> u32" where
  "tail_errors s payload idx rest =
     (let p = (\<lambda>k. ucast (payload ! (idx + k)) :: u32) in
        if rest = 1 then of_nat (popcount (drop_bit 24 (NOT s) XOR p 0))
        else if rest = 2 then of_nat (popcount (drop_bit 16 (NOT s) XOR (push_bit 8 (p 0) OR p 1)))
        else if rest = 3 then
          of_nat (popcount (drop_bit 8 (NOT s) XOR (push_bit 16 (p 0) OR push_bit 8 (p 1) OR p 2)))
        else 0)"

definition verify_prbs :: "verify_fn \<Rightarrow> nat \<Rightarrow> u8 list \<Rightarrow> nat \<Rightarrow> u32" where
  "verify_prbs impl payload_address payload len =
     (if len < 8 then 0
      else
        let s = NOT (push_bit 24 (ucast (payload ! 0)) OR push_bit 16 (ucast (payload ! 1))
                     OR push_bit 8 (ucast (payload ! 2)) OR ucast (payload ! 3));
            align = payload_address mod 4;
            next = prbs_step s;
            (s, idx) =
              (if align = 0 then (s, 0)
               else if align = 1 then (push_bit 24 s OR drop_bit 8 next, 3)
               else if align = 2 then (push_bit 16 s OR drop_bit 16 next, 2)
               else (push_bit 8 s OR drop_bit 24 next, 1));
            aligned_length = (len - idx) div 4;
            results = to_verify_results (impl (drop idx payload) aligned_length s);
            idx = idx + aligned_length * 4 in
          bit_errors results + tail_errors (seed results) payload idx ((len - idx) mod 4))"

subsection \<open>The shift register\<close>

definition lfsr :: "u32 \<Rightarrow> u32" where
  "lfsr s = push_bit 1 s OR (if bit s 22 \<noteq> bit s 17 then 1 else 0)"

lemma bit_lfsr: "bit (lfsr s) i \<longleftrightarrow> i < 32 \<and> (if i = 0 then bit s 22 \<noteq> bit s 17 else bit s (i - 1))"
proof -
  have p: "bit (push_bit 1 s) i \<longleftrightarrow> i < 32 \<and> i \<noteq> 0 \<and> bit s (i - 1)"
    unfolding bit_push_bit_iff by auto
  show ?thesis unfolding lfsr_def bit_or_iff p by (auto simp: bit_1_iff)
qed

lemma bit_lfsr_pow:
  assumes "n \<le> 18" "i < 32"
  shows "bit ((lfsr ^^ n) s) i \<longleftrightarrow> (if n \<le> i then bit s (i - n) else bit s (i + 23 - n) \<noteq> bit s (i + 18 - n))"
  using assms
proof (induction n arbitrary: i)
  case (Suc n)
  show ?case
  proof (cases "i = 0")
    case True
    have "bit ((lfsr ^^ n) s) 22 = bit s (22 - n)" "bit ((lfsr ^^ n) s) 17 = bit s (17 - n)"
      using Suc by auto
    with True Suc.prems show ?thesis by (simp add: bit_lfsr)
  next
    case False
    with Suc.IH [of "i - 1"] Suc.prems show ?thesis
      by (auto simp: bit_lfsr Suc_diff_le le_diff_conv2)
  qed
qed simp

lemma bit_lfsr_high: "n \<le> i \<Longrightarrow> i < 32 \<Longrightarrow> bit ((lfsr ^^ n) s) i = bit s (i - n)"
proof (induction n arbitrary: i)
  case (Suc n)
  then show ?case by (auto simp: bit_lfsr)
qed simp

lemma bit_shift_left:
  assumes "0 < c" "c \<le> 23" "i < 32"
  shows "bit (shift_left s c) i \<longleftrightarrow> bit s ((i + 23 - c) mod 23)"
proof -
  have m: "(0x7fffff :: u32) = mask 23" by (simp add: mask_eq_exp_minus_1)
  consider "i < c" | "c \<le> i" "i < c + 23" | "c + 23 \<le> i" by linarith
  then show ?thesis
  proof cases
    case 1
    then have "(i + 23 - c) mod 23 = i + 23 - c" using assms by simp
    with 1 assms show ?thesis unfolding shift_left_def Let_def m by (auto simp: bit_simps add.commute)
  next
    case 2
    then have "(i + 23 - c) mod 23 = i - c" by (simp add: mod_if)
    with 2 assms show ?thesis unfolding shift_left_def Let_def m by (auto simp: bit_simps)
  next
    case 3
    with assms have "(i + 23 - c) mod 23 = i - c - 23" by (simp add: mod_if)
    with 3 assms show ?thesis unfolding shift_left_def Let_def m by (auto simp: bit_simps)
  qed
qed

lemma bit_prbs_step:
  assumes "i < 32"
  shows "bit (prbs_step s) i \<longleftrightarrow>
    (bit s ((14 + i) mod 23) \<noteq> (9 \<le> i \<and> bit s ((9 + i) mod 23))) \<noteq> (i < 14 \<and> bit s ((4 + i) mod 23))"
proof -
  have m: "(0xffffffff :: u32) = mask 32" "(0xfffffe00 :: u32) = push_bit 9 (mask 23)" "(0x3fff :: u32) = mask 14"
    by (simp_all add: mask_eq_exp_minus_1)
  have sh: "bit (shift_left s 9) i = bit s ((14 + i) mod 23)" "bit (shift_left s 14) i = bit s ((9 + i) mod 23)"
    "bit (shift_left s 19) i = bit s ((4 + i) mod 23)"
    using bit_shift_left [of 9 i s] bit_shift_left [of 14 i s] bit_shift_left [of 19 i s] assms
    by (simp_all add: add.commute [of i])
  show ?thesis
    unfolding prbs_step_def m bit_xor_iff bit_and_iff sh using assms by (auto simp: bit_simps)
qed

lemma prbs_step_lfsr: "prbs_step s = (lfsr ^^ 32) s"
proof (rule bit_word_eqI)
  fix i
  assume "i < LENGTH(32)"
  then have i: "i < 32" by simp
  define w where "w = (lfsr ^^ 16) s"
  have w: "bit w j \<longleftrightarrow> (if 16 \<le> j then bit s (j - 16) else bit s (7 + j) \<noteq> bit s (2 + j))" if "j < 32" for j
    using bit_lfsr_pow [of 16 j s] that by (simp add: w_def add.commute [of j] del: add_2_eq_Suc add_2_eq_Suc')
  have "(lfsr ^^ 32) s = (lfsr ^^ 16) w"
    using funpow_add [of 16 16 lfsr] by (simp add: w_def)
  then have l: "bit ((lfsr ^^ 32) s) i \<longleftrightarrow> (if 16 \<le> i then bit w (i - 16) else bit w (7 + i) \<noteq> bit w (2 + i))"
    using bit_lfsr_pow [of 16 i w] i by (simp add: add.commute [of i] del: add_2_eq_Suc add_2_eq_Suc')
  consider "i < 9" | "9 \<le> i" "i < 14" | "14 \<le> i" "i < 16" | "16 \<le> i" by linarith
  then show "bit (prbs_step s) i = bit ((lfsr ^^ 32) s) i"
    unfolding bit_prbs_step [OF i] l using i
    by cases (auto simp: w mod_if simp del: add_2_eq_Suc add_2_eq_Suc')
qed

lemma lfsr_window:
  assumes "k \<le> 32"
  shows "push_bit k s OR drop_bit (32 - k) (prbs_step s) = (lfsr ^^ k) s"
proof (rule bit_word_eqI)
  fix i
  assume "i < LENGTH(32)"
  then have i: "i < 32" by simp
  have "prbs_step s = (lfsr ^^ (32 - k)) ((lfsr ^^ k) s)"
    using assms funpow_add [of "32 - k" k lfsr] by (simp add: prbs_step_lfsr)
  then have "bit (prbs_step s) (i + (32 - k)) \<longleftrightarrow> i + (32 - k) < 32 \<and> bit ((lfsr ^^ k) s) i"
    using bit_lfsr_high [of "32 - k" "i + (32 - k)" "(lfsr ^^ k) s"] bit_imp_le_length [of "prbs_step s" "i + (32 - k)"]
    by auto
  then show "bit (push_bit k s OR drop_bit (32 - k) (prbs_step s)) i = bit ((lfsr ^^ k) s) i"
    using bit_lfsr_high [of k i s] i assms by (auto simp: bit_simps add.commute)
qed

subsection \<open>Bytes of the sequence\<close>

text \<open>The payload bytes that spell the sequence from window \<open>s\<close> on.\<close>

fun prbs_bytes :: "nat \<Rightarrow> u32 \<Rightarrow> u8 list" where
  "prbs_bytes 0 s = []"
| "prbs_bytes (Suc n) s = NOT (ucast (drop_bit 24 s)) # prbs_bytes n ((lfsr ^^ 8) s)"

lemma length_prbs_bytes [simp]: "length (prbs_bytes n s) = n"
  by (induction n arbitrary: s) simp_all

lemma lfsr_pow_add: "(lfsr ^^ m) ((lfsr ^^ n) s) = (lfsr ^^ (m + n)) s"
  by (simp add: funpow_add)

lemma prbs_bytes_append: "prbs_bytes (m + n) s = prbs_bytes m s @ prbs_bytes n ((lfsr ^^ (8 * m)) s)"
  by (induction m arbitrary: s) (simp_all add: lfsr_pow_add add.commute)

lemma top_byte_window:
  assumes "j \<le> 24"
  shows "(ucast (drop_bit 24 ((lfsr ^^ j) s)) :: u8) = ucast (drop_bit (24 - j) s)"
proof (rule bit_word_eqI)
  fix i
  assume "i < LENGTH(8)"
  then show "bit (ucast (drop_bit 24 ((lfsr ^^ j) s)) :: u8) i = bit (ucast (drop_bit (24 - j) s) :: u8) i"
    using bit_lfsr_high [of j "24 + i" s] assms by (simp add: bit_simps)
qed

lemma seed_byte_eq: "seed_byte s k = NOT (ucast (drop_bit k s))" if "k \<le> 24"
  using that unfolding seed_byte_def and_ff by (intro bit_word_eqI) (auto simp: bit_simps)

lemma nth_prbs_bytes: "i < n \<Longrightarrow> prbs_bytes n s ! i = NOT (ucast (drop_bit 24 ((lfsr ^^ (8 * i)) s)))"
proof (induction n arbitrary: i s)
  case (Suc n)
  then show ?case by (cases i) (simp_all add: lfsr_pow_add add.commute)
qed simp

lemma nth_prbs_word: "i < n \<Longrightarrow> i < 4 \<Longrightarrow> prbs_bytes n s ! i = NOT (ucast (drop_bit (24 - 8 * i) s))"
  by (simp add: nth_prbs_bytes top_byte_window)

lemma seed_bytes:
  "[seed_byte s 24] = prbs_bytes 1 s"
  "[seed_byte s 24, seed_byte s 16] = prbs_bytes 2 s"
  "[seed_byte s 24, seed_byte s 16, seed_byte s 8] = prbs_bytes 3 s"
  by (auto intro!: nth_equalityI simp: nth_prbs_word seed_byte_eq less_Suc_eq nth_Cons')

lemma word_bytes: "le_store 4 (htonl (NOT s)) = prbs_bytes 4 s"
proof -
  have "le_store 4 (htonl (NOT s)) = be_store 4 (NOT s)"
    using le_store_net_swap [of "NOT s"] by simp
  also have "\<dots> = prbs_bytes 4 s"
  proof (rule nth_equalityI)
    fix i
    assume "i < length (be_store 4 (NOT s))"
    then consider "i = 0" | "i = 1" | "i = 2" | "i = 3" by fastforce
    then show "be_store 4 (NOT s) ! i = prbs_bytes 4 s ! i"
      by cases (auto simp: nth_be_store nth_prbs_word intro!: bit_word_eqI simp: bit_simps)
  qed simp
  finally show ?thesis .
qed

lemma fill_prbs_aligned_bytes: "fill_prbs_aligned n s = (prbs_bytes (4 * n) s, (lfsr ^^ (32 * n)) s)"
proof (induction n arbitrary: s)
  case (Suc n)
  have "prbs_bytes (4 * Suc n) s = prbs_bytes 4 s @ prbs_bytes (4 * n) ((lfsr ^^ 32) s)"
    using prbs_bytes_append [of 4 "4 * n" s] by simp
  with Suc [of "(lfsr ^^ 32) s"] show ?case
    by (simp add: Let_def word_bytes prbs_step_lfsr lfsr_pow_add add.commute)
qed simp

text \<open>The parts before and after the aligned words.\<close>

lemma prbs_head_bytes:
  "prbs_head a s = (prbs_bytes (head_length a) s, (lfsr ^^ (8 * head_length a)) s)"
proof -
  have "a mod 4 < 4" by simp
  then consider "a mod 4 = 0" | "a mod 4 = 1" | "a mod 4 = 2" | "a mod 4 = 3" by linarith
  then show ?thesis
    using lfsr_window [of 8 s] lfsr_window [of 16 s] lfsr_window [of 24 s]
    by cases (simp_all add: prbs_head_def head_length_def seed_bytes Let_def)
qed

text \<open>The window that is left after the tail: right for 2 bytes, 16 bits off for 1 and 3 bytes.\<close>

definition tail_window :: "nat \<Rightarrow> nat" where
  "tail_window rest = (if rest = 1 then 24 else if rest = 3 then 8 else 8 * rest)"

lemma prbs_tail_bytes:
  assumes "rest < 4"
  shows "prbs_tail rest s = (prbs_bytes rest s, (lfsr ^^ tail_window rest) s)"
proof -
  from assms consider "rest = 0" | "rest = 1" | "rest = 2" | "rest = 3" by linarith
  then show ?thesis
    using lfsr_window [of 8 s] lfsr_window [of 16 s] lfsr_window [of 24 s]
    by cases (simp_all add: prbs_tail_def tail_window_def seed_bytes Let_def)
qed

subsection \<open>Filling and verifying\<close>

locale prbs_routines =
  fixes fill_impl :: fill_fn and verify_impl :: verify_fn
  assumes fill_bytes: "fill_impl n s = (prbs_bytes (4 * n) s, (lfsr ^^ (32 * n)) s)"
    and verify_clean: "0 < n \<Longrightarrow> take (4 * n) payload = prbs_bytes (4 * n) s \<Longrightarrow>
      verify_impl payload n s = push_bit 32 (ucast ((lfsr ^^ (32 * n)) s))"

lemma payload_word_clean:
  assumes "take (4 * n) payload = prbs_bytes (4 * n) s" "k < n"
  shows "payload_word payload k = NOT ((lfsr ^^ (32 * k)) s)"
proof -
  have "take 4 (drop (4 * k) payload) = take 4 (drop (4 * k) (take (4 * n) payload))"
    using assms(2) by (simp add: drop_take min_def)
  also have "\<dots> = prbs_bytes 4 ((lfsr ^^ (32 * k)) s)"
  proof -
    have "4 * n = 4 * k + (4 + (4 * n - 4 * k - 4))" using assms(2) by simp
    then have "prbs_bytes (4 * n) s = prbs_bytes (4 * k) s @ prbs_bytes (4 + (4 * n - 4 * k - 4)) ((lfsr ^^ (8 * (4 * k))) s)"
      by (metis prbs_bytes_append)
    then show ?thesis unfolding assms(1) by (simp add: prbs_bytes_append)
  qed
  also have "\<dots> = le_store 4 (htonl (NOT ((lfsr ^^ (32 * k)) s)))" by (simp only: word_bytes)
  finally have "payload_word payload k = ntohl (le_load (le_store 4 (htonl (NOT ((lfsr ^^ (32 * k)) s)))))"
    by (simp only: payload_word_def)
  then show ?thesis
    using le_load_le_store [of "htonl (NOT ((lfsr ^^ (32 * k)) s))"] by (simp add: net_swap_net_swap)
qed

lemma popcount_zero [simp]: "popcount 0 = 0"
  by (simp add: popcount_def)

lemma popcount_xor_self: "popcount (w XOR w) = 0"
  by simp

lemma verify_sync_clean:
  assumes "1 < n" "payload_word payload 0 = NOT s" "payload_word payload 1 = NOT (prbs_step s)"
  shows "verify_sync payload n 0 s 0 0 = (1, prbs_step s, 0)"
proof -
  have "verify_sync payload n 0 s 0 0 = verify_sync payload n 1 (prbs_step s) 1 0"
    using assms by (subst verify_sync.simps) simp
  also have "\<dots> = (1, prbs_step s, 0)"
    using assms by (subst verify_sync.simps) simp
  finally show ?thesis .
qed

text \<open>The bit errors of the words behind the two that establish the sequence.\<close>

definition word_errors :: "u8 list \<Rightarrow> u32 \<Rightarrow> nat \<Rightarrow> nat" where
  "word_errors payload s n = (\<Sum>k = 2..<n. popcount (payload_word payload k XOR NOT ((lfsr ^^ (32 * k)) s)))"

lemma lfsr_step: "prbs_step ((lfsr ^^ n) s) = (lfsr ^^ (n + 32)) s"
  by (simp add: prbs_step_lfsr lfsr_pow_add add.commute)

lemma verify_in_sync:
  assumes "1 < n" "payload_word payload 0 = NOT s" "payload_word payload 1 = NOT (prbs_step s)"
  shows "verify_prbs_aligned payload n s =
    push_bit 32 (ucast ((lfsr ^^ (32 * n)) s)) OR ucast (of_nat (word_errors payload s n) :: u32)"
proof -
  let ?f = "\<lambda>k (expected, bit_errors :: u32). let expected = prbs_step expected in
      (expected, bit_errors + of_nat (popcount (payload_word payload k XOR NOT expected)))"
  let ?P = "\<lambda>k (e, b). e = (lfsr ^^ (32 * (k - 1))) s \<and> b = (of_nat (word_errors payload s k) :: u32)"
  have "?P n (fold ?f [2..<n] (prbs_step s, 0))"
  proof (rule fold_upt_from_invariant)
    show "?P 2 (prbs_step s, 0)" by (simp add: word_errors_def prbs_step_lfsr)
  next
    fix k and st :: "u32 \<times> u32"
    assume k: "2 \<le> k" and P: "?P k st"
    have "prbs_step ((lfsr ^^ (32 * (k - 1))) s) = (lfsr ^^ (32 * k)) s"
      using k by (simp add: lfsr_step algebra_simps)
    with P k show "?P (Suc k) (?f k st)"
      by (auto simp: Let_def word_errors_def)
  qed (use assms in simp)
  then obtain b where f: "fold ?f [2..<n] (prbs_step s, 0) = ((lfsr ^^ (32 * (n - 1))) s, b)"
    and b: "b = of_nat (word_errors payload s n)" by (auto split: prod.splits)
  have "prbs_step ((lfsr ^^ (32 * (n - 1))) s) = (lfsr ^^ (32 * n)) s"
    using assms(1) by (simp add: lfsr_step algebra_simps)
  then show ?thesis
    using f unfolding verify_prbs_aligned_def verify_sync_clean [OF assms]
    by (simp add: numeral_2_eq_2 b)
qed

lemma verify_prbs_aligned_clean:
  assumes "0 < n" "take (4 * n) payload = prbs_bytes (4 * n) s"
  shows "verify_prbs_aligned payload n s = push_bit 32 (ucast ((lfsr ^^ (32 * n)) s))"
proof (cases "n = 1")
  case True
  then have "verify_sync payload n 0 s 0 0 = (0, s, 0)" by (subst verify_sync.simps) simp
  with True show ?thesis by (simp add: verify_prbs_aligned_def prbs_step_lfsr)
next
  case False
  have w: "payload_word payload k = NOT ((lfsr ^^ (32 * k)) s)" if "k < n" for k
    using payload_word_clean [OF assms(2)] that .
  have "word_errors payload s n = 0" by (simp add: word_errors_def w)
  with False assms w [of 0] w [of 1] show ?thesis
    by (simp add: verify_in_sync prbs_step_lfsr)
qed

interpretation scalar_prbs: prbs_routines fill_prbs_aligned verify_prbs_aligned
  by unfold_locales (simp_all only: fill_prbs_aligned_bytes verify_prbs_aligned_clean)

lemma recover_seed:
  fixes s :: u32
  shows "NOT (push_bit 24 (ucast (NOT (ucast (drop_bit 24 s)) :: u8)) OR push_bit 16 (ucast (NOT (ucast (drop_bit 16 s)) :: u8))
     OR push_bit 8 (ucast (NOT (ucast (drop_bit 8 s)) :: u8)) OR ucast (NOT (ucast s) :: u8)) = s" (is "?w = s")
proof (rule bit_word_eqI)
  fix i
  assume "i < LENGTH(32)"
  then consider "i < 8" | "8 \<le> i" "i < 16" | "16 \<le> i" "i < 24" | "24 \<le> i" "i < 32" by fastforce
  then show "bit ?w i = bit s i"
    by cases (auto simp: bit_simps simp del: bit.de_Morgan_disj)
qed

lemma tail_words:
  fixes s :: u32
  shows "drop_bit 24 (NOT s) = (ucast (NOT (ucast (drop_bit 24 s)) :: u8) :: u32)"
  "drop_bit 16 (NOT s) = (push_bit 8 (ucast (NOT (ucast (drop_bit 24 s)) :: u8)) OR ucast (NOT (ucast (drop_bit 16 s)) :: u8) :: u32)"
  "drop_bit 8 (NOT s) = (push_bit 16 (ucast (NOT (ucast (drop_bit 24 s)) :: u8))
     OR push_bit 8 (ucast (NOT (ucast (drop_bit 16 s)) :: u8)) OR ucast (NOT (ucast (drop_bit 8 s)) :: u8) :: u32)"
proof -
  show "drop_bit 24 (NOT s) = ucast (NOT (ucast (drop_bit 24 s)) :: u8)"
    by (rule bit_word_eqI) (auto simp: bit_simps)
  show "drop_bit 16 (NOT s) = push_bit 8 (ucast (NOT (ucast (drop_bit 24 s)) :: u8)) OR ucast (NOT (ucast (drop_bit 16 s)) :: u8)"
    by (rule bit_word_eqI) (auto simp: bit_simps)
  show "drop_bit 8 (NOT s) = push_bit 16 (ucast (NOT (ucast (drop_bit 24 s)) :: u8))
     OR push_bit 8 (ucast (NOT (ucast (drop_bit 16 s)) :: u8)) OR ucast (NOT (ucast (drop_bit 8 s)) :: u8)" (is "_ = ?w")
  proof (rule bit_word_eqI)
    fix i
    assume "i < LENGTH(32)"
    then consider "i < 8" | "8 \<le> i" "i < 16" | "16 \<le> i" "i < 24" | "24 \<le> i" "i < 32" by fastforce
    then show "bit (drop_bit 8 (NOT s)) i = bit ?w i"
      by cases (auto simp: bit_simps)
  qed
qed

lemma tail_errors_clean:
  assumes "rest < 4" "\<And>k. k < rest \<Longrightarrow> payload ! (idx + k) = prbs_bytes rest s ! k"
  shows "tail_errors s payload idx rest = 0"
proof -
  from assms(1) consider "rest = 0" | "rest = 1" | "rest = 2" | "rest = 3" by linarith
  then show ?thesis
  proof cases
    case 2
    with assms(2) [of 0] show ?thesis by (simp add: tail_errors_def nth_prbs_word tail_words)
  next
    case 3
    with assms(2) [of 0] assms(2) [of 1] show ?thesis by (simp add: tail_errors_def nth_prbs_word tail_words)
  next
    case 4
    with assms(2) [of 0] assms(2) [of 1] assms(2) [of 2] show ?thesis
      by (simp add: tail_errors_def nth_prbs_word tail_words)
  qed (simp add: tail_errors_def)
qed

context prbs_routines
begin

lemma fill_prbs_bytes:
  assumes "head_length a \<le> len" "rest = (len - head_length a) mod 4"
  shows "fill_prbs fill_impl a len s =
    (prbs_bytes len s, (lfsr ^^ (8 * (len - rest) + tail_window rest)) s)"
proof -
  let ?h = "head_length a" and ?n = "(len - head_length a) div 4"
  have r: "rest < 4" using assms(2) by simp
  have len: "len = ?h + (4 * ?n + rest)" using assms by simp
  have nat: "nat ((int len - int (?h + ?n * 4)) mod 4) = rest"
    using len r by (metis (no_types, lifting) add.assoc add.commute add_diff_cancel_left' mult.commute
        nat_int of_nat_add int_ops(9) mod_less of_nat_numeral zmod_int)
  have "fill_prbs fill_impl a len s = (prbs_bytes ?h s @ prbs_bytes (4 * ?n) ((lfsr ^^ (8 * ?h)) s)
        @ prbs_bytes rest ((lfsr ^^ (32 * ?n)) ((lfsr ^^ (8 * ?h)) s)),
      (lfsr ^^ tail_window rest) ((lfsr ^^ (32 * ?n)) ((lfsr ^^ (8 * ?h)) s)))"
    unfolding fill_prbs_def prbs_head_bytes Let_def case_prod_conv length_prbs_bytes fill_bytes nat
      prbs_tail_bytes [OF r] ..
  moreover have "prbs_bytes len s = prbs_bytes ?h s @ prbs_bytes (4 * ?n) ((lfsr ^^ (8 * ?h)) s)
        @ prbs_bytes rest ((lfsr ^^ (32 * ?n)) ((lfsr ^^ (8 * ?h)) s))"
    by (subst len) (simp add: prbs_bytes_append)
  moreover have "tail_window rest + (32 * ?n + 8 * ?h) = 8 * (len - rest) + tail_window rest"
    using len by simp
  ultimately show ?thesis by (simp add: lfsr_pow_add)
qed

lemma verify_prbs_clean:
  assumes "take len payload = prbs_bytes len s" "len \<le> length payload"
  shows "verify_prbs verify_impl b payload len = 0"
proof (cases "len < 8")
  case False
  define h n rest where "h = head_length b" and "n = (len - h) div 4" and "rest = (len - h) mod 4"
  have h: "h < 4" by (simp add: h_def head_length_def)
  then have n: "0 < n" "len = h + (4 * n + rest)" "rest < 4" using False by (auto simp: n_def rest_def)
  have p: "payload ! i = prbs_bytes len s ! i" if "i < len" for i
    using that assms by (metis nth_take)
  have seed: "NOT (push_bit 24 (ucast (payload ! 0)) OR push_bit 16 (ucast (payload ! 1))
                     OR push_bit 8 (ucast (payload ! 2)) OR ucast (payload ! 3)) = s"
    using recover_seed [of s] False by (simp only: p nth_prbs_word) simp
  define s1 where "s1 = (lfsr ^^ (8 * h)) s"
  have win: "(if b mod 4 = 0 then (s, 0) else if b mod 4 = 1 then (push_bit 24 s OR drop_bit 8 (prbs_step s), 3)
      else if b mod 4 = 2 then (push_bit 16 s OR drop_bit 16 (prbs_step s), 2)
      else (push_bit 8 s OR drop_bit 24 (prbs_step s), 1)) = (s1, h)"
  proof -
    have "b mod 4 < 4" by simp
    then consider "b mod 4 = 0" | "b mod 4 = 1" | "b mod 4 = 2" | "b mod 4 = 3" by linarith
    then show ?thesis
      using lfsr_window [of 8 s] lfsr_window [of 16 s] lfsr_window [of 24 s]
      by cases (simp_all add: s1_def h_def head_length_def)
  qed
  have body: "prbs_bytes len s = prbs_bytes h s @ prbs_bytes (4 * n) s1 @ prbs_bytes rest ((lfsr ^^ (32 * n)) s1)"
    by (simp only: n(2) prbs_bytes_append s1_def lfsr_pow_add mult.assoc [symmetric]) simp
  have "take (4 * n) (drop h payload) = take (4 * n) (drop h (take len payload))"
    using n by (simp add: drop_take min_def)
  then have "take (4 * n) (drop h payload) = prbs_bytes (4 * n) s1"
    unfolding assms(1) body by simp
  then have v: "verify_impl (drop h payload) n s1 = push_bit 32 (ucast ((lfsr ^^ (32 * n)) s1))"
    using n(1) by (rule verify_clean [rotated])
  have r: "to_verify_results (push_bit 32 (ucast w)) = \<lparr>seed = w, bit_errors = 0\<rparr>" for w :: u32
  proof -
    have "(0xffffffff :: u64) = mask 32" by (simp add: mask_eq_exp_minus_1)
    then show ?thesis
      unfolding to_verify_results_def by (auto intro!: bit_word_eqI simp: bit_simps)
  qed
  have "tail_errors ((lfsr ^^ (32 * n)) s1) payload (h + n * 4) rest = 0"
    using n(3)
  proof (rule tail_errors_clean)
    fix k
    assume "k < rest"
    then have "payload ! (h + n * 4 + k) = prbs_bytes len s ! (h + n * 4 + k)"
      using n by (intro p) simp
    also have "\<dots> = prbs_bytes rest ((lfsr ^^ (32 * n)) s1) ! k"
      unfolding body by (simp add: nth_append)
    finally show "payload ! (h + n * 4 + k) = prbs_bytes rest ((lfsr ^^ (32 * n)) s1) ! k" .
  qed
  moreover have "(len - (h + n * 4)) mod 4 = rest" using n by simp
  moreover have "verify_prbs verify_impl b payload len =
      (let results = to_verify_results (verify_impl (drop h payload) n s1) in
         bit_errors results + tail_errors (seed results) payload (h + n * 4) ((len - (h + n * 4)) mod 4))"
    unfolding verify_prbs_def using False by (simp only: Let_def seed win case_prod_conv if_False n_def)
  ultimately show ?thesis by (simp add: v r)
qed (simp add: verify_prbs_def)

end

text \<open>
  C25: The word step of the generator is 32 steps of the PRBS23 shift register, and the bits of two
  consecutive words satisfy the recurrence of its polynomial: each bit is the exclusive or of the
  bits 23 and 18 places before it.
\<close>

theorem prbs_step_is_prbs23:
  "prbs_step s = (lfsr ^^ 32) s
    \<and> (\<forall>i<32. bit (push_bit 32 (ucast s) OR ucast (prbs_step s) :: u64) i \<longleftrightarrow>
        bit (push_bit 32 (ucast s) OR ucast (prbs_step s) :: u64) (i + 23) \<noteq>
        bit (push_bit 32 (ucast s) OR ucast (prbs_step s) :: u64) (i + 18))"
proof (intro conjI allI impI)
  show "prbs_step s = (lfsr ^^ 32) s" by (rule prbs_step_lfsr)
  fix i :: nat
  assume i: "i < 32"
  let ?c = "push_bit 32 (ucast s) OR ucast (prbs_step s) :: u64"
  have c: "bit ?c j \<longleftrightarrow> (if j < 32 then bit (prbs_step s) j else bit s (j - 32))" if "j < 64" for j
    using that by (auto simp: bit_simps dest: bit_imp_le_length)
  from i consider "i < 9" | "9 \<le> i" "i < 14" | "14 \<le> i" by linarith
  then show "bit ?c i \<longleftrightarrow> bit ?c (i + 23) \<noteq> bit ?c (i + 18)"
    using i by cases (auto simp: c bit_prbs_step mod_if add.commute)
qed

theorem prbs_step_is_prbs23_witness:
  "prbs_step 0x00abcdef = (lfsr ^^ 32) 0x00abcdef
    \<and> (bit (push_bit 32 (ucast (0x00abcdef :: u32)) OR ucast (prbs_step 0x00abcdef) :: u64) 5 \<longleftrightarrow>
        bit (push_bit 32 (ucast (0x00abcdef :: u32)) OR ucast (prbs_step 0x00abcdef) :: u64) (5 + 23) \<noteq>
        bit (push_bit 32 (ucast (0x00abcdef :: u32)) OR ucast (prbs_step 0x00abcdef) :: u64) (5 + 18))"
proof -
  have "(5 :: nat) < 32" by simp
  then show ?thesis using prbs_step_is_prbs23 by blast
qed

text \<open>
  C26: Whatever the alignment of the payload, filling writes exactly the bytes of the sequence that
  starts at the seed. The seed handed back is the window behind the last byte when the tail has 0 or
  2 bytes; with a tail of 1 byte it is 16 bits too far on, with a tail of 3 bytes 16 bits too far back.
\<close>

theorem fill_prbs_correct:
  assumes "head_length a \<le> len" and "rest = (len - head_length a) mod 4"
  shows "fill_prbs fill_prbs_aligned a len s =
    (prbs_bytes len s,
     (lfsr ^^ (if rest = 1 then 8 * len + 16 else if rest = 3 then 8 * len - 16 else 8 * len)) s)"
proof -
  have "rest \<le> len" using assms(2) by (metis diff_le_self mod_less_eq_dividend order_trans)
  then have "8 * (len - rest) + tail_window rest =
      (if rest = 1 then 8 * len + 16 else if rest = 3 then 8 * len - 16 else 8 * len)"
    by (auto simp: tail_window_def)
  with scalar_prbs.fill_prbs_bytes [OF assms] show ?thesis by simp
qed

theorem fill_prbs_correct_witness:
  "fill_prbs fill_prbs_aligned 1 8 1 = (prbs_bytes 8 1, (lfsr ^^ 80) 1)"
  using fill_prbs_correct [of 1 8 1 1] by (simp add: head_length_def)

lemma payload_word_seed:
  assumes "4 \<le> length payload"
  shows "NOT (push_bit 24 (ucast (payload ! 0)) OR push_bit 16 (ucast (payload ! 1))
       OR push_bit 8 (ucast (payload ! 2)) OR ucast (payload ! 3)) = NOT (payload_word payload 0)"
proof -
  have "payload_word payload 0 = be_load (take 4 payload)"
    using assms by (simp add: payload_word_def net_swap_le_load)
  also have "take 4 payload = [payload ! 0, payload ! 1, payload ! 2, payload ! 3]"
    using assms by (intro nth_equalityI) (auto simp: less_Suc_eq numeral_eq_Suc)
  also have "be_load \<dots> = push_bit 24 (ucast (payload ! 0)) OR push_bit 16 (ucast (payload ! 1))
       OR push_bit 8 (ucast (payload ! 2)) OR ucast (payload ! 3)"
    by (simp add: be_load_def push_bit_or push_bit_push_bit ac_simps)
  finally show ?thesis by (simp only:)
qed

lemma verify_prbs_words:
  assumes "2 \<le> n" "4 * n \<le> length payload"
  shows "verify_prbs impl 0 payload (4 * n) =
    bit_errors (to_verify_results (impl payload n (NOT (payload_word payload 0))))"
  using assms payload_word_seed [of payload] unfolding verify_prbs_def Let_def
  by (simp add: tail_errors_def del: bit.de_Morgan_disj)

lemma results_errors: "bit_errors (to_verify_results (push_bit 32 (ucast w) OR ucast (e :: u32))) = e" for w :: u32
proof -
  have m: "(0xffffffff :: u64) = mask 32" by (simp add: mask_eq_exp_minus_1)
  show ?thesis
    unfolding to_verify_results_def m by (auto intro!: bit_word_eqI simp: bit_simps)
qed

text \<open>
  Once the first two words of an aligned payload are consecutive words of the sequence, the
  reported count is the exact number of bits in which the following words differ from it.
\<close>

theorem verify_prbs_counts:
  assumes "2 \<le> n" "4 * n \<le> length payload"
    and "payload_word payload 0 = NOT s" "payload_word payload 1 = NOT (prbs_step s)"
  shows "verify_prbs verify_prbs_aligned 0 payload (4 * n) = of_nat (word_errors payload s n)"
  using assms by (simp add: verify_prbs_words verify_in_sync results_errors)

theorem verify_prbs_counts_witness:
  "verify_prbs verify_prbs_aligned 0 (prbs_bytes 8 1 @ [0, 0, 0, 0]) 12 =
     of_nat (word_errors (prbs_bytes 8 1 @ [0, 0, 0, 0]) 1 3)"
proof -
  let ?p = "prbs_bytes 8 1 @ [0, 0, 0, 0]"
  have "take (4 * 2) ?p = prbs_bytes (4 * 2) 1" by simp
  note w = payload_word_clean [OF this]
  show ?thesis
    using verify_prbs_counts [of 3 ?p 1] w [of 0] w [of 1] by (simp add: prbs_step_lfsr)
qed

text \<open>
  In a payload of 8 bytes no bit error is ever reported, whatever its contents: the second word
  is only checked when a third one follows.
\<close>

theorem verify_prbs_eight_bytes:
  assumes "8 \<le> length payload"
  shows "verify_prbs verify_prbs_aligned 0 payload 8 = 0"
proof -
  let ?s = "NOT (payload_word payload 0)"
  have "verify_sync payload 2 0 ?s 0 0 = (1, prbs_step ?s, 0)"
    by (subst verify_sync.simps) (simp add: verify_sync.simps [of _ _ "Suc 0"])
  then have "verify_prbs_aligned payload 2 ?s = push_bit 32 (ucast (prbs_step (prbs_step ?s)))"
    by (simp add: verify_prbs_aligned_def)
  with verify_prbs_words [of 2 payload verify_prbs_aligned] assms results_errors [of _ 0] show ?thesis by simp
qed

theorem verify_prbs_eight_bytes_witness:
  "verify_prbs verify_prbs_aligned 0 [1, 2, 3, 4, 5, 6, 7, 8] 8 = 0"
  by (rule verify_prbs_eight_bytes) simp

end
