(* ===== verification/Pga_Fill.thy ===== *)
theory Pga_Fill
  imports Pga_Prbs
begin

text \<open>
  Constant, incrementing and decrementing payloads (\<^verbatim>\<open>common/fill.cpp\<close>,
  \<^verbatim>\<open>scalar/fill_constant.cpp\<close>, \<^verbatim>\<open>scalar/fill_step.cpp\<close>) and the C entry points of
  \<^verbatim>\<open>src/lib/spirent_pga/api.cpp\<close> for payloads and signature flags. As in \<^verbatim>\<open>Pga_Prbs\<close> a fill operation
  is the list of the bytes it writes from the start of the payload on.
\<close>

unbundle bit_operations_syntax

subsection \<open>Scalar routines\<close>

fun fill_constant_aligned :: "nat \<Rightarrow> u32 \<Rightarrow> u8 list" where
  "fill_constant_aligned 0 v = []"
| "fill_constant_aligned (Suc len) v = le_store 4 v @ fill_constant_aligned len v"

definition step_word :: "u8 \<Rightarrow> u8 \<Rightarrow> u32" where
  "step_word v step =
     ucast v OR push_bit 8 (ucast (v + step * 1)) OR push_bit 16 (ucast (v + step * 2))
     OR push_bit 24 (ucast (v + step * 3))"

fun fill_step_aligned :: "nat \<Rightarrow> u8 \<Rightarrow> u8 \<Rightarrow> u8 list \<times> u8" where
  "fill_step_aligned 0 base step = ([], base)"
| "fill_step_aligned (Suc len) base step =
     (let v = base;
          (rest, last) = fill_step_aligned len (base + step * 4) step in
        (le_store 4 (step_word v step) @ rest, last))"

subsection \<open>Entry points\<close>

type_synonym constant_fn = "nat \<Rightarrow> u32 \<Rightarrow> u8 list"
type_synonym step_fn = "nat \<Rightarrow> u8 \<Rightarrow> u8 \<Rightarrow> u8 list \<times> u8"

definition hi_byte :: "u16 \<Rightarrow> u8" where
  "hi_byte v = ucast (drop_bit 8 v)"

definition lo_byte :: "u16 \<Rightarrow> u8" where
  "lo_byte v = ucast (v AND 0xff)"

definition swap16 :: "u16 \<Rightarrow> u16" where
  "swap16 v = push_bit 8 v OR drop_bit 8 v"

definition fixed_head :: "nat \<Rightarrow> u16 \<Rightarrow> u8 list \<times> u16" where
  "fixed_head payload_address v =
     (let align = payload_address mod 4 in
        if align = 0 then ([], v)
        else if align = 1 then ([hi_byte v, lo_byte v, hi_byte v], swap16 v)
        else if align = 2 then ([hi_byte v, lo_byte v], v)
        else ([hi_byte v], swap16 v))"

definition fixed_tail :: "nat \<Rightarrow> u16 \<Rightarrow> u8 list" where
  "fixed_tail rest v =
     (if rest = 0 then []
      else if rest = 1 then [hi_byte v]
      else if rest = 2 then [hi_byte v, lo_byte v]
      else [hi_byte v, lo_byte v, hi_byte v])"

definition fill_fixed :: "constant_fn \<Rightarrow> nat \<Rightarrow> nat \<Rightarrow> u16 \<Rightarrow> u8 list" where
  "fill_fixed impl payload_address len v =
     (let (head, v) = fixed_head payload_address v;
          idx = length head;
          aligned_length = (len - idx) div 4;
          body = impl aligned_length (htonl (push_bit 16 (ucast v) OR ucast v));
          idx = idx + aligned_length * 4 in
        head @ body @ fixed_tail (nat ((int len - int idx) mod 4)) v)"

function unaligned_loop :: "nat \<Rightarrow> nat \<Rightarrow> nat \<Rightarrow> u8 \<Rightarrow> u8 \<Rightarrow> u8 list \<times> u8" where
  "unaligned_loop payload_address len idx v step =
     (if idx < len \<and> (payload_address + idx) mod 4 \<noteq> 0
      then let (rest, last) = unaligned_loop payload_address len (idx + 1) (v + step) step in (v # rest, last)
      else ([], v))"
  by pat_completeness auto
termination
  by (relation "measure (\<lambda>(payload_address, len, idx, v, step). len - idx)") auto

definition fill_decr :: "step_fn \<Rightarrow> nat \<Rightarrow> nat \<Rightarrow> u8 \<Rightarrow> u8 list" where
  "fill_decr impl payload_address len v =
     (let (head, v) = unaligned_loop payload_address len 0 v (- 1);
          idx = length head;
          aligned_length = (len - idx) div 4;
          (body, v) = impl aligned_length v (- 1);
          idx = idx + aligned_length * 4;
          (tail, v) = unaligned_loop payload_address len idx v (- 1) in
        head @ body @ tail)"

definition fill_incr :: "step_fn \<Rightarrow> nat \<Rightarrow> nat \<Rightarrow> u8 \<Rightarrow> u8 list" where
  "fill_incr impl payload_address len v =
     (let (head, v) = unaligned_loop payload_address len 0 v 1;
          idx = length head;
          aligned_length = (len - idx) div 4;
          (body, v) = impl aligned_length v 1;
          idx = idx + aligned_length * 4;
          (tail, v) = unaligned_loop payload_address len idx v (- 1) in
        head @ body @ tail)"

declare unaligned_loop.simps [simp del]

subsection \<open>The C interface\<close>

definition fill_at :: "u8 list \<Rightarrow> packet_ptr \<Rightarrow> packet_ptr" where
  "fill_at bs p = p\<lparr>bytes := write_at 0 bs (bytes p)\<rparr>"

definition pga_fill_const ::
  "constant_fn \<Rightarrow> packet_ptr list \<Rightarrow> nat list \<Rightarrow> nat \<Rightarrow> u16 list \<Rightarrow> packet_ptr list" where
  "pga_fill_const impl payloads lengths count constants =
     fold (\<lambda>i ps. ps[i := fill_at (fill_fixed impl (address (ps ! i)) (lengths ! i) (constants ! i)) (ps ! i)])
       [0..<count] payloads"

definition pga_fill_decr ::
  "step_fn \<Rightarrow> packet_ptr list \<Rightarrow> nat list \<Rightarrow> nat \<Rightarrow> u8 list \<Rightarrow> packet_ptr list" where
  "pga_fill_decr impl payloads lengths count bases =
     fold (\<lambda>i ps. ps[i := fill_at (fill_decr impl (address (ps ! i)) (lengths ! i) (bases ! i)) (ps ! i)])
       [0..<count] payloads"

definition pga_fill_incr ::
  "step_fn \<Rightarrow> packet_ptr list \<Rightarrow> nat list \<Rightarrow> nat \<Rightarrow> u8 list \<Rightarrow> packet_ptr list" where
  "pga_fill_incr impl payloads lengths count bases =
     fold (\<lambda>i ps. ps[i := fill_at (fill_incr impl (address (ps ! i)) (lengths ! i) (bases ! i)) (ps ! i)])
       [0..<count] payloads"

definition pga_fill_prbs ::
  "fill_fn \<Rightarrow> packet_ptr list \<Rightarrow> nat list \<Rightarrow> nat \<Rightarrow> u32 \<Rightarrow> packet_ptr list \<times> u32" where
  "pga_fill_prbs impl payloads lengths count s =
     fold (\<lambda>i (ps, s). let (bs, s') = fill_prbs impl (address (ps ! i)) (lengths ! i) s in
                        (ps[i := fill_at bs (ps ! i)], s'))
       [0..<count] (payloads, s)"

definition pga_verify_prbs ::
  "verify_fn \<Rightarrow> packet_ptr list \<Rightarrow> nat list \<Rightarrow> nat \<Rightarrow> u32 list \<Rightarrow> u32 list \<times> bool" where
  "pga_verify_prbs impl payloads lengths count errors =
     (let errors = fold (\<lambda>i es. es[i := verify_prbs impl (address (payloads ! i)) (bytes (payloads ! i)) (lengths ! i)])
                     [0..<count] errors in
        (errors, list_ex (\<lambda>e. e \<noteq> 0) (take count errors)))"

datatype pga_signature_prbs = prbs_enable | prbs_disable
datatype pga_signature_timestamp = ts_first | ts_last
datatype pga_signature_status = status_valid | status_invalid

definition ts_bit :: u32 where "ts_bit = push_bit 0 1"
definition prbs_bit :: u32 where "prbs_bit = push_bit 1 1"
definition status_bit :: u32 where "status_bit = push_bit 2 1"

definition pga_signature_flag :: "pga_signature_prbs \<Rightarrow> pga_signature_timestamp \<Rightarrow> u32" where
  "pga_signature_flag prbs ts =
     (let flags = 0;
          flags = (if prbs = prbs_enable then flags OR prbs_bit else flags);
          flags = (if ts = ts_last then flags OR ts_bit else flags) in flags)"

definition pga_prbs_flag :: "u32 \<Rightarrow> pga_signature_prbs" where
  "pga_prbs_flag flags = (if flags AND prbs_bit \<noteq> 0 then prbs_enable else prbs_disable)"

definition pga_timestamp_flag :: "u32 \<Rightarrow> pga_signature_timestamp" where
  "pga_timestamp_flag flags = (if flags AND ts_bit \<noteq> 0 then ts_last else ts_first)"

definition pga_status_flag :: "u32 \<Rightarrow> pga_signature_status" where
  "pga_status_flag flags = (if flags AND status_bit \<noteq> 0 then status_valid else status_invalid)"

subsection \<open>Constant payloads\<close>

definition fixed_bytes :: "nat \<Rightarrow> u16 \<Rightarrow> u8 list" where
  "fixed_bytes n v = map (\<lambda>j. if even j then hi_byte v else lo_byte v) [0..<n]"

lemma length_fixed_bytes [simp]: "length (fixed_bytes n v) = n"
  by (simp add: fixed_bytes_def)

lemma swap16_bytes [simp]: "hi_byte (swap16 v) = lo_byte v" "lo_byte (swap16 v) = hi_byte v"
  unfolding hi_byte_def lo_byte_def swap16_def and_ff
  by (auto intro!: bit_word_eqI simp: bit_simps dest: bit_imp_le_length)

lemma fixed_bytes_append:
  "fixed_bytes (m + n) v = fixed_bytes m v @ fixed_bytes n (if even m then v else swap16 v)"
  by (rule nth_equalityI) (auto simp: fixed_bytes_def nth_append)

lemma fixed_bytes_small:
  "fixed_bytes 0 v = []" "fixed_bytes 1 v = [hi_byte v]" "fixed_bytes 2 v = [hi_byte v, lo_byte v]"
  "fixed_bytes 3 v = [hi_byte v, lo_byte v, hi_byte v]" "fixed_bytes 4 v = [hi_byte v, lo_byte v, hi_byte v, lo_byte v]"
  by (simp_all add: fixed_bytes_def upt_rec)

lemma constant_word: "le_store 4 (htonl (push_bit 16 (ucast v) OR ucast v)) = fixed_bytes 4 v"
proof -
  let ?w = "push_bit 16 (ucast v) OR ucast v :: u32"
  have "le_store 4 (htonl ?w) = be_store 4 ?w" using le_store_net_swap [of ?w] by simp
  also have "\<dots> = fixed_bytes 4 v"
  proof (rule nth_equalityI)
    fix i
    assume "i < length (be_store 4 ?w)"
    then consider "i = 0" | "i = 1" | "i = 2" | "i = 3" by fastforce
    then show "be_store 4 ?w ! i = fixed_bytes 4 v ! i"
      unfolding fixed_bytes_small hi_byte_def lo_byte_def and_ff
      by cases (auto simp: nth_be_store intro!: bit_word_eqI simp: bit_simps bit_beyond)
  qed simp
  finally show ?thesis .
qed

lemma fill_constant_bytes:
  "fill_constant_aligned n (htonl (push_bit 16 (ucast v) OR ucast v)) = fixed_bytes (4 * n) v"
proof (induction n)
  case (Suc n)
  then show ?case using fixed_bytes_append [of 4 "4 * n" v] by (simp add: constant_word)
qed (simp add: fixed_bytes_small)

lemma fixed_head_bytes:
  "fixed_head a v = (fixed_bytes (head_length a) v, if even (head_length a) then v else swap16 v)"
  using head_length_cases [of a] by (auto simp: fixed_head_def fixed_bytes_small [unfolded One_nat_def])

lemma fixed_tail_bytes: "rest < 4 \<Longrightarrow> fixed_tail rest v = fixed_bytes rest v"
proof -
  assume "rest < 4"
  then consider "rest = 0" | "rest = 1" | "rest = 2" | "rest = 3" by linarith
  then show ?thesis by cases (simp_all add: fixed_tail_def fixed_bytes_small [unfolded One_nat_def])
qed

lemma tail_count:
  assumes "(len :: nat) = h + (4 * n + rest)" "rest < 4"
  shows "nat ((int len - int (h + n * 4)) mod 4) = rest"
  using assms by simp

text \<open>
  Filling with a constant writes the two bytes of the constant alternately, high byte first,
  over exactly the requested length, whatever the alignment of the payload.
\<close>

theorem fill_fixed_correct:
  assumes "head_length a \<le> len"
  shows "fill_fixed fill_constant_aligned a len v = fixed_bytes len v"
proof -
  define h n rest where "h = head_length a" and "n = (len - h) div 4" and "rest = (len - h) mod 4"
  have len: "len = h + (4 * n + rest)" "rest < 4" using assms by (simp_all add: h_def n_def rest_def)
  have "fill_fixed fill_constant_aligned a len v = fixed_bytes h v
      @ fixed_bytes (4 * n) (if even h then v else swap16 v) @ fixed_bytes rest (if even h then v else swap16 v)"
    unfolding fill_fixed_def fixed_head_bytes Let_def case_prod_conv length_fixed_bytes
      h_def [symmetric] n_def [symmetric] fill_constant_bytes tail_count [OF len] fixed_tail_bytes [OF len(2)] ..
  also have "\<dots> = fixed_bytes len v"
    by (subst len(1)) (simp add: fixed_bytes_append)
  finally show ?thesis .
qed

theorem fill_fixed_correct_witness:
  "fill_fixed fill_constant_aligned 3 10 0xabcd = fixed_bytes 10 0xabcd"
  by (rule fill_fixed_correct) (simp add: head_length_def)

subsection \<open>Counting payloads\<close>

definition step_bytes :: "nat \<Rightarrow> u8 \<Rightarrow> u8 \<Rightarrow> u8 list" where
  "step_bytes n v step = map (\<lambda>j. v + of_nat j * step) [0..<n]"

lemma length_step_bytes [simp]: "length (step_bytes n v step) = n"
  by (simp add: step_bytes_def)

lemma step_bytes_append:
  "step_bytes (m + n) v step = step_bytes m v step @ step_bytes n (v + of_nat m * step) step"
  by (rule nth_equalityI) (auto simp: step_bytes_def nth_append algebra_simps simp flip: of_nat_add)

lemma step_word_bytes: "le_store 4 (step_word v step) = step_bytes 4 v step"
proof -
  let ?bs = "[v, v + step * 1, v + step * 2, v + step * 3]"
  have w: "step_word v step = le_load ?bs"
    by (simp add: step_word_def push_bit_or push_bit_push_bit ac_simps)
  have "le_store (length ?bs) (le_load ?bs :: u32) = ?bs" by (rule le_store_le_load) simp
  moreover have "length ?bs = 4" by simp
  ultimately have "le_store 4 (step_word v step) = ?bs" unfolding w by (simp only:)
  then show ?thesis by (simp add: step_bytes_def upt_rec mult.commute)
qed

lemma fill_step_bytes: "fill_step_aligned n v step = (step_bytes (4 * n) v step, v + of_nat (4 * n) * step)"
proof (induction n arbitrary: v)
  case (Suc n)
  then show ?case
    using step_bytes_append [of 4 "4 * n" v step]
    by (simp add: Let_def step_word_bytes algebra_simps)
qed (simp add: step_bytes_def)

lemma unaligned_loop_aligned: "(a + idx) mod 4 = 0 \<or> len \<le> idx \<Longrightarrow> unaligned_loop a len idx v step = ([], v)"
  by (subst unaligned_loop.simps) auto

lemma unaligned_loop_head:
  "unaligned_loop a len 0 v step = (step_bytes (min len (head_length a)) v step, v + of_nat (min len (head_length a)) * step)"
proof -
  have "unaligned_loop a len idx w step =
      (step_bytes (min (len - idx) (head_length (a + idx))) w step, w + of_nat (min (len - idx) (head_length (a + idx))) * step)"
    for idx w
  proof (induction "len - idx" arbitrary: idx w rule: less_induct)
    case less
    show ?case
    proof (cases "idx < len \<and> (a + idx) mod 4 \<noteq> 0")
      case True
      have h: "head_length (a + idx) = Suc (head_length (a + (idx + 1)))"
        using True head_length_cases [of "a + idx"] head_length_cases [of "a + (idx + 1)"]
        by (auto simp: mod_Suc)
      have s: "step_bytes (Suc n) w step = w # step_bytes n (w + step) step" for n
        using step_bytes_append [of 1 n w step] by (simp add: step_bytes_def)
      have lt: "idx < len" using True by simp
      then have l: "len - idx = Suc (len - (idx + 1))" by simp
      have "len - (idx + 1) < len - idx" using lt by simp
      note ih = less [OF this, of "w + step"]
      have "unaligned_loop a len idx w step =
          (let (rest, last) = unaligned_loop a len (idx + 1) (w + step) step in (w # rest, last))"
        using True by (subst unaligned_loop.simps) simp
      also have "\<dots> = (step_bytes (Suc (min (len - (idx + 1)) (head_length (a + (idx + 1))))) w step,
          w + of_nat (Suc (min (len - (idx + 1)) (head_length (a + (idx + 1))))) * step)"
        unfolding ih by (simp add: s algebra_simps)
      finally show ?thesis unfolding h l min_Suc_Suc .
    next
      case False
      then show ?thesis
        using head_length_cases [of "a + idx"] unaligned_loop_aligned [of a idx len w step]
        by (auto simp: step_bytes_def)
    qed
  qed
  from this [of 0 v] show ?thesis by simp
qed

lemma unaligned_tail:
  assumes "h = min len (head_length a)" "n = (len - h) div 4"
  shows "unaligned_loop a len (h + n * 4) v step = ([], v)"
proof (rule unaligned_loop_aligned)
  show "(a + (h + n * 4)) mod 4 = 0 \<or> len \<le> h + n * 4"
    using assms head_length_cases [of a] by (cases "len \<le> head_length a") (auto, presburger+)
qed

lemma fill_steps:
  assumes "h = min len (head_length a)" "n = (len - h) div 4"
  shows "fill_incr fill_step_aligned a len v = step_bytes (h + 4 * n) v 1"
    and "fill_decr fill_step_aligned a len v = step_bytes (h + 4 * n) v (- 1)"
  unfolding fill_incr_def fill_decr_def unaligned_loop_head Let_def case_prod_conv length_step_bytes
    assms(1) [symmetric] assms(2) [symmetric] fill_step_bytes unaligned_tail [OF assms] append_Nil2 step_bytes_append
  by simp_all

text \<open>
  The incrementing and decrementing fills write consecutive byte values from the start of the
  payload up to the last 32-bit boundary in it, whatever its alignment; the one to three bytes behind
  that boundary are never written, because the loop for them only runs at an unaligned address.
\<close>

theorem fill_step_stops_at_boundary:
  assumes "h = min len (head_length a)" "written = len - (len - h) mod 4"
  shows "fill_incr fill_step_aligned a len v = map (\<lambda>j. v + of_nat j) [0..<written]
    \<and> fill_decr fill_step_aligned a len v = map (\<lambda>j. v - of_nat j) [0..<written]"
proof -
  have "h + 4 * ((len - h) div 4) = written"
  proof -
    have "h \<le> len" using assms(1) by simp
    then have "len = h + (4 * ((len - h) div 4) + (len - h) mod 4)" by simp
    then show ?thesis using assms(2) by linarith
  qed
  then show ?thesis using fill_steps [OF assms(1) refl, of v] by (simp add: step_bytes_def)
qed

theorem fill_step_stops_at_boundary_witness:
  "fill_incr fill_step_aligned 0 7 5 = [5, 6, 7, 8]"
  using fill_step_stops_at_boundary [of 0 7 0 4 5] by (simp add: head_length_def upt_rec)

subsection \<open>Filling and verifying batches\<close>

definition fillable :: "packet_ptr \<Rightarrow> nat \<Rightarrow> bool" where
  "fillable p len \<longleftrightarrow> head_length (address p) \<le> len \<and> len \<le> length (bytes p)"

definition filled :: "packet_ptr \<Rightarrow> packet_ptr \<Rightarrow> nat \<Rightarrow> bool" where
  "filled q p len \<longleftrightarrow> address q = address p \<and> drop len (bytes q) = drop len (bytes p)
     \<and> length (bytes q) = length (bytes p) \<and> (\<exists>s. take len (bytes q) = prbs_bytes len s)"

lemma fill_at_filled:
  assumes "fillable p len"
  shows "filled (fill_at (fst (fill_prbs fill_prbs_aligned (address p) len s)) p) p len"
  using assms scalar_prbs.fill_prbs_bytes [of "address p" len _ s]
  by (auto simp: filled_def fill_at_def fillable_def write_at_def)

lemma pga_fill_prbs_filled:
  assumes "count \<le> length payloads" "\<forall>i<count. fillable (payloads ! i) (lengths ! i)"
    and "ps = fst (pga_fill_prbs fill_prbs_aligned payloads lengths count s)"
  shows "length ps = length payloads \<and> (\<forall>i<count. filled (ps ! i) (payloads ! i) (lengths ! i))"
proof -
  let ?P = "\<lambda>k (ps, s). length ps = length payloads \<and> (\<forall>i<k. filled (ps ! i) (payloads ! i) (lengths ! i))
      \<and> (\<forall>i. k \<le> i \<longrightarrow> i < length payloads \<longrightarrow> ps ! i = payloads ! i)"
  have "?P count (pga_fill_prbs fill_prbs_aligned payloads lengths count s)"
    unfolding pga_fill_prbs_def
  proof (rule fold_upt_invariant)
    fix k and st :: "packet_ptr list \<times> u32"
    assume k: "k < count" and P: "?P k st"
    obtain qs s1 where st: "st = (qs, s1)" by fastforce
    have q: "qs ! k = payloads ! k" "length qs = length payloads" using P k assms(1) by (simp_all add: st)
    obtain bs s2 where f: "fill_prbs fill_prbs_aligned (address (qs ! k)) (lengths ! k) s1 = (bs, s2)" by fastforce
    have "filled (fill_at bs (payloads ! k)) (payloads ! k) (lengths ! k)"
      using fill_at_filled [of "payloads ! k" "lengths ! k" s1] assms(2) k f q by simp
    with P k q f assms(1) show "?P (Suc k) (case st of (ps, s) \<Rightarrow> let (bs, s') = fill_prbs fill_prbs_aligned (address (ps ! k)) (lengths ! k) s in
                        (ps[k := fill_at bs (ps ! k)], s'))"
      by (auto simp: st nth_list_update less_Suc_eq)
  qed simp
  then show ?thesis by (auto simp: assms(3) split: prod.splits)
qed

text \<open>
  C24: Verifying the payloads that the C entry point filled reports no bit error for any of them and
  answers false; the bytes behind the filled lengths are unchanged.
\<close>

theorem pga_prbs_round_trip:
  assumes "count \<le> length payloads" "count \<le> length errors" "\<forall>i<count. fillable (payloads ! i) (lengths ! i)"
    and "ps = fst (pga_fill_prbs fill_prbs_aligned payloads lengths count s)"
  shows "pga_verify_prbs verify_prbs_aligned ps lengths count errors = (write_at 0 (replicate count 0) errors, False)
    \<and> (\<forall>i<count. drop (lengths ! i) (bytes (ps ! i)) = drop (lengths ! i) (bytes (payloads ! i)))"
proof -
  have filled: "filled (ps ! i) (payloads ! i) (lengths ! i)" if "i < count" for i
    using pga_fill_prbs_filled [OF assms(1,3,4)] that by simp
  have v: "verify_prbs verify_prbs_aligned (address (ps ! i)) (bytes (ps ! i)) (lengths ! i) = 0" if "i < count" for i
    using filled [OF that] assms(3) that by (auto simp: filled_def fillable_def intro: scalar_prbs.verify_prbs_clean)
  let ?e = "fold (\<lambda>i es. es[i := verify_prbs verify_prbs_aligned (address (ps ! i)) (bytes (ps ! i)) (lengths ! i)])
      [0..<count] errors"
  have e: "length ?e = length errors" "\<forall>i<length errors. ?e ! i = (if i < count then 0 else errors ! i)"
    using fold_shift_update [of 0 count errors] assms(2) v by auto
  then have "?e = write_at 0 (replicate count 0) errors"
    using assms(2) by (intro nth_equalityI) (simp_all add: nth_write_at)
  then show ?thesis
    using filled assms(2) by (auto simp: pga_verify_prbs_def filled_def write_at_def list_ex_iff)
qed

theorem pga_prbs_round_trip_witness:
  "snd (pga_verify_prbs verify_prbs_aligned
     (fst (pga_fill_prbs fill_prbs_aligned [\<lparr>address = 1, bytes = replicate 16 0\<rparr>] [13] 1 7)) [13] 1 [9]) = False"
  using pga_prbs_round_trip [of 1 "[\<lparr>address = 1, bytes = replicate 16 0\<rparr>]" "[9]" "[13]", OF _ _ _ refl]
  by (simp add: fillable_def head_length_def)

end
