(* ===== verification/Bpf_Vm.thy ===== *)
theory Bpf_Vm
  imports Prelude "HOL-Library.Monad_Syntax"
begin

text \<open>
  The packet filter machine of \<^verbatim>\<open>src/modules/packet/bpf/bsd/bpf_filter.c\<close>: the interpreter
  \<open>op_bpf_filter_ext\<close> and the validator \<open>op_bpf_validate_ext\<close>, in the configuration the build selects
  (\<^verbatim>\<open>OPENPERF_NETBSD_BPF\<close>, no kernel).

  The interpreter has a fault for every way in which the C code could go wrong: an unknown code
  (\<open>abort()\<close>), an instruction pointer outside the program, a scratch memory access out of bounds, a
  read of a scratch word that was never written, a division by a zero constant, a shift by 32 or
  more (undefined in C), and a packet access out of bounds. A scratch word is \<open>None\<close> until it is
  written. The instruction encoding is the one of the system header \<^verbatim>\<open>pcap/bpf.h\<close>.
\<close>

unbundle bit_operations_syntax

subsection \<open>Instructions\<close>

record bpf_insn =
  insn_code :: u16
  insn_jt :: u8
  insn_jf :: u8
  insn_k :: u32

definition insn :: "u16 \<Rightarrow> u8 \<Rightarrow> u8 \<Rightarrow> u32 \<Rightarrow> bpf_insn" where
  "insn c t e k = \<lparr>insn_code = c, insn_jt = t, insn_jf = e, insn_k = k\<rparr>"

definition BPF_CLASS :: "u16 \<Rightarrow> u16" where "BPF_CLASS code = code AND 0x07"
definition BPF_MODE :: "u16 \<Rightarrow> u16" where "BPF_MODE code = code AND 0xe0"
definition BPF_OP :: "u16 \<Rightarrow> u16" where "BPF_OP code = code AND 0xf0"
definition BPF_SRC :: "u16 \<Rightarrow> u16" where "BPF_SRC code = code AND 0x08"
definition BPF_MISCOP :: "u16 \<Rightarrow> u16" where "BPF_MISCOP code = code AND 0xf8"

definition BPF_LD :: u16 where "BPF_LD = 0x00"
definition BPF_LDX :: u16 where "BPF_LDX = 0x01"
definition BPF_ST :: u16 where "BPF_ST = 0x02"
definition BPF_STX :: u16 where "BPF_STX = 0x03"
definition BPF_ALU :: u16 where "BPF_ALU = 0x04"
definition BPF_JMP :: u16 where "BPF_JMP = 0x05"
definition BPF_RET :: u16 where "BPF_RET = 0x06"
definition BPF_MISC :: u16 where "BPF_MISC = 0x07"
definition BPF_W :: u16 where "BPF_W = 0x00"
definition BPF_H :: u16 where "BPF_H = 0x08"
definition BPF_B :: u16 where "BPF_B = 0x10"
definition BPF_IMM :: u16 where "BPF_IMM = 0x00"
definition BPF_ABS :: u16 where "BPF_ABS = 0x20"
definition BPF_IND :: u16 where "BPF_IND = 0x40"
definition BPF_MEM :: u16 where "BPF_MEM = 0x60"
definition BPF_LEN :: u16 where "BPF_LEN = 0x80"
definition BPF_MSH :: u16 where "BPF_MSH = 0xa0"
definition BPF_ADD :: u16 where "BPF_ADD = 0x00"
definition BPF_SUB :: u16 where "BPF_SUB = 0x10"
definition BPF_MUL :: u16 where "BPF_MUL = 0x20"
definition BPF_DIV :: u16 where "BPF_DIV = 0x30"
definition BPF_OR :: u16 where "BPF_OR = 0x40"
definition BPF_AND :: u16 where "BPF_AND = 0x50"
definition BPF_LSH :: u16 where "BPF_LSH = 0x60"
definition BPF_RSH :: u16 where "BPF_RSH = 0x70"
definition BPF_NEG :: u16 where "BPF_NEG = 0x80"
definition BPF_MOD :: u16 where "BPF_MOD = 0x90"
definition BPF_XOR :: u16 where "BPF_XOR = 0xa0"
definition BPF_JA :: u16 where "BPF_JA = 0x00"
definition BPF_JEQ :: u16 where "BPF_JEQ = 0x10"
definition BPF_JGT :: u16 where "BPF_JGT = 0x20"
definition BPF_JGE :: u16 where "BPF_JGE = 0x30"
definition BPF_JSET :: u16 where "BPF_JSET = 0x40"
definition BPF_K :: u16 where "BPF_K = 0x00"
definition BPF_X :: u16 where "BPF_X = 0x08"
definition BPF_A :: u16 where "BPF_A = 0x10"
definition BPF_TAX :: u16 where "BPF_TAX = 0x00"
definition BPF_TXA :: u16 where "BPF_TXA = 0x80"
definition BPF_COP :: u16 where "BPF_COP = 0x20"
definition BPF_COPX :: u16 where "BPF_COPX = 0x40"

lemmas bpf_codes = BPF_CLASS_def BPF_MODE_def BPF_OP_def BPF_SRC_def BPF_MISCOP_def BPF_LD_def BPF_LDX_def
  BPF_ST_def BPF_STX_def BPF_ALU_def BPF_JMP_def BPF_RET_def BPF_MISC_def BPF_W_def BPF_H_def BPF_B_def
  BPF_IMM_def BPF_ABS_def BPF_IND_def BPF_MEM_def BPF_LEN_def BPF_MSH_def BPF_ADD_def BPF_SUB_def
  BPF_MUL_def BPF_DIV_def BPF_OR_def BPF_AND_def BPF_LSH_def BPF_RSH_def BPF_NEG_def BPF_MOD_def
  BPF_XOR_def BPF_JA_def BPF_JEQ_def BPF_JGT_def BPF_JGE_def BPF_JSET_def BPF_K_def BPF_X_def BPF_A_def
  BPF_TAX_def BPF_TXA_def BPF_COP_def BPF_COPX_def

text \<open>The cases of the interpreter's switch, in its order.\<close>

datatype alu_op = Add | Sub | Mul | Div | Mod | And | Or | Xor | Lsh | Rsh
datatype jump_op = Jgt | Jge | Jeq | Jset
datatype operand = Src_X | Src_K
datatype ld_size = Word | Half | Byte

datatype op = Ret_K | Ret_A | Ld_Abs ld_size | Ld_Len | Ldx_Len | Ld_Ind ld_size | Ldx_Msh | Ld_Imm | Ldx_Imm
  | Ld_Mem | Ldx_Mem | St | Stx | Ja | Jump jump_op operand | Alu alu_op operand | Neg | Tax | Txa
  | Cop | Copx

definition op_table :: "(u16 \<times> op) list" where
  "op_table =
     [(BPF_RET OR BPF_K, Ret_K), (BPF_RET OR BPF_A, Ret_A),
      (BPF_LD OR BPF_W OR BPF_ABS, Ld_Abs Word), (BPF_LD OR BPF_H OR BPF_ABS, Ld_Abs Half),
      (BPF_LD OR BPF_B OR BPF_ABS, Ld_Abs Byte), (BPF_LD OR BPF_W OR BPF_LEN, Ld_Len),
      (BPF_LDX OR BPF_W OR BPF_LEN, Ldx_Len), (BPF_LD OR BPF_W OR BPF_IND, Ld_Ind Word),
      (BPF_LD OR BPF_H OR BPF_IND, Ld_Ind Half), (BPF_LD OR BPF_B OR BPF_IND, Ld_Ind Byte),
      (BPF_LDX OR BPF_MSH OR BPF_B, Ldx_Msh), (BPF_LD OR BPF_IMM, Ld_Imm), (BPF_LDX OR BPF_IMM, Ldx_Imm),
      (BPF_LD OR BPF_MEM, Ld_Mem), (BPF_LDX OR BPF_MEM, Ldx_Mem), (BPF_ST, St), (BPF_STX, Stx),
      (BPF_JMP OR BPF_JA, Ja),
      (BPF_JMP OR BPF_JGT OR BPF_K, Jump Jgt Src_K), (BPF_JMP OR BPF_JGE OR BPF_K, Jump Jge Src_K),
      (BPF_JMP OR BPF_JEQ OR BPF_K, Jump Jeq Src_K), (BPF_JMP OR BPF_JSET OR BPF_K, Jump Jset Src_K),
      (BPF_JMP OR BPF_JGT OR BPF_X, Jump Jgt Src_X), (BPF_JMP OR BPF_JGE OR BPF_X, Jump Jge Src_X),
      (BPF_JMP OR BPF_JEQ OR BPF_X, Jump Jeq Src_X), (BPF_JMP OR BPF_JSET OR BPF_X, Jump Jset Src_X),
      (BPF_ALU OR BPF_ADD OR BPF_X, Alu Add Src_X), (BPF_ALU OR BPF_SUB OR BPF_X, Alu Sub Src_X),
      (BPF_ALU OR BPF_MUL OR BPF_X, Alu Mul Src_X), (BPF_ALU OR BPF_DIV OR BPF_X, Alu Div Src_X),
      (BPF_ALU OR BPF_MOD OR BPF_X, Alu Mod Src_X), (BPF_ALU OR BPF_AND OR BPF_X, Alu And Src_X),
      (BPF_ALU OR BPF_OR OR BPF_X, Alu Or Src_X), (BPF_ALU OR BPF_XOR OR BPF_X, Alu Xor Src_X),
      (BPF_ALU OR BPF_LSH OR BPF_X, Alu Lsh Src_X), (BPF_ALU OR BPF_RSH OR BPF_X, Alu Rsh Src_X),
      (BPF_ALU OR BPF_ADD OR BPF_K, Alu Add Src_K), (BPF_ALU OR BPF_SUB OR BPF_K, Alu Sub Src_K),
      (BPF_ALU OR BPF_MUL OR BPF_K, Alu Mul Src_K), (BPF_ALU OR BPF_DIV OR BPF_K, Alu Div Src_K),
      (BPF_ALU OR BPF_MOD OR BPF_K, Alu Mod Src_K), (BPF_ALU OR BPF_AND OR BPF_K, Alu And Src_K),
      (BPF_ALU OR BPF_OR OR BPF_K, Alu Or Src_K), (BPF_ALU OR BPF_XOR OR BPF_K, Alu Xor Src_K),
      (BPF_ALU OR BPF_LSH OR BPF_K, Alu Lsh Src_K), (BPF_ALU OR BPF_RSH OR BPF_K, Alu Rsh Src_K),
      (BPF_ALU OR BPF_NEG, Neg), (BPF_MISC OR BPF_TAX, Tax), (BPF_MISC OR BPF_TXA, Txa),
      (BPF_MISC OR BPF_COP, Cop), (BPF_MISC OR BPF_COPX, Copx)]"

subsection \<open>The interpreter\<close>

datatype fault = Abort | Bad_pc | Bad_mem | Uninit_mem | Div_by_zero | Bad_shift | Bad_packet

datatype outcome = Ret u32 | Fault fault

record bpf_args =
  pkt :: "u8 list"
  wirelen :: nat
  buflen :: nat

record machine =
  acc :: u32
  idx :: u32
  mem :: "u32 option list"

datatype step = Stop outcome | Next machine nat

definition size_bytes :: "ld_size \<Rightarrow> nat" where
  "size_bytes s = (case s of Word \<Rightarrow> 4 | Half \<Rightarrow> 2 | Byte \<Rightarrow> 1)"

definition packet_read :: "bpf_args \<Rightarrow> ld_size \<Rightarrow> nat \<Rightarrow> u32 option" where
  "packet_read args s k =
     (if k + size_bytes s \<le> length (pkt args) then Some (be_load (take (size_bytes s) (drop k (pkt args))))
      else None)"

definition load_abs :: "bpf_args \<Rightarrow> ld_size \<Rightarrow> u32 \<Rightarrow> machine \<Rightarrow> step" where
  "load_abs args s k m =
     (let out = (case s of
                   Byte \<Rightarrow> unat k \<ge> buflen args
                 | _ \<Rightarrow> unat k > buflen args \<or> size_bytes s > buflen args - unat k) in
        if out then Stop (Ret 0)
        else case packet_read args s (unat k) of
               None \<Rightarrow> Stop (Fault Bad_packet)
             | Some v \<Rightarrow> Next (m\<lparr>acc := v\<rparr>) 0)"

definition load_ind :: "bpf_args \<Rightarrow> ld_size \<Rightarrow> u32 \<Rightarrow> machine \<Rightarrow> step" where
  "load_ind args s n m =
     (let k = idx m + n;
          out = (k < idx m \<or> unat k \<ge> buflen args
                 \<or> (s \<noteq> Byte \<and> size_bytes s > buflen args - unat k)) in
        if out then Stop (Ret 0)
        else case packet_read args s (unat k) of
               None \<Rightarrow> Stop (Fault Bad_packet)
             | Some v \<Rightarrow> Next (m\<lparr>acc := v\<rparr>) 0)"

definition load_msh :: "bpf_args \<Rightarrow> u32 \<Rightarrow> machine \<Rightarrow> step" where
  "load_msh args k m =
     (if unat k \<ge> buflen args then Stop (Ret 0)
      else case packet_read args Byte (unat k) of
             None \<Rightarrow> Stop (Fault Bad_packet)
           | Some v \<Rightarrow> Next (m\<lparr>idx := push_bit 2 (v AND 0xf)\<rparr>) 0)"

definition mem_load :: "machine \<Rightarrow> u32 \<Rightarrow> (u32 \<Rightarrow> machine) \<Rightarrow> step" where
  "mem_load m k f =
     (if unat k < length (mem m)
      then case mem m ! unat k of None \<Rightarrow> Stop (Fault Uninit_mem) | Some v \<Rightarrow> Next (f v) 0
      else Stop (Fault Bad_mem))"

definition mem_store :: "machine \<Rightarrow> u32 \<Rightarrow> u32 \<Rightarrow> step" where
  "mem_store m k v =
     (if unat k < length (mem m) then Next (m\<lparr>mem := (mem m)[unat k := Some v]\<rparr>) 0
      else Stop (Fault Bad_mem))"

definition alu :: "alu_op \<Rightarrow> operand \<Rightarrow> u32 \<Rightarrow> u32 \<Rightarrow> outcome + u32" where
  "alu f src a v =
     (case f of
        Add \<Rightarrow> Inr (a + v) | Sub \<Rightarrow> Inr (a - v) | Mul \<Rightarrow> Inr (a * v)
      | Div \<Rightarrow> if v = 0 then Inl (if src = Src_X then Ret 0 else Fault Div_by_zero) else Inr (a div v)
      | Mod \<Rightarrow> if v = 0 then Inl (if src = Src_X then Ret 0 else Fault Div_by_zero) else Inr (a mod v)
      | And \<Rightarrow> Inr (a AND v) | Or \<Rightarrow> Inr (a OR v) | Xor \<Rightarrow> Inr (a XOR v)
      | Lsh \<Rightarrow> if unat v < 32 then Inr (push_bit (unat v) a) else Inl (Fault Bad_shift)
      | Rsh \<Rightarrow> if unat v < 32 then Inr (drop_bit (unat v) a) else Inl (Fault Bad_shift))"

definition jump_taken :: "jump_op \<Rightarrow> u32 \<Rightarrow> u32 \<Rightarrow> bool" where
  "jump_taken f a v = (case f of Jgt \<Rightarrow> a > v | Jge \<Rightarrow> a \<ge> v | Jeq \<Rightarrow> a = v | Jset \<Rightarrow> a AND v \<noteq> 0)"

definition operand_val :: "operand \<Rightarrow> bpf_insn \<Rightarrow> machine \<Rightarrow> u32" where
  "operand_val src i m = (case src of Src_X \<Rightarrow> idx m | Src_K \<Rightarrow> insn_k i)"

definition exec_op :: "bpf_args \<Rightarrow> bpf_insn \<Rightarrow> machine \<Rightarrow> op \<Rightarrow> step" where
  "exec_op args i m f =
     (case f of
        Ret_K \<Rightarrow> Stop (Ret (insn_k i))
      | Ret_A \<Rightarrow> Stop (Ret (acc m))
      | Ld_Abs s \<Rightarrow> load_abs args s (insn_k i) m
      | Ld_Len \<Rightarrow> Next (m\<lparr>acc := of_nat (wirelen args)\<rparr>) 0
      | Ldx_Len \<Rightarrow> Next (m\<lparr>idx := of_nat (wirelen args)\<rparr>) 0
      | Ld_Ind s \<Rightarrow> load_ind args s (insn_k i) m
      | Ldx_Msh \<Rightarrow> load_msh args (insn_k i) m
      | Ld_Imm \<Rightarrow> Next (m\<lparr>acc := insn_k i\<rparr>) 0
      | Ldx_Imm \<Rightarrow> Next (m\<lparr>idx := insn_k i\<rparr>) 0
      | Ld_Mem \<Rightarrow> mem_load m (insn_k i) (\<lambda>v. m\<lparr>acc := v\<rparr>)
      | Ldx_Mem \<Rightarrow> mem_load m (insn_k i) (\<lambda>v. m\<lparr>idx := v\<rparr>)
      | St \<Rightarrow> mem_store m (insn_k i) (acc m)
      | Stx \<Rightarrow> mem_store m (insn_k i) (idx m)
      | Ja \<Rightarrow> Next m (unat (insn_k i))
      | Jump g src \<Rightarrow>
          Next m (unat (if jump_taken g (acc m) (operand_val src i m) then insn_jt i else insn_jf i))
      | Alu g src \<Rightarrow>
          (case alu g src (acc m) (operand_val src i m) of Inl r \<Rightarrow> Stop r | Inr a \<Rightarrow> Next (m\<lparr>acc := a\<rparr>) 0)
      | Neg \<Rightarrow> Next (m\<lparr>acc := - acc m\<rparr>) 0
      | Tax \<Rightarrow> Next (m\<lparr>idx := acc m\<rparr>) 0
      | Txa \<Rightarrow> Next (m\<lparr>acc := idx m\<rparr>) 0
      | Cop \<Rightarrow> Stop (Ret 0)
      | Copx \<Rightarrow> Stop (Ret 0))"

definition exec_insn :: "bpf_args \<Rightarrow> bpf_insn \<Rightarrow> machine \<Rightarrow> step" where
  "exec_insn args i m =
     (case map_of op_table (insn_code i) of None \<Rightarrow> Stop (Fault Abort) | Some f \<Rightarrow> exec_op args i m f)"

text \<open>
  The scratch memory belongs to the caller, so a run also returns what it left there. Every jump is
  relative to the next instruction and its offset is unsigned, hence the program counter only grows.
\<close>

function run :: "bpf_args \<Rightarrow> bpf_insn list \<Rightarrow> nat \<Rightarrow> machine \<Rightarrow> outcome \<times> u32 option list" where
  "run args prog pc m =
     (if pc < length prog
      then case exec_insn args (prog ! pc) m of
             Stop r \<Rightarrow> (r, mem m)
           | Next m' off \<Rightarrow> run args prog (pc + 1 + off) m'
      else (Fault Bad_pc, mem m))"
  by pat_completeness auto
termination
  by (relation "measure (\<lambda>(args, prog, pc, m). length prog - pc)") auto

declare run.simps [simp del]

definition op_bpf_filter_ext ::
  "bpf_insn list option \<Rightarrow> bpf_args \<Rightarrow> u32 option list \<Rightarrow> outcome \<times> u32 option list" where
  "op_bpf_filter_ext prog args store =
     (case prog of
        None \<Rightarrow> (Ret (- 1), store)
      | Some prog \<Rightarrow> run args prog 0 \<lparr>acc = 0, idx = 0, mem = store\<rparr>)"

definition BPF_MEMWORDS :: nat where "BPF_MEMWORDS = 16"

definition op_bpf_filter :: "bpf_insn list option \<Rightarrow> u8 list \<Rightarrow> u32 \<Rightarrow> u32 \<Rightarrow> outcome" where
  "op_bpf_filter prog p wire buf =
     fst (op_bpf_filter_ext prog \<lparr>pkt = p, wirelen = unat wire, buflen = unat buf\<rparr> (replicate BPF_MEMWORDS None))"

subsection \<open>The validator\<close>

record bpf_ctx =
  extwords :: nat
  preinited :: u32

definition MEMWORD_INIT :: "u32 \<Rightarrow> u32" where
  "MEMWORD_INIT k = push_bit (unat k) 1"

text \<open>\<open>None\<close> is the jump to \<open>out\<close>; otherwise the new \<open>invalid\<close> word and \<open>mem\<close> array.\<close>

definition validate_insn :: "nat \<Rightarrow> nat \<Rightarrow> nat \<Rightarrow> bpf_insn \<Rightarrow> u32 \<times> u32 list \<Rightarrow> (u32 \<times> u32 list) option" where
  "validate_insn len memwords i p = (\<lambda>(invalid, mem).
     let invalid = invalid OR mem ! i; code = insn_code p; k = insn_k p; cls = BPF_CLASS code in
       if cls = BPF_LD \<or> cls = BPF_LDX then
         let mode = BPF_MODE code in
           if mode = BPF_MEM then
             (if unat k \<ge> memwords then None
              else if invalid AND MEMWORD_INIT k \<noteq> 0 then None
              else Some (invalid, mem))
           else if mode = BPF_ABS \<or> mode = BPF_IND \<or> mode = BPF_MSH \<or> mode = BPF_IMM \<or> mode = BPF_LEN
             then Some (invalid, mem)
           else None
       else if cls = BPF_ST \<or> cls = BPF_STX then
         (if unat k \<ge> memwords then None else Some (invalid AND NOT (MEMWORD_INIT k), mem))
       else if cls = BPF_ALU then
         let f = BPF_OP code in
           if f = BPF_ADD \<or> f = BPF_SUB \<or> f = BPF_MUL \<or> f = BPF_OR \<or> f = BPF_XOR \<or> f = BPF_AND
              \<or> f = BPF_LSH \<or> f = BPF_RSH \<or> f = BPF_NEG
             then Some (invalid, mem)
           else if f = BPF_DIV \<or> f = BPF_MOD then
             (if BPF_SRC code = BPF_K \<and> k = 0 then None else Some (invalid, mem))
           else None
       else if cls = BPF_JMP then
         let from = of_nat i + 1 :: u32; f = BPF_OP code in
           if f = BPF_JA then
             (if from + k \<ge> of_nat len then None
              else if from + k < from then None
              else Some (0, mem[unat (from + k) := mem ! unat (from + k) OR invalid]))
           else if f = BPF_JEQ \<or> f = BPF_JGT \<or> f = BPF_JGE \<or> f = BPF_JSET then
             (if from + ucast (insn_jt p) \<ge> of_nat len \<or> from + ucast (insn_jf p) \<ge> of_nat len then None
              else
                let jt = unat (from + ucast (insn_jt p)); jf = unat (from + ucast (insn_jf p));
                    mem = mem[jt := mem ! jt OR invalid];
                    mem = mem[jf := mem ! jf OR invalid] in
                  Some (0, mem))
           else None
       else if cls = BPF_RET then Some (invalid, mem)
       else if cls = BPF_MISC then
         (if BPF_MISCOP code = BPF_COP \<or> BPF_MISCOP code = BPF_COPX then None else Some (invalid, mem))
       else None)"

fun validate_loop :: "nat \<Rightarrow> bpf_insn list \<Rightarrow> u32 \<Rightarrow> nat \<Rightarrow> (u32 \<times> u32 list) option" where
  "validate_loop memwords f pre 0 = Some (NOT pre, replicate (length f) 0)"
| "validate_loop memwords f pre (Suc i) =
     validate_loop memwords f pre i \<bind> validate_insn (length f) memwords i (f ! i)"

definition op_bpf_validate_ext :: "bpf_ctx option \<Rightarrow> bpf_insn list \<Rightarrow> bool" where
  "op_bpf_validate_ext bc f =
     (let ext = (case bc of None \<Rightarrow> 0 | Some c \<Rightarrow> extwords c);
          memwords = (if ext \<noteq> 0 then ext else BPF_MEMWORDS);
          pre = (if ext \<noteq> 0 then (case bc of None \<Rightarrow> 0 | Some c \<Rightarrow> preinited c) else 0);
          len = length f in
        if len < 1 then False
        else if insn_code (f ! (len - 1)) \<noteq> BPF_RET OR BPF_K \<and> insn_code (f ! (len - 1)) \<noteq> BPF_RET OR BPF_A
          then False
        else validate_loop memwords f pre len \<noteq> None)"

definition op_bpf_validate :: "bpf_insn list \<Rightarrow> bool" where
  "op_bpf_validate f = op_bpf_validate_ext None f"

end
