(* ===== verification/Bpf_Safety.thy ===== *)
theory Bpf_Safety
  imports Bpf_Vm
begin

text \<open>
  Safety of the packet filter machine: what \<^verbatim>\<open>op_bpf_validate_ext\<close> establishes about a program it
  accepts and what \<^verbatim>\<open>op_bpf_filter_ext\<close> can then do. The validator is an abstract interpretation: at
  each instruction its \<open>invalid\<close> word marks the scratch words that may be unwritten there. The proof
  relates it to the machine by \<open>covers\<close>, per case of the interpreter's switch, and runs the
  program by induction on the number of instructions behind the program counter.
\<close>

unbundle bit_operations_syntax

subsection \<open>What the validator tracks\<close>

text \<open>\<open>covers iv m\<close>: every scratch word that has not been written is marked in \<open>iv\<close>.\<close>

definition covers :: "u32 \<Rightarrow> machine \<Rightarrow> bool" where
  "covers iv m \<longleftrightarrow> (\<forall>w < length (mem m). mem m ! w = None \<longrightarrow> bit iv w)"

definition marks :: "u32 list \<Rightarrow> u32 list \<Rightarrow> bool" where
  "marks ms ms' \<longleftrightarrow> length ms' = length ms \<and> (\<forall>t < length ms. \<forall>b. bit (ms ! t) b \<longrightarrow> bit (ms' ! t) b)"

lemma marks_refl [simp]: "marks ms ms"
  by (simp add: marks_def)

lemma marks_trans: "marks a b \<Longrightarrow> marks b c \<Longrightarrow> marks a c"
  by (auto simp: marks_def)

lemma marks_update [simp]: "marks ms (ms[t := ms ! t OR iv])"
  by (cases "t < length ms") (auto simp: marks_def nth_list_update bit_simps)

lemma marks_length: "marks a b \<Longrightarrow> length b = length a"
  by (simp add: marks_def)

lemma covers_mono: "covers iv m \<Longrightarrow> (\<And>b. bit iv b \<Longrightarrow> bit iv' b) \<Longrightarrow> covers iv' m"
  by (auto simp: covers_def)

lemma covers_or [intro]: "covers a m \<Longrightarrow> covers (a OR b) m" "covers b m \<Longrightarrow> covers (a OR b) m"
  by (auto simp: covers_def bit_simps)

lemma covers_acc [simp]: "covers iv (m\<lparr>acc := a\<rparr>) = covers iv m"
  and covers_idx [simp]: "covers iv (m\<lparr>idx := a\<rparr>) = covers iv m"
  by (simp_all add: covers_def)

lemma bit_MEMWORD_INIT: "bit (MEMWORD_INIT k) b \<longleftrightarrow> b = unat k \<and> unat k < 32"
  by (auto simp: MEMWORD_INIT_def bit_simps bit_1_iff)

lemma covers_store:
  "covers iv m \<Longrightarrow> length (mem m) \<le> 32 \<Longrightarrow>
   covers (iv AND NOT (MEMWORD_INIT k)) (m\<lparr>mem := (mem m)[unat k := Some v]\<rparr>)"
  by (cases "unat k < length (mem m)")
    (auto simp: covers_def bit_simps bit_MEMWORD_INIT nth_list_update split: if_splits)

lemma covers_read:
  assumes "covers iv m" "iv AND MEMWORD_INIT k = 0" "unat k < length (mem m)" "length (mem m) \<le> 32"
  shows "mem m ! unat k \<noteq> None"
proof
  assume "mem m ! unat k = None"
  then have "bit (iv AND MEMWORD_INIT k) (unat k)"
    using assms(1,3,4) by (auto simp: covers_def bit_simps bit_MEMWORD_INIT)
  then show False using assms(2) by simp
qed

lemma validate_insn_marks:
  "validate_insn len mw i p (iv, ms) = Some (iv', ms') \<Longrightarrow> marks ms ms'"
  by (auto simp: validate_insn_def Let_def split: if_splits intro: marks_trans [OF marks_update marks_update])

lemma validate_loop_prefix:
  "validate_loop mw f pre n \<noteq> None \<Longrightarrow> j \<le> n \<Longrightarrow> validate_loop mw f pre j \<noteq> None"
proof (induction n)
  case (Suc n)
  then show ?case by (cases "j = Suc n") (auto simp: bind_eq_None_conv)
qed simp

lemma validate_loop_marks:
  "validate_loop mw f pre n = Some (iv, ms) \<Longrightarrow> j \<le> n \<Longrightarrow> validate_loop mw f pre j = Some (iv0, ms0) \<Longrightarrow>
   marks ms0 ms"
proof (induction n arbitrary: iv ms)
  case (Suc n)
  show ?case
  proof (cases "j = Suc n")
    case False
    from Suc.prems obtain iv1 ms1 where l: "validate_loop mw f pre n = Some (iv1, ms1)"
      and v: "validate_insn (length f) mw n (f ! n) (iv1, ms1) = Some (iv, ms)"
      by (auto simp: bind_eq_Some_conv)
    show ?thesis using Suc.IH [OF l] Suc.prems False validate_insn_marks [OF v] marks_trans by auto
  qed (use Suc.prems in auto)
qed simp

lemma validate_loop_length:
  "validate_loop mw f pre n = Some (iv, ms) \<Longrightarrow> length ms = length f"
  using validate_loop_marks [of mw f pre n iv ms 0] by (simp add: marks_def)

text \<open>The validator's verdict by case of the interpreter's switch, instead of by bit field.\<close>

definition check_mem :: "nat \<Rightarrow> u32 \<Rightarrow> u32 \<Rightarrow> bool" where
  "check_mem mw iv k \<longleftrightarrow> unat k < mw \<and> iv AND MEMWORD_INIT k = 0"

definition validate_op ::
  "nat \<Rightarrow> nat \<Rightarrow> nat \<Rightarrow> bpf_insn \<Rightarrow> u32 \<Rightarrow> u32 list \<Rightarrow> op \<Rightarrow> (u32 \<times> u32 list) option" where
  "validate_op len mw i p iv ms f =
     (let k = insn_k p; from = of_nat i + 1 :: u32;
          jt = from + ucast (insn_jt p); jf = from + ucast (insn_jf p) in
      case f of
        Ld_Mem \<Rightarrow> if check_mem mw iv k then Some (iv, ms) else None
      | Ldx_Mem \<Rightarrow> if check_mem mw iv k then Some (iv, ms) else None
      | St \<Rightarrow> if unat k < mw then Some (iv AND NOT (MEMWORD_INIT k), ms) else None
      | Stx \<Rightarrow> if unat k < mw then Some (iv AND NOT (MEMWORD_INIT k), ms) else None
      | Alu Div Src_K \<Rightarrow> if k = 0 then None else Some (iv, ms)
      | Alu Mod Src_K \<Rightarrow> if k = 0 then None else Some (iv, ms)
      | Ja \<Rightarrow> if from + k \<ge> of_nat len \<or> from + k < from then None
               else Some (0, ms[unat (from + k) := ms ! unat (from + k) OR iv])
      | Jump _ _ \<Rightarrow>
          if jt \<ge> of_nat len \<or> jf \<ge> of_nat len then None
          else let ms = ms[unat jt := ms ! unat jt OR iv] in Some (0, ms[unat jf := ms ! unat jf OR iv])
      | Cop \<Rightarrow> None
      | Copx \<Rightarrow> None
      | _ \<Rightarrow> Some (iv, ms))"

lemma validate_insn_op:
  assumes "map_of op_table (insn_code p) = Some f"
  shows "validate_insn len mw i p (iv, ms) = validate_op len mw i p (iv OR ms ! i) ms f"
proof -
  have "(insn_code p, f) \<in> set op_table" using assms by (rule map_of_SomeD)
  then show ?thesis
    unfolding op_table_def set_simps insert_iff empty_iff prod.inject
    by (elim disjE conjE)
      (simp_all add: validate_insn_def validate_op_def check_mem_def bpf_codes Let_def not_less not_le)
qed

lemma unat_next:
  assumes "i < len" "len < 2 ^ 31"
  shows "unat (of_nat i + 1 :: u32) = i + 1"
proof -
  have "i + 1 < 2 ^ LENGTH(32)" using assms by simp
  then have "unat (of_nat (i + 1) :: u32) = i + 1" by (rule unat_of_nat_small)
  then show ?thesis by (simp only: of_nat_add of_nat_1)
qed

lemma unat_target:
  fixes k :: u32
  assumes "i < len" "len < 2 ^ 31" "\<not> of_nat i + 1 + k \<ge> (of_nat len :: u32)" "of_nat i + 1 \<le> of_nat i + 1 + k"
  shows "unat (of_nat i + 1 + k) = i + 1 + unat k \<and> i + 1 + unat k < len"
proof -
  have "unat (of_nat i + 1 + k) = unat (of_nat i + 1 :: u32) + unat k"
    using assms(4) unat_add_lem no_olen_add_nat by blast
  then have "unat (of_nat i + 1 + k) = i + 1 + unat k" using unat_next [OF assms(1,2)] by simp
  moreover have "unat (of_nat len :: u32) = len"
    by (rule unat_of_nat_small) (use assms(2) in simp)
  then have "unat (of_nat i + 1 + k) < len"
    using assms(3) unfolding word_le_nat_alt by linarith
  ultimately show ?thesis by simp
qed

lemma unat_ucast8: "unat (ucast (b :: u8) :: u32) = unat b"
proof -
  have "unat b < 2 ^ 32" using unsigned_less [of b, where ?'a = nat] by simp
  then show ?thesis by (simp add: unsigned_ucast_eq take_bit_nat_eq_self)
qed

lemma target_no_wrap:
  fixes b :: u8
  assumes "i < len" "len < 2 ^ 31"
  shows "of_nat i + 1 \<le> (of_nat i + 1 + ucast b :: u32)"
proof -
  have b: "unat b < 256" using unsigned_less [of b, where ?'a = nat] by simp
  then show ?thesis using assms unat_next [OF assms]
    unfolding no_olen_add_nat unat_ucast8 by simp
qed

lemma packet_read_ok:
  "k + size_bytes s \<le> buflen args \<Longrightarrow> buflen args \<le> length (pkt args) \<Longrightarrow> packet_read args s k \<noteq> None"
  by (simp add: packet_read_def)

lemma load_stop:
  assumes "buflen args \<le> length (pkt args)"
  shows "load_abs args s k m = Stop r \<Longrightarrow> r = Ret 0"
    and "load_ind args s k m = Stop r \<Longrightarrow> r = Ret 0"
    and "load_msh args k m = Stop r \<Longrightarrow> r = Ret 0"
  using assms
  by (auto simp: load_abs_def load_ind_def load_msh_def Let_def packet_read_def size_bytes_def
      split: if_splits ld_size.splits)

lemma load_next:
  "load_abs args s k m = Next m' off \<Longrightarrow> off = 0 \<and> mem m' = mem m"
  "load_ind args s k m = Next m' off \<Longrightarrow> off = 0 \<and> mem m' = mem m"
  "load_msh args k m = Next m' off \<Longrightarrow> off = 0 \<and> mem m' = mem m"
  "mem_load m k g = Next m' off \<Longrightarrow> off = 0"
  by (auto simp: load_abs_def load_ind_def load_msh_def mem_load_def Let_def
      split: if_splits option.splits)

text \<open>
  The faults that remain possible for an accepted program, each with the instruction that causes it:
  a code the interpreter has no case for, and a shift whose distance the validator did not bound.
\<close>

definition unknown_code :: "bpf_insn \<Rightarrow> bool" where
  "unknown_code p \<longleftrightarrow> map_of op_table (insn_code p) = None"

definition unbounded_shift :: "bpf_insn \<Rightarrow> bool" where
  "unbounded_shift p \<longleftrightarrow>
     (case map_of op_table (insn_code p) of
        Some (Alu g Src_X) \<Rightarrow> g = Lsh \<or> g = Rsh
      | Some (Alu g Src_K) \<Rightarrow> (g = Lsh \<or> g = Rsh) \<and> unat (insn_k p) \<ge> 32
      | _ \<Rightarrow> False)"

definition explained_by :: "bpf_insn \<Rightarrow> outcome \<Rightarrow> bool" where
  "explained_by p r \<longleftrightarrow>
     (case r of Ret _ \<Rightarrow> True
      | Fault e \<Rightarrow> e = Abort \<and> unknown_code p \<or> e = Bad_shift \<and> unbounded_shift p)"

lemma exec_op_stop:
  assumes "validate_op len mw i p iv ms f = Some (iv', ms')" "covers iv m" "length (mem m) = mw" "mw \<le> 32"
    "buflen args \<le> length (pkt args)" "map_of op_table (insn_code p) = Some f" "exec_op args p m f = Stop r"
  shows "explained_by p r"
proof (cases f)
  case (Alu g src)
  then have "alu g src (acc m) (operand_val src p m) = Inl r"
    using assms(7) by (auto simp: exec_op_def split: sum.splits)
  then show ?thesis using assms(1,6) Alu
    by (cases g; cases src)
      (auto simp: alu_def explained_by_def unbounded_shift_def validate_op_def operand_val_def Let_def
        split: if_splits)
next
  case Ld_Mem
  then show ?thesis using assms covers_read [OF assms(2), of "insn_k p"]
    by (auto simp: exec_op_def validate_op_def check_mem_def mem_load_def Let_def split: if_splits)
next
  case Ldx_Mem
  then show ?thesis using assms covers_read [OF assms(2), of "insn_k p"]
    by (auto simp: exec_op_def validate_op_def check_mem_def mem_load_def Let_def split: if_splits)
qed (use assms in
    \<open>auto simp: exec_op_def validate_op_def explained_by_def mem_store_def Let_def
      dest: load_stop [OF assms(5)] split: if_splits\<close>)

lemma exec_op_next:
  assumes "validate_op len mw i p iv ms f = Some (iv', ms')" "covers iv m" "length (mem m) = mw" "mw \<le> 32"
    "i < len" "len < 2 ^ 31" "length ms = len" "exec_op args p m f = Next m' off"
  shows "length (mem m') = mw \<and> (off = 0 \<and> covers iv' m' \<or> i + 1 + off < len \<and> covers (ms' ! (i + 1 + off)) m')"
proof (cases f)
  case Ja
  let ?t = "of_nat i + 1 + insn_k p"
  from Ja assms have t: "\<not> ?t \<ge> of_nat len" "of_nat i + 1 \<le> ?t"
    and ms': "ms' = ms[unat ?t := ms ! unat ?t OR iv]" and m': "m' = m" "off = unat (insn_k p)"
    by (auto simp: exec_op_def validate_op_def Let_def split: if_splits)
  show ?thesis
    using unat_target [OF assms(5,6) t] assms(2,3,7) by (auto simp: ms' m')
next
  case (Jump g src)
  let ?t = "\<lambda>b :: u8. of_nat i + 1 + ucast b :: u32"
  let ?m1 = "ms[unat (?t (insn_jt p)) := ms ! unat (?t (insn_jt p)) OR iv]"
  from Jump assms have t: "\<not> ?t (insn_jt p) \<ge> of_nat len" "\<not> ?t (insn_jf p) \<ge> of_nat len"
    and ms': "ms' = ?m1[unat (?t (insn_jf p)) := ?m1 ! unat (?t (insn_jf p)) OR iv]"
    and m': "m' = m" "off = unat (insn_jt p) \<or> off = unat (insn_jf p)"
    by (auto simp: exec_op_def validate_op_def Let_def split: if_splits)
  show ?thesis
    using unat_target [OF assms(5,6) t(1) target_no_wrap [OF assms(5,6)]] assms(2,3,7)
      unat_target [OF assms(5,6) t(2) target_no_wrap [OF assms(5,6)]] m'(2)
    by (auto simp: ms' m'(1) nth_list_update unat_ucast8)
next
  case (Alu g src)
  then show ?thesis using assms
    by (auto simp: exec_op_def validate_op_def Let_def split: if_splits sum.splits alu_op.splits operand.splits)
next
  case St
  then show ?thesis using assms covers_store [OF assms(2)]
    by (auto simp: exec_op_def validate_op_def mem_store_def Let_def split: if_splits)
next
  case Stx
  then show ?thesis using assms covers_store [OF assms(2)]
    by (auto simp: exec_op_def validate_op_def mem_store_def Let_def split: if_splits)
qed (use assms in
    \<open>auto simp: exec_op_def validate_op_def mem_load_def covers_def Let_def dest!: load_next
      split: if_splits option.splits\<close>)

lemma op_ret:
  "map_of op_table (BPF_RET OR BPF_K) = Some Ret_K" "map_of op_table (BPF_RET OR BPF_A) = Some Ret_A"
  by (simp_all add: op_table_def bpf_codes)

lemma run_explained:
  assumes ok: "validate_loop mw f pre (length f) \<noteq> None"
    and last: "insn_code (f ! (length f - 1)) \<in> {BPF_RET OR BPF_K, BPF_RET OR BPF_A}"
    and bounds: "mw \<le> 32" "length f < 2 ^ 31" "buflen args \<le> length (pkt args)"
  shows "validate_loop mw f pre pc = Some (iv, ms) \<Longrightarrow> pc < length f \<Longrightarrow> covers (iv OR ms ! pc) m \<Longrightarrow>
    length (mem m) = mw \<Longrightarrow> \<exists>p \<in> set f. explained_by p (fst (run args f pc m))"
proof (induction "length f - pc" arbitrary: pc iv ms m rule: less_induct)
  case less
  let ?p = "f ! pc"
  obtain iv' ms' where next_state: "validate_loop mw f pre (Suc pc) = Some (iv', ms')"
    using validate_loop_prefix [OF ok, of "Suc pc"] less.prems(2) by auto
  then have v: "validate_insn (length f) mw pc ?p (iv, ms) = Some (iv', ms')"
    using less.prems(1) by simp
  show ?case
  proof (cases "map_of op_table (insn_code ?p)")
    case None
    then have "explained_by ?p (fst (run args f pc m))"
      using less.prems(2) by (simp add: run.simps [of _ _ pc] exec_insn_def explained_by_def unknown_code_def)
    then show ?thesis using less.prems(2) by auto
  next
    case (Some g)
    note vo = v [unfolded validate_insn_op [OF Some]]
    show ?thesis
    proof (cases "exec_op args ?p m g")
      case (Stop r)
      then have "explained_by ?p r"
        using exec_op_stop [OF vo less.prems(3,4) bounds(1,3) Some] by simp
      then show ?thesis using less.prems(2) Some Stop
        by (auto simp: run.simps [of _ _ pc] exec_insn_def)
    next
      case (Next m' off)
      let ?t = "pc + 1 + off"
      from exec_op_next [OF vo less.prems(3,4) bounds(1) less.prems(2) bounds(2)
          validate_loop_length [OF less.prems(1)] Next]
      have mem': "length (mem m') = mw"
        and c: "off = 0 \<and> covers iv' m' \<or> ?t < length f \<and> covers (ms' ! ?t) m'" by auto
      have "pc \<noteq> length f - 1"
        using last Some Next by (auto simp: op_ret exec_op_def)
      then have t: "?t < length f" using c less.prems(2) by auto
      obtain iv1 ms1 where target: "validate_loop mw f pre ?t = Some (iv1, ms1)"
        using validate_loop_prefix [OF ok, of ?t] t by auto
      have "marks ms' ms1"
        using validate_loop_marks [OF target _ next_state] by simp
      moreover have "length ms' = length f" using validate_loop_length [OF next_state] .
      ultimately have "covers (iv1 OR ms1 ! ?t) m'"
        using c t target next_state by (auto simp: marks_def covers_def bit_simps)
      then have "\<exists>p \<in> set f. explained_by p (fst (run args f ?t m'))"
        using less.hyps [OF _ target t _ mem'] less.prems(2) by simp
      then show ?thesis using less.prems(2) Some Next
        by (simp add: run.simps [of _ _ pc] exec_insn_def)
    qed
  qed
qed

subsection \<open>Accepted programs are safe to run\<close>

lemma covers_initial:
  assumes "\<forall>w < length store. bit pre w \<longrightarrow> store ! w \<noteq> None" "length store \<le> 32"
  shows "covers (NOT pre) \<lparr>acc = a, idx = x, mem = store\<rparr>"
  using assms by (auto simp: covers_def bit_simps)

lemma validated_explained:
  assumes valid: "op_bpf_validate_ext (Some c) f" and mem: "0 < extwords c" "extwords c \<le> 30"
    and store: "length store = extwords c" "\<forall>w < length store. bit (preinited c) w \<longrightarrow> store ! w \<noteq> None"
    and bounds: "length f < 2 ^ 31" "buflen args \<le> length (pkt args)"
  shows "\<exists>p \<in> set f. explained_by p (fst (op_bpf_filter_ext (Some f) args store))"
proof -
  let ?m = "\<lparr>acc = 0, idx = 0, mem = store\<rparr>"
  from valid mem have len: "0 < length f"
    and last: "insn_code (f ! (length f - 1)) \<in> {BPF_RET OR BPF_K, BPF_RET OR BPF_A}"
    and ok: "validate_loop (extwords c) f (preinited c) (length f) \<noteq> None"
    by (auto simp: op_bpf_validate_ext_def Let_def split: if_splits)
  have "covers (NOT (preinited c) OR replicate (length f) 0 ! 0) ?m"
    using store mem(2) by (intro covers_or(1) covers_initial) auto
  then show ?thesis
    using run_explained [OF ok last _ bounds, of 0 "NOT (preinited c)" "replicate (length f) 0" ?m] mem(2) len store(1)
    by (simp add: op_bpf_filter_ext_def)
qed

text \<open>
  C9: A program the validator accepts returns a value, on every packet and with every scratch memory
  in which the pre-initialised words hold one. It never runs past its end, never touches scratch
  memory out of bounds or reads a word that was not written, never divides by a zero constant and
  never reads outside the packet. The two faults that remain are each caused by an instruction of
  the program: a code the interpreter does not know, and a shift by a distance that is not a
  constant below 32.
\<close>

theorem validated_program_safe:
  assumes "op_bpf_validate_ext (Some c) f" and "0 < extwords c" and "extwords c \<le> 30"
    and "length store = extwords c" and "\<forall>w < length store. bit (preinited c) w \<longrightarrow> store ! w \<noteq> None"
    and "length f < 2 ^ 31" and "buflen args \<le> length (pkt args)"
  shows "(\<exists>v. fst (op_bpf_filter_ext (Some f) args store) = Ret v)
    \<or> fst (op_bpf_filter_ext (Some f) args store) = Fault Abort \<and> (\<exists>p \<in> set f. unknown_code p)
    \<or> fst (op_bpf_filter_ext (Some f) args store) = Fault Bad_shift \<and> (\<exists>p \<in> set f. unbounded_shift p)"
proof -
  from validated_explained [OF assms] obtain p where
    "p \<in> set f" "explained_by p (fst (op_bpf_filter_ext (Some f) args store))" by blast
  then show ?thesis
    by (cases "fst (op_bpf_filter_ext (Some f) args store)") (auto simp: explained_by_def)
qed

lemmas vm_eval = insn_def bpf_codes op_bpf_validate_ext_def op_bpf_validate_def validate_insn_def
  MEMWORD_INIT_def BPF_MEMWORDS_def Let_def

theorem validated_program_safe_witness:
  "\<exists>f. op_bpf_validate_ext (Some \<lparr>extwords = 2, preinited = 1\<rparr>) f
     \<and> ((\<exists>v. fst (op_bpf_filter_ext (Some f) \<lparr>pkt = [1, 2], wirelen = 2, buflen = 2\<rparr> [Some 64, None]) = Ret v)
       \<or> fst (op_bpf_filter_ext (Some f) \<lparr>pkt = [1, 2], wirelen = 2, buflen = 2\<rparr> [Some 64, None]) = Fault Abort
         \<and> (\<exists>p \<in> set f. unknown_code p)
       \<or> fst (op_bpf_filter_ext (Some f) \<lparr>pkt = [1, 2], wirelen = 2, buflen = 2\<rparr> [Some 64, None]) = Fault Bad_shift
         \<and> (\<exists>p \<in> set f. unbounded_shift p))"
proof -
  let ?f = "[insn 0x60 0 0 0, insn 0x45 0 1 0x40, insn 0x06 0 0 1, insn 0x06 0 0 0]"
  let ?c = "\<lparr>extwords = 2, preinited = 1\<rparr> :: bpf_ctx"
  have v: "op_bpf_validate_ext (Some ?c) ?f" by (simp add: vm_eval)
  have "\<forall>w < length [Some (64 :: u32), None]. bit (preinited ?c) w \<longrightarrow> [Some (64 :: u32), None] ! w \<noteq> None"
    by (auto simp: less_Suc_eq bit_1_iff)
  from validated_program_safe [OF v _ _ _ this, of "\<lparr>pkt = [1, 2], wirelen = 2, buflen = 2\<rparr>"] v
  show ?thesis by auto
qed

text \<open>
  The two remaining faults do occur. The validator looks at the class of a return and of a shift
  only, so it accepts \<open>RET|X\<close>, for which the interpreter has no case and calls \<open>abort()\<close>, and a left
  shift by 40.
\<close>

theorem validated_program_can_fault:
  "op_bpf_validate [insn 0x0e 0 0 0, insn 0x06 0 0 0]
   \<and> op_bpf_filter (Some [insn 0x0e 0 0 0, insn 0x06 0 0 0]) [] 0 0 = Fault Abort
   \<and> op_bpf_validate [insn 0x64 0 0 40, insn 0x16 0 0 0]
   \<and> op_bpf_filter (Some [insn 0x64 0 0 40, insn 0x16 0 0 0]) [] 0 0 = Fault Bad_shift"
  by (simp add: vm_eval op_bpf_filter_def op_bpf_filter_ext_def run.simps exec_insn_def exec_op_def
      op_table_def alu_def operand_val_def)

end
