(* ===== verification/Bpf_Expr.thy ===== *)
theory Bpf_Expr
  imports Prelude
begin

text \<open>
  Filter expressions, \<^verbatim>\<open>src/modules/packet/bpf/bpf_parse.hpp\<close> and the expression half of
  \<^verbatim>\<open>bpf_parse.cpp\<close>: the expression classes, their printing, the predicates that tell which terms
  libpcap cannot compile (the special ones), and \<open>bpf_split_special\<close>, which rearranges an expression
  until its special terms are all on the left.

  An owning pointer to an expression is an \<open>expr\<close>, and \<open>Null\<close> is the null pointer, which the parser
  can put below an operator. A virtual call on it is \<open>Null_deref\<close>. \<open>dynamic_cast\<close> of it is not
  an error, so functions that only cast leave it alone.
\<close>

unbundle bit_operations_syntax

subsection \<open>Failing computations\<close>

datatype bpf_error = Throw string | Null_deref

type_synonym 'a result = "bpf_error + 'a"

subsection \<open>Expressions\<close>

record stream_id_range =
  range_start :: u32
  range_end :: u32

datatype binary_logical_op = Op_and | Op_or
datatype unary_logical_op = Op_not

datatype expr =
    Null
  | Generic_match string
  | Valid_match u32
  | Signature_match "stream_id_range option"
  | Unary_logical expr unary_logical_op
  | Binary_logical expr expr binary_logical_op

definition ETH_FCS :: u32 where "ETH_FCS = 0x01"
definition IP_CHKSUM :: u32 where "IP_CHKSUM = 0x02"
definition TCP_CHKSUM :: u32 where "TCP_CHKSUM = 0x04"
definition UDP_CHKSUM :: u32 where "UDP_CHKSUM = 0x08"
definition ICMP_CHKSUM :: u32 where "ICMP_CHKSUM = 0x10"
definition SIGNATURE_PRBS :: u32 where "SIGNATURE_PRBS = 0x20"

lemmas valid_flags = ETH_FCS_def IP_CHKSUM_def TCP_CHKSUM_def UDP_CHKSUM_def ICMP_CHKSUM_def
  SIGNATURE_PRBS_def

definition all_chksum_flags :: u32 where
  "all_chksum_flags = IP_CHKSUM OR TCP_CHKSUM OR UDP_CHKSUM OR ICMP_CHKSUM"

definition has_flag :: "u32 \<Rightarrow> u32 \<Rightarrow> bool" where
  "has_flag flags f \<longleftrightarrow> flags AND f \<noteq> 0"

lemma and_exp: "(f :: u32) AND 2 ^ i = (if bit f i then 2 ^ i else 0)"
  by (rule bit_word_eqI) (auto simp: bit_simps)

lemma has_flag_exp: "i < 32 \<Longrightarrow> has_flag f (2 ^ i) \<longleftrightarrow> bit f i"
  by (simp add: has_flag_def and_exp)

definition is_special :: "expr \<Rightarrow> bool result" where
  "is_special e = (case e of Null \<Rightarrow> Inl Null_deref | Valid_match _ \<Rightarrow> Inr True | Signature_match _ \<Rightarrow> Inr True
     | _ \<Rightarrow> Inr False)"

fun get_children :: "expr \<Rightarrow> expr list" where
  "get_children (Unary_logical e _) = [e]"
| "get_children (Binary_logical l r _) = [l, r]"
| "get_children _ = []"

lemma get_children_size [termination_simp]: "c \<in> set (get_children e) \<Longrightarrow> size c < size e"
  by (cases e) auto

fun any_result :: "('a \<Rightarrow> bool result) \<Rightarrow> 'a list \<Rightarrow> bool result" where
  "any_result p [] = Inr False"
| "any_result p (x # xs) = bind_result (p x) (\<lambda>b. if b then Inr True else any_result p xs)"

lemma any_result_cong [fundef_cong]:
  "xs = ys \<Longrightarrow> (\<And>x. x \<in> set ys \<Longrightarrow> p x = q x) \<Longrightarrow> any_result p xs = any_result q ys"
  by (induction xs arbitrary: ys) (auto intro!: bind_result_cong)

fun has_special :: "expr \<Rightarrow> bool result" where
  "has_special e = bind_result (is_special e) (\<lambda>b. if b then Inr True else any_result has_special (get_children e))"

declare has_special.simps [simp del]

fun all_result :: "('a \<Rightarrow> bool result) \<Rightarrow> 'a list \<Rightarrow> bool result" where
  "all_result p [] = Inr True"
| "all_result p (x # xs) = bind_result (p x) (\<lambda>b. if \<not> b then Inr False else all_result p xs)"

lemma all_result_cong [fundef_cong]:
  "xs = ys \<Longrightarrow> (\<And>x. x \<in> set ys \<Longrightarrow> p x = q x) \<Longrightarrow> all_result p xs = all_result q ys"
  by (induction xs arbitrary: ys) (auto intro!: bind_result_cong)

fun has_all_special :: "expr \<Rightarrow> bool result" where
  "has_all_special e =
     bind_result (is_special e) (\<lambda>b.
       if b then Inr True
       else if get_children e = [] then Inr False
       else all_result has_all_special (get_children e))"

declare has_all_special.simps [simp del]

definition is_buildable :: "expr \<Rightarrow> bool result" where
  "is_buildable e =
     (case e of
        Null \<Rightarrow> Inl Null_deref
      | Unary_logical e _ \<Rightarrow>
          bind_result (has_special e) (\<lambda>s. if s then has_all_special e else Inr True)
      | Binary_logical l r _ \<Rightarrow>
          bind_result (has_special l) (\<lambda>ls. bind_result (has_special r) (\<lambda>rs.
            if \<not> ls \<and> \<not> rs then Inr True
            else bind_result (has_all_special l) (\<lambda>la.
              if \<not> la then Inr False
              else if \<not> rs then Inr True
              else has_all_special r)))
      | _ \<Rightarrow> Inr True)"

subsection \<open>Printing\<close>

text \<open>\<open>to_decimal\<close> is \<open>std::to_string\<close> of an unsigned integer.\<close>

fun to_decimal :: "nat \<Rightarrow> string" where
  "to_decimal n = (if n < 10 then [char_of (48 + n)] else to_decimal (n div 10) @ [char_of (48 + n mod 10)])"

declare to_decimal.simps [simp del]

definition binary_to_string :: "binary_logical_op \<Rightarrow> string" where
  "binary_to_string op = (case op of Op_and \<Rightarrow> ''&&'' | Op_or \<Rightarrow> ''||'')"

definition unary_to_string :: "unary_logical_op \<Rightarrow> string" where
  "unary_to_string op = (case op of Op_not \<Rightarrow> ''not'')"

definition add_word :: "bool \<Rightarrow> string \<Rightarrow> string \<Rightarrow> string" where
  "add_word b w s = (if b then (if s \<noteq> '''' then s @ '' '' else s) @ w else s)"

definition valid_to_string :: "u32 \<Rightarrow> string" where
  "valid_to_string flags =
     (let s = (if has_flag flags ETH_FCS then ''fcs'' else '''');
          s = (if flags AND all_chksum_flags = all_chksum_flags then add_word True ''chksum'' s
               else add_word (has_flag flags ICMP_CHKSUM) ''icmp chksum''
                 (add_word (has_flag flags UDP_CHKSUM) ''udp chksum''
                   (add_word (has_flag flags TCP_CHKSUM) ''tcp chksum''
                     (add_word (has_flag flags IP_CHKSUM) ''ip chksum'' s))));
          s = add_word (has_flag flags SIGNATURE_PRBS) ''prbs'' s in
        ''(valid '' @ s @ '')'')"

definition signature_to_string :: "stream_id_range option \<Rightarrow> string" where
  "signature_to_string stream_id =
     ''(signature'' @
     (case stream_id of
        None \<Rightarrow> ''''
      | Some i \<Rightarrow> '' streamid '' @
          (if range_start i = range_end i then to_decimal (unat (range_start i))
           else to_decimal (unat (range_start i)) @ ''-'' @ to_decimal (unat (range_end i)))) @
     '')''"

fun to_string :: "expr \<Rightarrow> string result" where
  "to_string Null = Inl Null_deref"
| "to_string (Generic_match s) = Inr (''('' @ s @ '')'')"
| "to_string (Valid_match flags) = Inr (valid_to_string flags)"
| "to_string (Signature_match i) = Inr (signature_to_string i)"
| "to_string (Unary_logical e op) =
     bind_result (to_string e) (\<lambda>s.
       if s \<noteq> '''' \<and> hd s = CHR ''('' then Inr (unary_to_string op @ s)
       else Inr (unary_to_string op @ ''('' @ s @ '')''))"
| "to_string (Binary_logical l r op) =
     bind_result (to_string l) (\<lambda>s. bind_result (to_string r) (\<lambda>t.
       Inr (''('' @ s @ '' '' @ binary_to_string op @ '' '' @ t @ '')'')))"

end
