(* ===== verification/Bpf_Split.thy ===== *)
theory Bpf_Split
  imports Bpf_Expr
begin

text \<open>
  \<open>bpf_split_special\<close> of \<^verbatim>\<open>bpf_parse.cpp\<close>. libpcap compiles the normal terms of a filter and the
  builder the special ones, so a filter that mixes them must have the form \<open>special op normal\<close>. The
  function removes double negations, pushes a negation into a mixed operand by De Morgan's rule and
  reorders operands of equal operators. It calls itself on its own result, so its termination rests
  on a weight that it does not increase.
\<close>

subsection \<open>Rearranging an expression\<close>

definition expr_toggle_binary_op :: "binary_logical_op \<Rightarrow> binary_logical_op" where
  "expr_toggle_binary_op op = (if op = Op_and then Op_or else Op_and)"

fun expr_remove_double_not :: "expr \<Rightarrow> expr" where
  "expr_remove_double_not (Unary_logical (Unary_logical e Op_not) Op_not) = expr_remove_double_not e"
| "expr_remove_double_not (Unary_logical e op) = Unary_logical (expr_remove_double_not e) op"
| "expr_remove_double_not (Binary_logical l r op) =
     Binary_logical (expr_remove_double_not l) (expr_remove_double_not r) op"
| "expr_remove_double_not e = e"

definition split_err_str :: string where
  "split_err_str = ''Can not split BPF into special and normal expressions''"

text \<open>The operands of \<open>bexpr\<close> after its left, then its right operand has been split.\<close>

definition merge_lhs :: "binary_logical_op \<Rightarrow> expr \<Rightarrow> expr \<Rightarrow> (expr \<times> expr) result" where
  "merge_lhs op r l =
     (case l of
        Binary_logical child_l child_r child_op \<Rightarrow>
          bind_result (has_special child_r) (\<lambda>s.
            if s then Inl (Throw split_err_str)
            else if op \<noteq> child_op then Inl (Throw split_err_str)
            else Inr (child_l, Binary_logical child_r r op))
      | _ \<Rightarrow> Inr (l, r))"

definition merge_rhs :: "binary_logical_op \<Rightarrow> expr \<Rightarrow> expr \<Rightarrow> expr result" where
  "merge_rhs op l r =
     (case r of
        Binary_logical child_l child_r child_op \<Rightarrow>
          if op \<noteq> child_op then Inl (Throw split_err_str)
          else Inr (Binary_logical (Binary_logical l child_l op) child_r op)
      | _ \<Rightarrow> Inr (Binary_logical l r op))"

function (domintros) bpf_split_special :: "expr \<Rightarrow> expr result" where
  "bpf_split_special ex =
     (let e = expr_remove_double_not ex in
        bind_result (is_buildable e) (\<lambda>b.
          if b then Inr e
          else case e of
            Unary_logical u op \<Rightarrow>
              (case u of
                 Binary_logical l r bop \<Rightarrow>
                   bpf_split_special
                     (Binary_logical (Unary_logical l Op_not) (Unary_logical r Op_not) (expr_toggle_binary_op bop))
               | _ \<Rightarrow> Inl (Throw split_err_str))
          | Binary_logical l0 r0 op \<Rightarrow>
              bind_result (has_special l0) (\<lambda>ls0. bind_result (has_special r0) (\<lambda>rs0.
                let swap = rs0 \<and> \<not> ls0;
                    l = (if swap then r0 else l0); r = (if swap then l0 else r0);
                    ls = (if swap then rs0 else ls0); rs = (if swap then ls0 else rs0) in
                  bind_result (if ls then has_all_special l else Inr True) (\<lambda>la.
                  bind_result (if ls \<and> \<not> la then bind_result (bpf_split_special l) (merge_lhs op r) else Inr (l, r))
                    (\<lambda>(l, r). if rs then bind_result (bpf_split_special r) (merge_rhs op l)
                              else Inr (Binary_logical l r op)))))
          | _ \<Rightarrow> Inr e))"
  by pat_completeness auto

fun weight :: "expr \<Rightarrow> nat" where
  "weight (Unary_logical e _) = 2 * weight e"
| "weight (Binary_logical l r _) = weight l + weight r + 1"
| "weight _ = 1"

lemma weight_pos [simp]: "0 < weight e"
  by (induction e) auto

lemma weight_remove_double_not: "weight (expr_remove_double_not e) \<le> weight e"
  by (induction e rule: expr_remove_double_not.induct) auto

lemma weight_operands:
  "expr_remove_double_not e = Binary_logical l r op \<Longrightarrow> weight l + weight r + 1 \<le> weight e"
  "expr_remove_double_not e = Unary_logical u uop \<Longrightarrow> 2 * weight u \<le> weight e"
  using weight_remove_double_not [of e] by simp_all

lemma weight_merge_lhs:
  "merge_lhs op r l = Inr (l', r') \<Longrightarrow> weight l' + weight r' \<le> weight l + weight r \<and> weight r' < weight l + weight r + 1"
  by (auto simp: merge_lhs_def bind_result_Inr split: expr.splits if_splits)

lemma weight_merge_rhs:
  "merge_rhs op l r = Inr e \<Longrightarrow> weight e = weight l + weight r + 1"
  by (auto simp: merge_rhs_def split: expr.splits if_splits)

text \<open>The ways in which a split succeeds.\<close>

lemma bpf_split_special_cases:
  assumes "bpf_split_special_dom ex" "bpf_split_special ex = Inr e'"
  obtains (Done) "e' = expr_remove_double_not ex" "is_buildable e' = Inr True"
  | (De_Morgan) l r bop op where "expr_remove_double_not ex = Unary_logical (Binary_logical l r bop) op"
      "is_buildable (expr_remove_double_not ex) = Inr False"
      "bpf_split_special (Binary_logical (Unary_logical l Op_not) (Unary_logical r Op_not) (expr_toggle_binary_op bop)) = Inr e'"
  | (Binary) l r op ls rs l1 r1 where
      "expr_remove_double_not ex = Binary_logical l r op
         \<or> expr_remove_double_not ex = Binary_logical r l op \<and> ls \<and> \<not> rs"
      "is_buildable (expr_remove_double_not ex) = Inr False"
      "has_special l = Inr ls" "has_special r = Inr rs" "rs \<longrightarrow> ls"
      "if ls \<and> has_all_special l = Inr False
       then \<exists>l'. bpf_split_special l = Inr l' \<and> merge_lhs op r l' = Inr (l1, r1)
       else (ls \<longrightarrow> has_all_special l = Inr True) \<and> l1 = l \<and> r1 = r"
      "if rs then \<exists>r'. bpf_split_special r1 = Inr r' \<and> merge_rhs op l1 r' = Inr e'
       else e' = Binary_logical l1 r1 op"
proof -
  let ?e = "expr_remove_double_not ex"
  note eq = bpf_split_special.psimps [OF assms(1)]
  from assms(2) obtain b where b: "is_buildable ?e = Inr b"
    unfolding eq by (auto simp: Let_def bind_result_Inr)
  show thesis
  proof (cases "b \<or> \<not> (\<exists>u op. ?e = Unary_logical u op) \<and> \<not> (\<exists>l r op. ?e = Binary_logical l r op)")
    case True
    then show thesis using assms(2) b Done unfolding eq
      by (cases ?e) (auto simp: Let_def is_buildable_def split: if_splits)
  next
    case False
    show thesis
    proof (cases ?e)
      case (Unary_logical u op)
      then show thesis using assms(2) b False De_Morgan unfolding eq
        by (cases u) (auto simp: Let_def)
    next
      case e: (Binary_logical l0 r0 op)
      from assms(2) b False e obtain ls0 rs0 where s: "has_special l0 = Inr ls0" "has_special r0 = Inr rs0"
        unfolding eq by (auto simp: Let_def bind_result_Inr)
      note body = assms(2) [unfolded eq, simplified e b s Let_def, simplified]
      show thesis
      proof (cases "rs0 \<and> \<not> ls0")
        case True
        then show thesis using body b False e s Binary [of r0 l0 op True False]
          by (force simp: bind_result_Inr split: if_splits)
      next
        case no_swap: False
        then show thesis using body b False e s Binary [of l0 r0 op ls0 rs0]
          by (force simp: bind_result_Inr split: if_splits)
      qed
    qed (use False in auto)
  qed
qed

lemma bpf_split_special_weight:
  "bpf_split_special_dom e \<Longrightarrow> bpf_split_special e = Inr e' \<Longrightarrow> weight e' \<le> weight e"
proof (induction e arbitrary: e' rule: bpf_split_special.pinduct)
  case (1 ex)
  note w = weight_remove_double_not [of ex]
  from "1.hyps" "1.prems" show ?case
  proof (cases rule: bpf_split_special_cases)
    case Done
    then show ?thesis using w by simp
  next
    case (De_Morgan l r bop op)
    then show ?thesis using "1.IH"(1) [OF refl De_Morgan(2) _ De_Morgan(1) refl De_Morgan(3)] w by simp
  next
    case (Binary l r op ls rs l1 r1)
    then have wb: "weight l + weight r + 1 \<le> weight ex" using w by auto
    have IH_l: "weight l' \<le> weight l"
      if "ls" "has_all_special l = Inr False" "bpf_split_special l = Inr l'" for l'
      using Binary(1)
    proof
      assume e: "expr_remove_double_not ex = Binary_logical l r op"
      show ?thesis
        using "1.IH"(2) [OF refl Binary(2) _ e Binary(3,4) refl refl refl refl refl, of False l'] Binary(5) that
        by simp
    next
      assume e: "expr_remove_double_not ex = Binary_logical r l op \<and> ls \<and> \<not> rs"
      show ?thesis
        using "1.IH"(2) [OF refl Binary(2) _ conjunct1 [OF e] Binary(4,3) refl refl refl refl refl, of False l'] e that
        by simp
    qed
    have lr: "weight l1 + weight r1 \<le> weight l + weight r"
    proof (cases "ls \<and> has_all_special l = Inr False")
      case True
      with Binary(6) obtain l' where l': "bpf_split_special l = Inr l'" "merge_lhs op r l' = Inr (l1, r1)"
        by auto
      show ?thesis using weight_merge_lhs [OF l'(2)] IH_l [OF _ _ l'(1)] True by simp
    qed (use Binary(6) in simp)
    have IH_r: "weight r' \<le> weight r1" if "rs" "bpf_split_special r1 = Inr r'" for r'
    proof -
      have e: "expr_remove_double_not ex = Binary_logical l r op" using Binary(1) that by auto
      have ls: ls using Binary(5) that by simp
      obtain la where la: "has_all_special l = Inr la"
        using Binary(6) ls by (cases "has_all_special l = Inr False") auto
      have m: "(if ls \<and> \<not> la then bind_result (bpf_split_special l) (merge_lhs op r) else Inr (l, r)) = Inr (l1, r1)"
        using Binary(6) ls la by (cases la) (auto simp: bind_result_Inr)
      show ?thesis
        using "1.IH"(3) [OF refl Binary(2) _ e Binary(3,4) refl refl refl refl refl, of la "(l1, r1)" l1 r1 r']
          m la that by (simp add: ls cong: if_cong)
    qed
    show ?thesis
    proof (cases rs)
      case True
      with Binary(7) obtain r' where r': "bpf_split_special r1 = Inr r'" "merge_rhs op l1 r' = Inr e'" by auto
      show ?thesis using weight_merge_rhs [OF r'(2)] IH_r [OF True r'(1)] lr wb by simp
    qed (use Binary(7) lr wb in simp)
  qed
qed

lemma bpf_split_special_total: "bpf_split_special_dom ex"
proof (induction ex rule: measure_induct_rule [of weight])
  case (less ex)
  have smaller: "bpf_split_special_dom l" "bpf_split_special_dom r"
    if "Binary_logical l r op = expr_remove_double_not ex" for l r op
    using weight_operands(1) [OF that [symmetric]] by (auto intro: less)
  show ?case
  proof (rule bpf_split_special.domintros, goal_cases)
    case (1 xa l r bop op)
    then show ?case using weight_operands(2) [OF 1(1) [symmetric]] by (intro less) simp
  next
    case (5 xa l r op ls rs xh la a b)
    have s: ls rs using 5(6) by (auto split: if_splits)
    show ?case
    proof (cases la)
      case False
      with 5 s obtain l' where l': "bpf_split_special l = Inr l'" "merge_lhs op r l' = Inr (a, b)"
        by (auto simp: bind_result_Inr)
      show ?thesis
        using weight_merge_lhs [OF l'(2)] bpf_split_special_weight [OF smaller(1) [OF 5(1)] l'(1)]
          weight_operands(1) [OF 5(1) [symmetric]] by (intro less) simp
    qed (use smaller [OF 5(1)] 5 s in auto)
  qed (use smaller in blast)+
qed

termination bpf_split_special
  by (simp add: bpf_split_special_total)

declare bpf_split_special.simps [simp del]

subsection \<open>Meaning and terms of an expression\<close>

text \<open>
  \<open>eval \<rho> e\<close> is the truth value of \<open>e\<close> when its terms have the values \<open>\<rho>\<close>, whatever these are:
  the rearrangement treats terms as opaque.
\<close>

definition eval_binary :: "binary_logical_op \<Rightarrow> bool \<Rightarrow> bool \<Rightarrow> bool" where
  "eval_binary op a b = (case op of Op_and \<Rightarrow> a \<and> b | Op_or \<Rightarrow> a \<or> b)"

fun eval :: "(expr \<Rightarrow> bool) \<Rightarrow> expr \<Rightarrow> bool" where
  "eval \<rho> (Unary_logical e _) \<longleftrightarrow> \<not> eval \<rho> e"
| "eval \<rho> (Binary_logical l r op) \<longleftrightarrow> eval_binary op (eval \<rho> l) (eval \<rho> r)"
| "eval \<rho> e \<longleftrightarrow> \<rho> e"

fun leaves :: "expr \<Rightarrow> expr set" where
  "leaves (Unary_logical e _) = leaves e"
| "leaves (Binary_logical l r _) = leaves l \<union> leaves r"
| "leaves e = {e}"

definition null_free :: "expr \<Rightarrow> bool" where
  "null_free e \<longleftrightarrow> Null \<notin> leaves e"

definition special_leaf :: "expr \<Rightarrow> bool" where
  "special_leaf e \<longleftrightarrow> (case e of Valid_match _ \<Rightarrow> True | Signature_match _ \<Rightarrow> True | _ \<Rightarrow> False)"

definition some_special :: "expr \<Rightarrow> bool" where
  "some_special e \<longleftrightarrow> (\<exists>x \<in> leaves e. special_leaf x)"

definition all_special :: "expr \<Rightarrow> bool" where
  "all_special e \<longleftrightarrow> (\<forall>x \<in> leaves e. special_leaf x)"

lemma null_free_simps [simp]:
  "\<not> null_free Null" "null_free (Generic_match s)" "null_free (Valid_match f)" "null_free (Signature_match i)"
  "null_free (Unary_logical e u) = null_free e"
  "null_free (Binary_logical l r op) = (null_free l \<and> null_free r)"
  by (auto simp: null_free_def)

lemma special_simps [simp]:
  "\<not> some_special (Generic_match s)" "some_special (Valid_match f)" "some_special (Signature_match i)"
  "some_special (Unary_logical e u) = some_special e"
  "some_special (Binary_logical l r op) = (some_special l \<or> some_special r)"
  "\<not> all_special (Generic_match s)" "all_special (Valid_match f)" "all_special (Signature_match i)"
  "all_special (Unary_logical e u) = all_special e"
  "all_special (Binary_logical l r op) = (all_special l \<and> all_special r)"
  by (auto simp: some_special_def all_special_def special_leaf_def)

lemma all_special_some: "all_special e \<Longrightarrow> some_special e"
  by (induction e) (auto simp: all_special_def some_special_def special_leaf_def)

lemma has_special_eq: "null_free e \<Longrightarrow> has_special e = Inr (some_special e)"
  by (induction e) (auto simp: has_special.simps is_special_def)

lemma has_all_special_eq: "null_free e \<Longrightarrow> has_all_special e = Inr (all_special e)"
  by (induction e) (auto simp: has_all_special.simps is_special_def)

lemma has_special_Inr: "has_special e = Inr b \<Longrightarrow> null_free e \<Longrightarrow> b = some_special e"
  by (simp add: has_special_eq)

lemma eval_binary_simps:
  "eval_binary op a b = eval_binary op b a"
  "eval_binary op (eval_binary op a b) c = eval_binary op a (eval_binary op b c)"
  "eval_binary (expr_toggle_binary_op op) (\<not> a) (\<not> b) = (\<not> eval_binary op a b)"
  by (cases op; auto simp: eval_binary_def expr_toggle_binary_op_def)+

lemma remove_double_not:
  "eval \<rho> (expr_remove_double_not e) = eval \<rho> e" "leaves (expr_remove_double_not e) = leaves e"
  by (induction e rule: expr_remove_double_not.induct) auto

lemma merge_lhs_same:
  assumes "merge_lhs op r l = Inr (l1, r1)"
  shows "eval_binary op (eval \<rho> l1) (eval \<rho> r1) = eval_binary op (eval \<rho> l) (eval \<rho> r)
    \<and> leaves l1 \<union> leaves r1 = leaves l \<union> leaves r"
  using assms by (auto simp: merge_lhs_def bind_result_Inr eval_binary_simps(2) split: expr.splits if_splits)

lemma merge_rhs_same:
  assumes "merge_rhs op l r = Inr e"
  shows "eval \<rho> e = eval_binary op (eval \<rho> l) (eval \<rho> r) \<and> leaves e = leaves l \<union> leaves r"
  using assms by (auto simp: merge_rhs_def eval_binary_simps(2) split: expr.splits if_splits)

lemmas split_cases = bpf_split_special_cases [OF bpf_split_special_total, consumes 1, case_names Done De_Morgan Binary]

subsection \<open>Splitting keeps the meaning and makes the filter buildable\<close>

lemma bpf_split_special_same:
  "bpf_split_special e = Inr e' \<Longrightarrow> eval \<rho> e' = eval \<rho> e \<and> leaves e' = leaves e"
proof (induction e arbitrary: e' rule: measure_induct_rule [of weight])
  case (less e)
  from less.prems show ?case
  proof (cases rule: split_cases)
    case (De_Morgan l r bop op)
    have "eval \<rho> e = (\<not> eval_binary bop (eval \<rho> l) (eval \<rho> r)) \<and> leaves e = leaves l \<union> leaves r"
      using De_Morgan(1) remove_double_not(1) [of \<rho> e] remove_double_not(2) [of e] by simp
    then show ?thesis
      using less.IH [OF _ De_Morgan(3)] weight_operands(2) [OF De_Morgan(1)] by (simp add: eval_binary_simps(3))
  next
    case (Binary l r op ls rs l1 r1)
    have e: "eval \<rho> e = eval_binary op (eval \<rho> l) (eval \<rho> r) \<and> leaves e = leaves l \<union> leaves r"
      using Binary(1) remove_double_not(1) [of \<rho> e] remove_double_not(2) [of e]
        eval_binary_simps(1) [of op "eval \<rho> r" "eval \<rho> l"] by (elim disjE conjE) (simp_all add: Un_commute)
    have w: "weight l + weight r + 1 \<le> weight e" using Binary(1) weight_operands(1) [of e] by fastforce
    have lr: "eval_binary op (eval \<rho> l1) (eval \<rho> r1) = eval \<rho> e \<and> leaves l1 \<union> leaves r1 = leaves e
        \<and> weight l1 + weight r1 \<le> weight l + weight r"
    proof (cases "ls \<and> has_all_special l = Inr False")
      case True
      with Binary(6) obtain l' where l': "bpf_split_special l = Inr l'" "merge_lhs op r l' = Inr (l1, r1)" by auto
      show ?thesis
        using less.IH [OF _ l'(1)] merge_lhs_same [OF l'(2), of \<rho>] weight_merge_lhs [OF l'(2)]
          bpf_split_special_weight [OF bpf_split_special_total l'(1)] e w by simp
    qed (use Binary(6) e in simp)
    show ?thesis
    proof (cases rs)
      case True
      with Binary(7) obtain r' where r': "bpf_split_special r1 = Inr r'" "merge_rhs op l1 r' = Inr e'" by auto
      have "weight r1 < weight e" using lr w weight_pos [of l1] by linarith
      then show ?thesis
        using less.IH [OF _ r'(1)] merge_rhs_same [OF r'(2), of \<rho>] lr by simp
    qed (use Binary(7) lr in simp)
  qed (simp add: remove_double_not)
qed

lemma leaves_special:
  "leaves e = leaves e' \<Longrightarrow> null_free e = null_free e' \<and> some_special e = some_special e' \<and> all_special e = all_special e'"
  by (simp add: null_free_def some_special_def all_special_def)

lemma buildable_binary:
  assumes "null_free l" "null_free r"
  shows "is_buildable (Binary_logical l r op)
    = Inr (\<not> some_special l \<and> \<not> some_special r \<or> all_special l \<and> (\<not> some_special r \<or> all_special r))"
  using assms all_special_some [of l] by (auto simp: is_buildable_def has_special_eq has_all_special_eq)

lemma buildable_mixed:
  assumes "is_buildable e = Inr True" "null_free e" "some_special e" "\<not> all_special e"
  obtains l r op where "e = Binary_logical l r op" "all_special l" "\<not> some_special r"
proof (cases e)
  case (Unary_logical u op)
  then show ?thesis using assms by (simp add: is_buildable_def has_special_eq has_all_special_eq)
next
  case (Binary_logical l r op)
  then show ?thesis using assms that buildable_binary [of l r op] by auto
qed (use assms in auto)

lemma merge_rhs_buildable:
  assumes "merge_rhs op l r = Inr e" "all_special l" "null_free l" "null_free r"
    "is_buildable r = Inr True" "some_special r" "\<not> all_special r"
  shows "is_buildable e = Inr True"
proof -
  obtain cl cr cop where "r = Binary_logical cl cr cop" "all_special cl" "\<not> some_special cr"
    using buildable_mixed assms(4-7) by metis
  then show ?thesis
    using assms(1-4) by (auto simp: merge_rhs_def buildable_binary split: if_splits)
qed

lemma bpf_split_special_buildable:
  "bpf_split_special e = Inr e' \<Longrightarrow> null_free e \<Longrightarrow> is_buildable e' = Inr True"
proof (induction e arbitrary: e' rule: measure_induct_rule [of weight])
  case (less e)
  from less.prems(1) show ?case
  proof (cases rule: split_cases)
    case (De_Morgan l r bop op)
    have "null_free l \<and> null_free r"
      using De_Morgan(1) leaves_special [OF remove_double_not(2) [of e]] less.prems(2) by simp
    then show ?thesis
      using less.IH [OF _ De_Morgan(3)] weight_operands(2) [OF De_Morgan(1)] by simp
  next
    case (Binary l r op ls rs l1 r1)
    have nf: "null_free l" "null_free r"
      using Binary(1) leaves_special [OF remove_double_not(2) [of e]] less.prems(2) by auto
    then have s: "ls = some_special l" "rs = some_special r" using Binary(3,4) by (simp_all add: has_special_eq)
    have w: "weight l + weight r + 1 \<le> weight e" using Binary(1) weight_operands(1) [of e] by fastforce
    have ls: "some_special l" and mixed: "rs \<Longrightarrow> all_special l \<Longrightarrow> \<not> all_special r"
      using Binary(1,2,5) s nf by (auto simp: buildable_binary)
    have parts: "all_special l1 \<and> null_free l1 \<and> null_free r1 \<and> some_special r1 = rs \<and> weight r1 < weight e
        \<and> (rs \<longrightarrow> \<not> all_special r1)"
    proof (cases "all_special l")
      case False
      with Binary(6) s ls nf obtain l' where l': "bpf_split_special l = Inr l'" "merge_lhs op r l' = Inr (l1, r1)"
        by (auto simp: has_all_special_eq)
      have lv: "leaves l' = leaves l" using bpf_split_special_same [OF l'(1)] by simp
      have "is_buildable l' = Inr True" using less.IH [OF _ l'(1)] w nf by simp
      then obtain cl cr cop where c: "l' = Binary_logical cl cr cop" "all_special cl" "\<not> some_special cr"
        using buildable_mixed leaves_special [OF lv] nf ls False by metis
      moreover have "weight r1 < weight e"
        using weight_merge_lhs [OF l'(2)] bpf_split_special_weight [OF bpf_split_special_total l'(1)] w by simp
      ultimately show ?thesis
        using l'(2) leaves_special [OF lv] nf s all_special_some [of cr]
        by (auto simp: merge_lhs_def bind_result_Inr split: if_splits)
    next
      case True
      then have "l1 = l \<and> r1 = r" using Binary(6) nf by (auto simp: has_all_special_eq)
      then show ?thesis using True nf s mixed w by simp
    qed
    show ?thesis
    proof (cases rs)
      case True
      with Binary(7) obtain r' where r': "bpf_split_special r1 = Inr r'" "merge_rhs op l1 r' = Inr e'" by auto
      have "leaves r' = leaves r1" using bpf_split_special_same [OF r'(1)] by simp
      then show ?thesis
        using merge_rhs_buildable [OF r'(2)] less.IH [OF _ r'(1)] leaves_special parts True by metis
    qed (use Binary(7) parts in \<open>auto simp: buildable_binary\<close>)
  qed simp
qed

text \<open>
  C21: Splitting a filter keeps its meaning, whatever its terms mean, and its terms; the result is
  one the builder accepts: all terms special, none of them, or special terms on the left of a single
  operator and libpcap's on its right.
\<close>

theorem bpf_split_special_correct:
  assumes "bpf_split_special e = Inr e'" and "null_free e"
  shows "(\<forall>\<rho>. eval \<rho> e' = eval \<rho> e) \<and> leaves e' = leaves e \<and> is_buildable e' = Inr True"
  using bpf_split_special_same [OF assms(1)] bpf_split_special_buildable [OF assms] by blast

theorem bpf_split_special_correct_witness:
  "\<exists>e'. bpf_split_special (Unary_logical (Binary_logical (Generic_match ''ip'') (Signature_match None) Op_or) Op_not) = Inr e'
     \<and> (\<forall>\<rho>. eval \<rho> e' = eval \<rho> (Unary_logical (Binary_logical (Generic_match ''ip'') (Signature_match None) Op_or) Op_not))
     \<and> is_buildable e' = Inr True"
proof -
  let ?e = "Unary_logical (Binary_logical (Generic_match ''ip'') (Signature_match None) Op_or) Op_not"
  let ?e' = "Binary_logical (Unary_logical (Signature_match None) Op_not) (Unary_logical (Generic_match ''ip'') Op_not) Op_and"
  have "bpf_split_special ?e = Inr ?e'"
    by (simp add: bpf_split_special.simps Let_def is_buildable_def has_special_eq has_all_special_eq
        expr_toggle_binary_op_def)
  from bpf_split_special_correct [OF this] this show ?thesis by auto
qed

end
