(* ===== verification/Bpf_Build.thy ===== *)
theory Bpf_Build
  imports Bpf_Vm Bpf_Split
begin

text \<open>
  The compiler of special filter terms, \<^verbatim>\<open>src/modules/packet/bpf/bpf_build.cpp\<close> and \<^verbatim>\<open>bpf_build.hpp\<close>.
  A term becomes a short block of instructions whose conditional jumps are left open: the jump map
  says for each of them whether it goes where a matching (\<open>PASS\<close>) or a failing (\<open>FAIL\<close>) packet
  goes. Negation exchanges the two, a connective resolves one of them to the start of its right
  operand, and the end of the program resolves what is left.
\<close>

unbundle bit_operations_syntax

subsection \<open>Scratch words, flags and jump bookkeeping\<close>

definition BPF_MEM_PKTFLAGS :: u32 where "BPF_MEM_PKTFLAGS = 0"
definition BPF_MEM_STREAM_ID :: u32 where "BPF_MEM_STREAM_ID = 1"

definition BPF_PKTFLAG_FCS_ERROR :: u32 where "BPF_PKTFLAG_FCS_ERROR = 0x01"
definition BPF_PKTFLAG_IP_CHKSUM_ERROR :: u32 where "BPF_PKTFLAG_IP_CHKSUM_ERROR = 0x02"
definition BPF_PKTFLAG_TCP_CHKSUM_ERROR :: u32 where "BPF_PKTFLAG_TCP_CHKSUM_ERROR = 0x04"
definition BPF_PKTFLAG_UDP_CHKSUM_ERROR :: u32 where "BPF_PKTFLAG_UDP_CHKSUM_ERROR = 0x08"
definition BPF_PKTFLAG_ICMP_CHKSUM_ERROR :: u32 where "BPF_PKTFLAG_ICMP_CHKSUM_ERROR = 0x10"
definition BPF_PKTFLAG_PRBS_ERROR :: u32 where "BPF_PKTFLAG_PRBS_ERROR = 0x20"
definition BPF_PKTFLAG_SIGNATURE :: u32 where "BPF_PKTFLAG_SIGNATURE = 0x40"

lemmas pkt_flags = BPF_MEM_PKTFLAGS_def BPF_MEM_STREAM_ID_def BPF_PKTFLAG_FCS_ERROR_def
  BPF_PKTFLAG_IP_CHKSUM_ERROR_def BPF_PKTFLAG_TCP_CHKSUM_ERROR_def BPF_PKTFLAG_UDP_CHKSUM_ERROR_def
  BPF_PKTFLAG_ICMP_CHKSUM_ERROR_def BPF_PKTFLAG_PRBS_ERROR_def BPF_PKTFLAG_SIGNATURE_def

datatype bpf_branch_type = PASS | FAIL

record bpf_insn_jmp_info =
  jmp_jt :: "bpf_branch_type option"
  jmp_jf :: "bpf_branch_type option"

type_synonym jmp_map = "nat \<rightharpoonup> bpf_insn_jmp_info"
type_synonym build_state = "bpf_insn list \<times> jmp_map"

definition jmp_info :: "bpf_branch_type option \<Rightarrow> bpf_branch_type option \<Rightarrow> bpf_insn_jmp_info" where
  "jmp_info t e = \<lparr>jmp_jt = t, jmp_jf = e\<rparr>"

definition binary_logical_op_resolves_jmp :: "binary_logical_op \<Rightarrow> bpf_branch_type" where
  "binary_logical_op_resolves_jmp op = (if op = Op_and then PASS else FAIL)"

definition bpf_invert_branch_type :: "bpf_branch_type \<Rightarrow> bpf_branch_type" where
  "bpf_invert_branch_type b = (if b = PASS then FAIL else PASS)"

text \<open>The offset is computed in \<open>size_t\<close> and stored in eight bits.\<close>

definition jmp_distance :: "nat \<Rightarrow> nat \<Rightarrow> u8" where
  "jmp_distance target index = word_of_int (int target - int index - 1)"

definition bpf_resolve_one :: "bpf_branch_type \<Rightarrow> nat \<Rightarrow> nat \<Rightarrow> build_state \<Rightarrow> build_state" where
  "bpf_resolve_one branch jmp_offset index = (\<lambda>(bf_insns, jmp_map).
     case jmp_map index of
       None \<Rightarrow> (bf_insns, jmp_map)
     | Some tf_cond \<Rightarrow>
         let d = jmp_distance jmp_offset index; i = bf_insns ! index;
             t = (jmp_jt tf_cond = Some branch); e = (jmp_jf tf_cond = Some branch);
             i = (if t then i\<lparr>insn_jt := d\<rparr> else i);
             i = (if e then i\<lparr>insn_jf := d\<rparr> else i);
             tf_cond = (if t then tf_cond\<lparr>jmp_jt := None\<rparr> else tf_cond);
             tf_cond = (if e then tf_cond\<lparr>jmp_jf := None\<rparr> else tf_cond) in
           (bf_insns[index := i],
            jmp_map(index := if jmp_jt tf_cond = None \<and> jmp_jf tf_cond = None then None else Some tf_cond)))"

definition bpf_resolve_jmp :: "nat \<Rightarrow> nat \<Rightarrow> bpf_branch_type \<Rightarrow> nat \<Rightarrow> build_state \<Rightarrow> build_state" where
  "bpf_resolve_jmp start count branch jmp_offset =
     fold (bpf_resolve_one branch jmp_offset) [start..<start + count]"

definition bpf_invert_jmp :: "jmp_map \<Rightarrow> nat \<Rightarrow> nat \<Rightarrow> jmp_map" where
  "bpf_invert_jmp jmp_map start count = (\<lambda>i.
     if start \<le> i \<and> i < start + count
     then map_option (\<lambda>c. jmp_info (map_option bpf_invert_branch_type (jmp_jt c))
                                   (map_option bpf_invert_branch_type (jmp_jf c))) (jmp_map i)
     else jmp_map i)"

definition bpf_find_ret :: "bpf_insn list \<Rightarrow> nat \<Rightarrow> bpf_branch_type \<Rightarrow> nat" where
  "bpf_find_ret bf_insns offset branch =
     (case find (\<lambda>i. insn_code (bf_insns ! i) AND (BPF_RET OR BPF_K) \<noteq> 0
                     \<and> (if branch = PASS then insn_k (bf_insns ! i) \<noteq> 0 else insn_k (bf_insns ! i) = 0))
                [offset..<length bf_insns] of
        Some i \<Rightarrow> i | None \<Rightarrow> length bf_insns)"

subsection \<open>The program of an expression\<close>

definition valid_pkt_flags :: "u32 \<Rightarrow> u32" where
  "valid_pkt_flags flags =
     (if has_flag flags ETH_FCS then BPF_PKTFLAG_FCS_ERROR else 0) OR
     (if has_flag flags IP_CHKSUM then BPF_PKTFLAG_IP_CHKSUM_ERROR else 0) OR
     (if has_flag flags TCP_CHKSUM then BPF_PKTFLAG_TCP_CHKSUM_ERROR else 0) OR
     (if has_flag flags UDP_CHKSUM then BPF_PKTFLAG_UDP_CHKSUM_ERROR else 0) OR
     (if has_flag flags ICMP_CHKSUM then BPF_PKTFLAG_ICMP_CHKSUM_ERROR else 0) OR
     (if has_flag flags SIGNATURE_PRBS then BPF_PKTFLAG_PRBS_ERROR else 0)"

definition visit_valid :: "u32 \<Rightarrow> build_state \<Rightarrow> build_state" where
  "visit_valid flags = (\<lambda>(bf_insns, jmp_map).
     (bf_insns @ [insn (BPF_LD OR BPF_MEM) 0 0 BPF_MEM_PKTFLAGS,
                  insn (BPF_JMP OR BPF_JSET OR BPF_K) 0 0 (valid_pkt_flags flags)],
      jmp_map(length bf_insns + 1 \<mapsto> jmp_info (Some PASS) (Some FAIL))))"

definition visit_signature :: "stream_id_range option \<Rightarrow> build_state \<Rightarrow> build_state" where
  "visit_signature stream_id = (\<lambda>(bf_insns, jmp_map).
     let n = length bf_insns;
         is = [insn (BPF_LD OR BPF_MEM) 0 0 BPF_MEM_PKTFLAGS,
               insn (BPF_JMP OR BPF_JSET OR BPF_K) 0 0 BPF_PKTFLAG_SIGNATURE] in
       case stream_id of
         None \<Rightarrow> (bf_insns @ is, jmp_map(n + 1 \<mapsto> jmp_info (Some PASS) (Some FAIL)))
       | Some val \<Rightarrow>
           let is = is @ [insn (BPF_LD OR BPF_MEM) 0 0 BPF_MEM_STREAM_ID];
               jmp_map = jmp_map(n + 1 \<mapsto> jmp_info None (Some FAIL)) in
             if range_start val = range_end val
             then (bf_insns @ is @ [insn (BPF_JMP OR BPF_JEQ OR BPF_K) 0 0 (range_start val)],
                   jmp_map(n + 3 \<mapsto> jmp_info (Some PASS) (Some FAIL)))
             else (bf_insns @ is @ [insn (BPF_JMP OR BPF_JGE OR BPF_K) 0 0 (range_start val),
                                    insn (BPF_JMP OR BPF_JGT OR BPF_K) 0 0 (range_end val)],
                   jmp_map(n + 3 \<mapsto> jmp_info None (Some FAIL), n + 4 \<mapsto> jmp_info (Some FAIL) (Some PASS))))"

fun visit :: "expr \<Rightarrow> build_state \<Rightarrow> build_state result" where
  "visit Null s = Inl Null_deref"
| "visit (Generic_match _) s = Inl (Throw ''Unexpected generic_match_expr'')"
| "visit (Valid_match flags) s = Inr (visit_valid flags s)"
| "visit (Signature_match i) s = Inr (visit_signature i s)"
| "visit (Unary_logical e _) s =
     (let block_start = length (fst s) in
        bind_result (visit e s) (\<lambda>(bf_insns, jmp_map).
          let block_end = length bf_insns in
            Inr (bf_insns, bpf_invert_jmp jmp_map block_start (block_end - block_start))))"
| "visit (Binary_logical l r op) s =
     (let lhs_block_start = length (fst s) in
        bind_result (visit l s) (\<lambda>s.
          let rhs_block_start = length (fst s) in
            bind_result (visit r s) (\<lambda>s.
              Inr (bpf_resolve_jmp lhs_block_start (rhs_block_start - lhs_block_start)
                     (binary_logical_op_resolves_jmp op) rhs_block_start s))))"

text \<open>\<open>None\<close> is the result \<open>false\<close>; a null dereference is not caught.\<close>

definition bpf_build_prog_special :: "expr \<Rightarrow> build_state \<Rightarrow> build_state option result" where
  "bpf_build_prog_special e s =
     (case visit e s of Inr s \<Rightarrow> Inr (Some s) | Inl (Throw _) \<Rightarrow> Inr None | Inl Null_deref \<Rightarrow> Inl Null_deref)"

definition bpf_build_prog_all_special :: "expr \<Rightarrow> bpf_insn list \<Rightarrow> bpf_insn list option result" where
  "bpf_build_prog_all_special e bf_insns =
     (let block_start = length bf_insns in
        bind_result (bpf_build_prog_special e (bf_insns, Map.empty)) (\<lambda>b.
          case b of
            None \<Rightarrow> Inr None
          | Some (bf_insns, jmp_map) \<Rightarrow>
              let block_end = length bf_insns;
                  pass_index = length bf_insns;
                  bf_insns = bf_insns @ [insn (BPF_RET OR BPF_K) 0 0 0x00040000];
                  fail_index = length bf_insns;
                  bf_insns = bf_insns @ [insn (BPF_RET OR BPF_K) 0 0 0x00000000];
                  s = bpf_resolve_jmp block_start block_end PASS pass_index (bf_insns, jmp_map);
                  s = bpf_resolve_jmp block_start block_end FAIL fail_index s in
                Inr (Some (fst s))))"

text \<open>
  The libpcap half of a mixed filter comes from \<open>bpf_compile\<close>, which is \<open>pcap_compile_nopcap\<close>: an
  argument, \<open>None\<close> when libpcap rejects the expression.
\<close>

definition bpf_build_prog_mixed ::
  "(string \<Rightarrow> bpf_insn list option) \<Rightarrow> expr \<Rightarrow> expr \<Rightarrow> binary_logical_op \<Rightarrow> bpf_insn list
     \<Rightarrow> bpf_insn list option result" where
  "bpf_build_prog_mixed bpf_compile lhs rhs op bf_insns =
     (let lhs_block_start = length bf_insns in
        bind_result (bpf_build_prog_special lhs (bf_insns, Map.empty)) (\<lambda>b.
          case b of
            None \<Rightarrow> Inr None
          | Some (bf_insns, jmp_map) \<Rightarrow>
              let rhs_block_start = length bf_insns in
                bind_result (to_string rhs) (\<lambda>libpcap_filter_str.
                  case bpf_compile libpcap_filter_str of
                    None \<Rightarrow> Inr None
                  | Some prog \<Rightarrow>
                      let count = rhs_block_start - lhs_block_start;
                          resolved = binary_logical_op_resolves_jmp op;
                          (bf_insns, jmp_map) =
                            bpf_resolve_jmp lhs_block_start count resolved rhs_block_start
                              (bf_insns @ prog, jmp_map);
                          resolved = bpf_invert_branch_type resolved;
                          ret_index = bpf_find_ret bf_insns rhs_block_start resolved;
                          ret_val = (if resolved = PASS then 0x00040000 else 0);
                          (bf_insns, ret_index) =
                            (if ret_index \<ge> length bf_insns
                             then (bf_insns @ [insn (BPF_RET OR BPF_K) 0 0 ret_val], length bf_insns)
                             else (bf_insns, ret_index)) in
                        Inr (Some (fst (bpf_resolve_jmp lhs_block_start count resolved ret_index
                                          (bf_insns, jmp_map)))))))"

subsection \<open>Resolving and filling in jumps\<close>

text \<open>
  \<open>fill tg\<close> is the instruction with its open jumps directed to \<open>tg PASS\<close> and \<open>tg FAIL\<close>. A program
  \<open>P\<close> has a block \<^emph>\<open>filled in\<close> when the instructions of the block are there with their jumps so
  directed, and resolving a branch is one more way to say where it goes.
\<close>

definition fill_info :: "(bpf_branch_type \<Rightarrow> nat) \<Rightarrow> nat \<Rightarrow> bpf_insn_jmp_info \<Rightarrow> bpf_insn \<Rightarrow> bpf_insn" where
  "fill_info tg i c p =
     p\<lparr>insn_jt := (case jmp_jt c of None \<Rightarrow> insn_jt p | Some b \<Rightarrow> jmp_distance (tg b) i),
       insn_jf := (case jmp_jf c of None \<Rightarrow> insn_jf p | Some b \<Rightarrow> jmp_distance (tg b) i)\<rparr>"

definition fill :: "(bpf_branch_type \<Rightarrow> nat) \<Rightarrow> nat \<Rightarrow> bpf_insn_jmp_info option \<Rightarrow> bpf_insn \<Rightarrow> bpf_insn" where
  "fill tg i c p = (case c of None \<Rightarrow> p | Some c \<Rightarrow> fill_info tg i c p)"

definition filled :: "bpf_insn list \<Rightarrow> build_state \<Rightarrow> nat \<Rightarrow> nat \<Rightarrow> (bpf_branch_type \<Rightarrow> nat) \<Rightarrow> bool" where
  "filled P s a b tg \<longleftrightarrow> b \<le> length P \<and> (\<forall>i. a \<le> i \<and> i < b \<longrightarrow> P ! i = fill tg i (snd s i) (fst s ! i))"

lemma fill_resolve_one:
  assumes "i < length (fst s)" "bpf_resolve_one b u i s = s'"
  shows "fill tg i (snd s' i) (fst s' ! i) = fill (tg(b := u)) i (snd s i) (fst s ! i)"
proof -
  obtain ins m where s: "s = (ins, m)" by (cases s)
  show ?thesis
  proof (cases "m i")
    case None
    then show ?thesis using assms(2) [symmetric] by (simp add: s bpf_resolve_one_def fill_def)
  next
    case (Some c)
    obtain t e where c: "c = \<lparr>jmp_jt = t, jmp_jf = e\<rparr>" by (cases c)
    obtain co jt jf k where p: "ins ! i = \<lparr>insn_code = co, insn_jt = jt, insn_jf = jf, insn_k = k\<rparr>"
      by (cases "ins ! i") auto
    have len: "i < length ins" using assms(1) s by simp
    show ?thesis using assms(2) [symmetric] len
      by (cases "t = Some b"; cases "e = Some b"; cases t; cases e)
        (simp_all add: s Some c p bpf_resolve_one_def fill_def fill_info_def Let_def)
  qed
qed

lemma bpf_resolve_one_other:
  "i \<noteq> j \<Longrightarrow> fst (bpf_resolve_one b u i s) ! j = fst s ! j \<and> snd (bpf_resolve_one b u i s) j = snd s j"
  "length (fst (bpf_resolve_one b u i s)) = length (fst s)"
  by (auto simp: bpf_resolve_one_def Let_def split: prod.splits option.splits)

lemma bpf_resolve_jmp_length [simp]: "length (fst (bpf_resolve_jmp a n b u s)) = length (fst s)"
proof -
  have "length (fst (fold (bpf_resolve_one b u) xs s)) = length (fst s)" for xs
    by (induction xs arbitrary: s) (auto simp: bpf_resolve_one_other)
  then show ?thesis by (simp add: bpf_resolve_jmp_def)
qed

lemma bpf_resolve_jmp_nth:
  assumes "a + n \<le> length (fst s)"
  shows "fill tg i (snd (bpf_resolve_jmp a n b u s) i) (fst (bpf_resolve_jmp a n b u s) ! i)
      = fill (if a \<le> i \<and> i < a + n then tg(b := u) else tg) i (snd s i) (fst s ! i)"
    and "\<not> (a \<le> i \<and> i < a + n) \<Longrightarrow> snd (bpf_resolve_jmp a n b u s) i = snd s i
      \<and> fst (bpf_resolve_jmp a n b u s) ! i = fst s ! i"
  using assms
proof (induction n arbitrary: i)
  case (Suc n)
  have step: "bpf_resolve_jmp a (Suc n) b u s = bpf_resolve_one b u (a + n) (bpf_resolve_jmp a n b u s)"
    by (simp add: bpf_resolve_jmp_def)
  case 1
  show ?case
  proof (cases "i = a + n")
    case True
    then show ?thesis
      using fill_resolve_one [OF _ step [symmetric], of tg] Suc(2) [of "a + n"] 1 by (simp add: fun_upd_def)
  next
    case False
    then show ?thesis
      using Suc(1) 1 bpf_resolve_one_other(1) [of "a + n" i b u "bpf_resolve_jmp a n b u s"]
      by (auto simp: step)
  qed
  case 2
  then show ?case
    using Suc(2) bpf_resolve_one_other(1) [of "a + n" i b u "bpf_resolve_jmp a n b u s"] by (auto simp: step)
qed (auto simp: bpf_resolve_jmp_def)

lemma filled_resolve:
  assumes "filled P (bpf_resolve_jmp a (u - a) b v s) a t tg" "a \<le> u" "u \<le> t" "t \<le> length (fst s)"
  shows "filled P s a u (tg(b := v)) \<and> filled P s u t tg"
  using assms unfolding filled_def by (auto simp: bpf_resolve_jmp_nth(1))

lemma fill_invert:
  assumes "a \<le> i" "i < a + n"
  shows "fill tg i (bpf_invert_jmp m a n i) p = fill (tg \<circ> bpf_invert_branch_type) i (m i) p"
  using assms
  by (auto simp: bpf_invert_jmp_def fill_def fill_info_def jmp_info_def split: option.splits)

lemma filled_invert:
  "filled P (ins, bpf_invert_jmp m a (b - a)) a b tg \<Longrightarrow> filled P (ins, m) a b (tg \<circ> bpf_invert_branch_type)"
  by (auto simp: filled_def fill_invert)

subsection \<open>What a block leaves alone\<close>

definition extends :: "build_state \<Rightarrow> build_state \<Rightarrow> bool" where
  "extends s s' \<longleftrightarrow> length (fst s) < length (fst s')
     \<and> (\<forall>i < length (fst s). fst s' ! i = fst s ! i \<and> snd s' i = snd s i)"

lemma visit_extends: "visit e s = Inr s' \<Longrightarrow> extends s s'"
proof (induction e arbitrary: s s')
  case (Signature_match i)
  then show ?case
    by (auto simp: visit_signature_def extends_def Let_def nth_append split: prod.splits option.splits if_splits)
next
  case (Unary_logical e u)
  then show ?case
    by (fastforce simp: Let_def bind_result_Inr extends_def bpf_invert_jmp_def)
next
  case (Binary_logical l r op)
  from Binary_logical.prems obtain s1 s2 where v: "visit l s = Inr s1" "visit r s1 = Inr s2"
    and s': "s' = bpf_resolve_jmp (length (fst s)) (length (fst s1) - length (fst s))
                   (binary_logical_op_resolves_jmp op) (length (fst s1)) s2"
    by (auto simp: Let_def bind_result_Inr)
  have "extends s s1" "extends s1 s2" using Binary_logical.IH v by auto
  then show ?case
    using bpf_resolve_jmp_nth(2) [of "length (fst s)" "length (fst s1) - length (fst s)" s2]
    by (auto simp: extends_def s')
qed (auto simp: visit_valid_def extends_def nth_append split: prod.splits)

subsection \<open>Running the instructions of a block\<close>

lemma build_ops:
  "map_of op_table (BPF_LD OR BPF_MEM) = Some Ld_Mem"
  "map_of op_table (BPF_JMP OR BPF_JSET OR BPF_K) = Some (Jump Jset Src_K)"
  "map_of op_table (BPF_JMP OR BPF_JEQ OR BPF_K) = Some (Jump Jeq Src_K)"
  "map_of op_table (BPF_JMP OR BPF_JGE OR BPF_K) = Some (Jump Jge Src_K)"
  "map_of op_table (BPF_JMP OR BPF_JGT OR BPF_K) = Some (Jump Jgt Src_K)"
  "map_of op_table (BPF_RET OR BPF_K) = Some Ret_K"
  by (simp_all add: op_table_def bpf_codes)

lemma run_ld_mem:
  assumes "pc < length P" "P ! pc = insn (BPF_LD OR BPF_MEM) t e k" "unat k < length (mem m)" "mem m ! unat k = Some v"
  shows "run args P pc m = run args P (pc + 1) (m\<lparr>acc := v\<rparr>)"
  using assms by (simp add: run.simps [of args P pc] exec_insn_def insn_def build_ops exec_op_def mem_load_def)

lemma run_jump:
  assumes "pc < length P" "P ! pc = insn c t e k" "map_of op_table c = Some (Jump f Src_K)"
  shows "run args P pc m = run args P (pc + 1 + unat (if jump_taken f (acc m) k then t else e)) m"
  using assms by (simp add: run.simps [of args P pc] exec_insn_def insn_def exec_op_def operand_val_def)

lemma run_ret:
  assumes "pc < length P" "P ! pc = insn (BPF_RET OR BPF_K) t e k"
  shows "run args P pc m = (Ret k, mem m)"
  using assms by (simp add: run.simps [of args P pc] exec_insn_def insn_def build_ops exec_op_def)

lemma jmp_distance_exact:
  assumes "i < u" "u \<le> i + 256"
  shows "i + 1 + unat (jmp_distance u i) = u"
proof -
  obtain n where n: "u = i + 1 + n" using assms(1) less_iff_Suc_add by auto
  then have "jmp_distance u i = of_nat n" by (simp add: jmp_distance_def)
  moreover have "unat (of_nat n :: u8) = n" using n assms(2) by (intro unat_of_nat_small) simp
  ultimately show ?thesis using n by simp
qed

text \<open>The packet as the machine sees it: its flags and, when it is signed, its stream id.\<close>

definition sees_packet :: "u32 \<Rightarrow> u32 \<Rightarrow> machine \<Rightarrow> bool" where
  "sees_packet flags stream_id m \<longleftrightarrow> 2 \<le> length (mem m) \<and> mem m ! 0 = Some flags
     \<and> (has_flag flags BPF_PKTFLAG_SIGNATURE \<longrightarrow> mem m ! 1 = Some stream_id)"

definition in_range :: "stream_id_range \<Rightarrow> u32 \<Rightarrow> bool" where
  "in_range r n \<longleftrightarrow> range_start r \<le> n \<and> n \<le> range_end r"

definition leaf_matches :: "(string \<Rightarrow> bool) \<Rightarrow> u32 \<Rightarrow> u32 \<Rightarrow> expr \<Rightarrow> bool" where
  "leaf_matches g flags stream_id e \<longleftrightarrow>
     (case e of
        Generic_match s \<Rightarrow> g s
      | Valid_match f \<Rightarrow> has_flag flags (valid_pkt_flags f)
      | Signature_match None \<Rightarrow> has_flag flags BPF_PKTFLAG_SIGNATURE
      | Signature_match (Some r) \<Rightarrow> has_flag flags BPF_PKTFLAG_SIGNATURE \<and> in_range r stream_id
      | _ \<Rightarrow> False)"

definition outcome_branch :: "bool \<Rightarrow> bpf_branch_type" where
  "outcome_branch b = (if b then PASS else FAIL)"

definition reaches :: "bpf_args \<Rightarrow> bpf_insn list \<Rightarrow> nat \<Rightarrow> machine \<Rightarrow> nat \<Rightarrow> bool" where
  "reaches args P pc m pc' \<longleftrightarrow> (\<exists>a. run args P pc m = run args P pc' (m\<lparr>acc := a\<rparr>))"

lemma sees_packet_acc [simp]: "sees_packet f i (m\<lparr>acc := a\<rparr>) = sees_packet f i m"
  by (simp add: sees_packet_def)

lemma reaches_step: "run args P pc m = run args P pc' (m\<lparr>acc := a\<rparr>) \<Longrightarrow> reaches args P pc' (m\<lparr>acc := a\<rparr>) q \<Longrightarrow> reaches args P pc m q"
  by (auto simp: reaches_def)

lemma reaches_trans:
  assumes "reaches args P pc m q" "\<And>a. reaches args P q (m\<lparr>acc := a\<rparr>) r"
  shows "reaches args P pc m r"
  using assms by (auto simp: reaches_def)

lemma filled_insn:
  assumes "filled P s a b tg" "a \<le> i" "i < b" "fst s ! i = insn c 0 0 k"
  shows "i < length P" "snd s i = None \<Longrightarrow> P ! i = insn c 0 0 k"
    "snd s i = Some (jmp_info t e) \<Longrightarrow>
       P ! i = insn c (case t of None \<Rightarrow> 0 | Some x \<Rightarrow> jmp_distance (tg x) i)
                      (case e of None \<Rightarrow> 0 | Some x \<Rightarrow> jmp_distance (tg x) i) k"
  using assms by (auto simp: filled_def fill_def fill_info_def jmp_info_def insn_def split: option.split)

lemma block_load:
  assumes "filled P s a b tg" "a \<le> i" "i < b" "fst s ! i = insn (BPF_LD OR BPF_MEM) 0 0 k" "snd s i = None"
    "unat k < length (mem m)" "mem m ! unat k = Some v"
  shows "run args P i m = run args P (i + 1) (m\<lparr>acc := v\<rparr>)"
  using run_ld_mem [OF filled_insn(1,2) [OF assms(1-4)]] assms(5-7) by simp

definition in_reach :: "nat \<Rightarrow> nat \<Rightarrow> (bpf_branch_type \<Rightarrow> nat) \<Rightarrow> bool" where
  "in_reach a b tg \<longleftrightarrow> (\<forall>x. b \<le> tg x \<and> tg x \<le> a + 256)"

lemma in_reachD: "in_reach a b tg \<Longrightarrow> a \<le> i \<Longrightarrow> i < b \<Longrightarrow> i + 1 + unat (jmp_distance (tg x) i) = tg x"
  unfolding in_reach_def by (intro jmp_distance_exact) (meson less_le_trans, meson add_le_mono1 order_trans)

lemma block_jump:
  assumes "filled P s a b tg" "a \<le> i" "i < b" "fst s ! i = insn c 0 0 k" "snd s i = Some (jmp_info t e)"
    "map_of op_table c = Some (Jump f Src_K)" "in_reach a b tg"
  shows "run args P i m
    = run args P (case (if jump_taken f (acc m) k then t else e) of None \<Rightarrow> i + 1 | Some x \<Rightarrow> tg x) m"
  using run_jump [OF filled_insn(1,3) [OF assms(1-4)] assms(6), OF assms(5)] in_reachD [OF assms(7,2,3)]
  by (auto split: option.split)

lemma flags_block:
  assumes fl: "filled P s' n b tg" and "in_reach n b tg" "sees_packet flags i m" "n + 2 \<le> b"
    and ins: "fst s' ! n = insn (BPF_LD OR BPF_MEM) 0 0 BPF_MEM_PKTFLAGS"
      "fst s' ! (n + 1) = insn (BPF_JMP OR BPF_JSET OR BPF_K) 0 0 k"
      "snd s' n = None" "snd s' (n + 1) = Some (jmp_info t e)"
  shows "run args P n m = run args P (case (if has_flag flags k then t else e) of None \<Rightarrow> n + 2 | Some x \<Rightarrow> tg x)
    (m\<lparr>acc := flags\<rparr>)"
proof -
  have "run args P n m = run args P (n + 1) (m\<lparr>acc := flags\<rparr>)"
    by (rule block_load [OF fl _ _ ins(1,3)]) (use assms(3,4) in \<open>auto simp: sees_packet_def pkt_flags\<close>)
  also have "\<dots> = run args P (case (if has_flag flags k then t else e) of None \<Rightarrow> n + 2 | Some x \<Rightarrow> tg x) (m\<lparr>acc := flags\<rparr>)"
    using block_jump [OF fl _ _ ins(2,4) build_ops(2) assms(2), of args "m\<lparr>acc := flags\<rparr>"] assms(4)
    by (auto simp: jump_taken_def has_flag_def numeral_2_eq_2 split: if_splits option.split)
  finally show ?thesis .
qed

lemma valid_block:
  assumes "filled P (visit_valid f s) (length (fst s)) (length (fst (visit_valid f s))) tg"
    "in_reach (length (fst s)) (length (fst (visit_valid f s))) tg" "sees_packet flags i m"
    "\<forall>j \<ge> length (fst s). snd s j = None"
  shows "reaches args P (length (fst s)) m (tg (outcome_branch (has_flag flags (valid_pkt_flags f))))"
proof -
  have "run args P (length (fst s)) m
      = run args P (tg (outcome_branch (has_flag flags (valid_pkt_flags f)))) (m\<lparr>acc := flags\<rparr>)"
    using flags_block [OF assms(1-3), of "valid_pkt_flags f" "Some PASS" "Some FAIL" args] assms(4)
    by (cases s) (auto simp: visit_valid_def nth_append outcome_branch_def split: if_splits)
  then show ?thesis by (auto simp: reaches_def)
qed

lemma signature_block:
  assumes "filled P (visit_signature r s) (length (fst s)) (length (fst (visit_signature r s))) tg"
    "in_reach (length (fst s)) (length (fst (visit_signature r s))) tg" "sees_packet flags i m"
    "\<forall>j \<ge> length (fst s). snd s j = None"
  shows "reaches args P (length (fst s)) m (tg (outcome_branch (leaf_matches g flags i (Signature_match r))))"
proof (cases r)
  case None
  have "run args P (length (fst s)) m
      = run args P (tg (outcome_branch (has_flag flags BPF_PKTFLAG_SIGNATURE))) (m\<lparr>acc := flags\<rparr>)"
    using flags_block [OF assms(1-3), of BPF_PKTFLAG_SIGNATURE "Some PASS" "Some FAIL" args] assms(4) None
    by (cases s) (auto simp: visit_signature_def nth_append outcome_branch_def split: if_splits)
  then show ?thesis using None by (auto simp: reaches_def leaf_matches_def)
next
  case (Some v)
  let ?n = "length (fst s)" and ?s' = "visit_signature r s"
  have n: "?n + 4 \<le> length (fst ?s')"
    by (cases s) (auto simp: Some visit_signature_def Let_def)
  have ins: "fst ?s' ! (?n + 2) = insn (BPF_LD OR BPF_MEM) 0 0 BPF_MEM_STREAM_ID" "snd ?s' (?n + 2) = None"
    using assms(4) by (cases s; auto simp: Some visit_signature_def Let_def nth_append)+
  have start: "run args P ?n m = run args P (if has_flag flags BPF_PKTFLAG_SIGNATURE then ?n + 2 else tg FAIL) (m\<lparr>acc := flags\<rparr>)"
    using flags_block [OF assms(1-3), of BPF_PKTFLAG_SIGNATURE None "Some FAIL" args] assms(4) n
    by (cases s) (auto simp: Some visit_signature_def nth_append Let_def split: if_splits)
  show ?thesis
  proof (cases "has_flag flags BPF_PKTFLAG_SIGNATURE")
    case False
    then show ?thesis using start by (auto simp: reaches_def Some leaf_matches_def outcome_branch_def)
  next
    case signed: True
    have load: "run args P (?n + 2) (m\<lparr>acc := flags\<rparr>) = run args P (?n + 3) (m\<lparr>acc := i\<rparr>)"
      using block_load [OF assms(1) _ _ ins, of "m\<lparr>acc := flags\<rparr>" i args] assms(3) signed n
      by (auto simp: sees_packet_def pkt_flags numeral_3_eq_3)
    have "run args P (?n + 3) (m\<lparr>acc := i\<rparr>) = run args P (tg (outcome_branch (in_range v i))) (m\<lparr>acc := i\<rparr>)"
    proof (cases "range_start v = range_end v")
      case True
      then show ?thesis
        using block_jump [OF assms(1) _ _ _ _ build_ops(3) assms(2), of "?n + 3" "range_start v" "Some PASS" "Some FAIL"
            args "m\<lparr>acc := i\<rparr>"] n
        by (cases s)
          (auto simp: Some visit_signature_def Let_def nth_append jump_taken_def in_range_def outcome_branch_def
            split: if_splits)
    next
      case False
      then have "run args P (?n + 3) (m\<lparr>acc := i\<rparr>)
          = run args P (if range_start v \<le> i then ?n + 4 else tg FAIL) (m\<lparr>acc := i\<rparr>)"
        using block_jump [OF assms(1) _ _ _ _ build_ops(4) assms(2), of "?n + 3" "range_start v" None "Some FAIL"
            args "m\<lparr>acc := i\<rparr>"] n
        by (cases s) (auto simp: Some visit_signature_def Let_def nth_append jump_taken_def add.commute split: if_splits)
      moreover have "run args P (?n + 4) (m\<lparr>acc := i\<rparr>)
          = run args P (if range_end v < i then tg FAIL else tg PASS) (m\<lparr>acc := i\<rparr>)"
        using block_jump [OF assms(1) _ _ _ _ build_ops(5) assms(2), of "?n + 4" "range_end v" "Some FAIL" "Some PASS"
            args "m\<lparr>acc := i\<rparr>"] n False
        by (cases s) (auto simp: Some visit_signature_def Let_def nth_append jump_taken_def split: if_splits)
      ultimately show ?thesis by (auto simp: in_range_def outcome_branch_def)
    qed
    then show ?thesis
      using start load signed by (auto simp: reaches_def Some leaf_matches_def)
  qed
qed

subsection \<open>A block decides its expression\<close>

lemma visit_fresh:
  "visit e s = Inr s' \<Longrightarrow> \<forall>j \<ge> length (fst s). snd s j = None \<Longrightarrow> \<forall>j \<ge> length (fst s'). snd s' j = None"
proof (induction e arbitrary: s s')
  case (Valid_match f)
  then show ?case by (cases s) (auto simp: visit_valid_def)
next
  case (Signature_match i)
  then show ?case
    by (cases s) (auto simp: visit_signature_def Let_def split: option.splits if_splits)
next
  case (Unary_logical e u)
  then obtain ins jm where v: "visit e s = Inr (ins, jm)"
    and s': "s' = (ins, bpf_invert_jmp jm (length (fst s)) (length ins - length (fst s)))"
    by (auto simp: Let_def bind_result_Inr)
  show ?case using Unary_logical.IH [OF v Unary_logical.prems(2)] by (auto simp: s' bpf_invert_jmp_def)
next
  case (Binary_logical l r op)
  from Binary_logical.prems(1) obtain s1 s2 where v: "visit l s = Inr s1" "visit r s1 = Inr s2"
    and s': "s' = bpf_resolve_jmp (length (fst s)) (length (fst s1) - length (fst s))
                   (binary_logical_op_resolves_jmp op) (length (fst s1)) s2"
    by (auto simp: Let_def bind_result_Inr)
  show ?case
    using Binary_logical.IH(2) [OF v(2) Binary_logical.IH(1) [OF v(1) Binary_logical.prems(2)]]
      visit_extends [OF v(1)] visit_extends [OF v(2)]
      bpf_resolve_jmp_nth(2) [of "length (fst s)" "length (fst s1) - length (fst s)" s2]
    by (auto simp: s' extends_def)
qed simp_all

lemma in_reach_resolve:
  assumes "in_reach a t tg" "u \<le> t" "a \<le> u"
  shows "in_reach a u (tg(b := u))" "in_reach u t tg"
proof -
  have "u \<le> tg x \<and> tg x \<le> a + 256" for x
    using assms(1,2) unfolding in_reach_def by (meson order_trans)
  moreover have "tg x \<le> u + 256" for x
    using assms(1,3) unfolding in_reach_def by (meson add_le_mono1 order_trans)
  ultimately show "in_reach a u (tg(b := u))" "in_reach u t tg"
    using assms(1) unfolding in_reach_def by (auto intro: order_trans)
qed

lemma visit_block:
  assumes "visit e s = Inr s'" "filled P s' (length (fst s)) (length (fst s')) tg"
    "in_reach (length (fst s)) (length (fst s')) tg" "sees_packet flags i m" "\<forall>j \<ge> length (fst s). snd s j = None"
  shows "reaches args P (length (fst s)) m (tg (outcome_branch (eval (leaf_matches g flags i) e)))"
  using assms
proof (induction e arbitrary: s s' tg m)
  case (Valid_match f)
  then show ?case using valid_block [of P f s tg flags i m] by (simp add: leaf_matches_def)
next
  case (Signature_match r)
  then show ?case using signature_block [of P r s tg flags i m] by simp
next
  case (Unary_logical e u)
  then obtain ins jm where v: "visit e s = Inr (ins, jm)"
    and s': "s' = (ins, bpf_invert_jmp jm (length (fst s)) (length ins - length (fst s)))"
    by (auto simp: Let_def bind_result_Inr)
  have "in_reach (length (fst s)) (length (fst (ins, jm))) (tg \<circ> bpf_invert_branch_type)"
    using Unary_logical.prems(3) by (simp add: in_reach_def s')
  moreover have "filled P (ins, jm) (length (fst s)) (length (fst (ins, jm))) (tg \<circ> bpf_invert_branch_type)"
    using filled_invert Unary_logical.prems(2) by (simp add: s')
  ultimately have "reaches args P (length (fst s)) m
      (tg (bpf_invert_branch_type (outcome_branch (eval (leaf_matches g flags i) e))))"
    using Unary_logical.IH [OF v _ _ Unary_logical.prems(4,5)] by (metis comp_apply)
  then show ?case by (cases "eval (leaf_matches g flags i) e") (auto simp: s' outcome_branch_def bpf_invert_branch_type_def)
next
  case (Binary_logical l r op)
  let ?a = "length (fst s)" and ?b = "binary_logical_op_resolves_jmp op" and ?\<rho> = "leaf_matches g flags i"
  from Binary_logical.prems(1) obtain s1 s2 where v: "visit l s = Inr s1" "visit r s1 = Inr s2"
    and s': "s' = bpf_resolve_jmp ?a (length (fst s1) - ?a) ?b (length (fst s1)) s2"
    by (auto simp: Let_def bind_result_Inr)
  let ?u = "length (fst s1)" and ?t = "length (fst s2)"
  have ext: "extends s s1" "extends s1 s2" using visit_extends v by auto
  then have len: "?a \<le> ?u" "?u \<le> ?t" by (auto simp: extends_def)
  have fl: "filled P s2 ?a ?u (tg(?b := ?u))" "filled P s2 ?u ?t tg"
    using filled_resolve [of P ?a ?u ?b ?u s2 ?t tg] Binary_logical.prems(2) len by (auto simp: s')
  then have "filled P s1 ?a ?u (tg(?b := ?u))" using ext(2) by (auto simp: filled_def extends_def)
  moreover have reach: "in_reach ?a ?u (tg(?b := ?u))" "in_reach ?u ?t tg"
    using in_reach_resolve [OF _ len(2,1)] Binary_logical.prems(3) by (auto simp: s')
  ultimately have l: "reaches args P ?a m ((tg(?b := ?u)) (outcome_branch (eval ?\<rho> l)))"
    using Binary_logical.IH(1) [OF v(1)] Binary_logical.prems(4,5) by blast
  have r: "reaches args P ?u (m\<lparr>acc := a\<rparr>) (tg (outcome_branch (eval ?\<rho> r)))" for a
    using Binary_logical.IH(2) [OF v(2) fl(2) reach(2)] Binary_logical.prems(4)
      visit_fresh [OF v(1) Binary_logical.prems(5)] by simp
  show ?case
  proof (cases "outcome_branch (eval ?\<rho> l) = ?b")
    case True
    then have "reaches args P ?a m ?u" using l by simp
    from reaches_trans [OF this r] True show ?thesis
      by (cases op) (auto simp: eval_binary_def outcome_branch_def binary_logical_op_resolves_jmp_def split: if_splits)
  next
    case False
    then show ?thesis using l
      by (cases op) (auto simp: eval_binary_def outcome_branch_def binary_logical_op_resolves_jmp_def split: if_splits)
  qed
qed simp_all

subsection \<open>Resolving both branches\<close>

definition pending :: "bpf_branch_type \<Rightarrow> bpf_insn_jmp_info option \<Rightarrow> bool" where
  "pending b c \<longleftrightarrow> (case c of None \<Rightarrow> False | Some c \<Rightarrow> jmp_jt c = Some b \<or> jmp_jf c = Some b)"

lemma bpf_resolve_one_pending:
  "\<not> pending b (snd (bpf_resolve_one b u i s) i)"
  "\<not> pending b (snd s j) \<Longrightarrow> \<not> pending b (snd (bpf_resolve_one b' u i s) j)"
  by (auto simp: bpf_resolve_one_def pending_def Let_def split: prod.splits option.splits if_splits)

lemma bpf_resolve_jmp_pending:
  "\<not> pending b (snd s j) \<Longrightarrow> \<not> pending b (snd (bpf_resolve_jmp a n b' u s) j)"
  "a \<le> i \<Longrightarrow> i < a + n \<Longrightarrow> \<not> pending b (snd (bpf_resolve_jmp a n b u s) i)"
proof -
  have keep: "\<not> pending b (snd s j) \<Longrightarrow> \<not> pending b (snd (fold (bpf_resolve_one b' u) xs s) j)" for b' xs s j
    by (induction xs arbitrary: s) (auto simp: bpf_resolve_one_pending)
  then show "\<not> pending b (snd s j) \<Longrightarrow> \<not> pending b (snd (bpf_resolve_jmp a n b' u s) j)"
    by (simp add: bpf_resolve_jmp_def)
  assume "a \<le> i" "i < a + n"
  then have "[a..<a + n] = [a..<i] @ i # [i + 1..<a + n]"
    using upt_add_eq_append [of a i "a + n - i"] by (simp add: upt_conv_Cons)
  then show "\<not> pending b (snd (bpf_resolve_jmp a n b u s) i)"
    by (simp add: bpf_resolve_jmp_def keep bpf_resolve_one_pending(1))
qed

lemma fill_not_pending:
  assumes "\<not> pending PASS c" "\<not> pending FAIL c"
  shows "fill tg i c p = p"
proof (cases c)
  case (Some d)
  then have "jmp_jt d = None" "jmp_jf d = None"
    using assms by (auto simp: pending_def) (metis bpf_branch_type.exhaust not_None_eq)+
  then show ?thesis using Some by (simp add: fill_def fill_info_def)
qed (simp add: fill_def)

lemma resolve_last:
  assumes "a + n \<le> length (fst s)" "a \<le> i" "i < a + n" "\<not> pending (bpf_invert_branch_type b) (snd s i)"
  shows "fst (bpf_resolve_jmp a n b u s) ! i = fill (tg(b := u)) i (snd s i) (fst s ! i)"
proof -
  have "\<not> pending x (snd (bpf_resolve_jmp a n b u s) i)" for x
    using bpf_resolve_jmp_pending assms(2-4) by (cases x; cases b) (auto simp: bpf_invert_branch_type_def)
  then have "fst (bpf_resolve_jmp a n b u s) ! i
      = fill tg i (snd (bpf_resolve_jmp a n b u s) i) (fst (bpf_resolve_jmp a n b u s) ! i)"
    by (simp add: fill_not_pending)
  then show ?thesis using bpf_resolve_jmp_nth(1) [OF assms(1)] assms(2,3) by simp
qed

text \<open>
  A block whose two branches have been resolved one after the other, in a program that is longer
  than the block, is filled in.
\<close>

lemma resolve_both_filled:
  assumes "length ins = t" "s1 = bpf_resolve_jmp 0 t b u (ins @ rest, jm)"
    "s2 = bpf_resolve_jmp 0 t (bpf_invert_branch_type b) v (fst s1 @ extra, snd s1)"
  shows "filled (fst s2) (ins, jm) 0 t (\<lambda>x. if x = b then u else v) \<and> (\<forall>i \<ge> t. fst s2 ! i = (ins @ rest @ extra) ! i)
    \<and> length (fst s2) = length (ins @ rest @ extra)"
proof (intro conjI)
  let ?tg = "\<lambda>x. if x = b then u else v"
  have tg: "?tg(bpf_invert_branch_type b := v, b := u) = ?tg"
    by (rule ext) (cases b; auto simp: bpf_invert_branch_type_def)
  have inv: "bpf_invert_branch_type (bpf_invert_branch_type b) = b" by (cases b) (auto simp: bpf_invert_branch_type_def)
  have len: "length (fst s1) = length (ins @ rest)" using assms(2) by simp
  show l2: "length (fst s2) = length (ins @ rest @ extra)" using len assms(3) by simp
  have outside: "fst s1 ! i = (ins @ rest) ! i" if "t \<le> i" for i
    using bpf_resolve_jmp_nth(2) [of 0 t "(ins @ rest, jm)" i b u] that assms(1,2) by simp
  have "fst s2 ! i = (ins @ rest @ extra) ! i" if "t \<le> i" for i
  proof -
    have "fst s2 ! i = (fst s1 @ extra) ! i"
      using bpf_resolve_jmp_nth(2) [of 0 t "(fst s1 @ extra, snd s1)" i] that assms len by simp
    then show ?thesis using outside [OF that] len by (simp add: nth_append)
  qed
  then show "\<forall>i \<ge> t. fst s2 ! i = (ins @ rest @ extra) ! i" by blast
  have "fst s2 ! i = fill ?tg i (jm i) (ins ! i)" if i: "i < t" for i
  proof -
    have "\<not> pending b (snd s1 i)" using bpf_resolve_jmp_pending(2) [of 0 i t b u] i assms(2) by simp
    then have "fst s2 ! i = fill (?tg(bpf_invert_branch_type b := v)) i (snd s1 i) (fst s1 ! i)"
      using resolve_last [of 0 t "(fst s1 @ extra, snd s1)" i "bpf_invert_branch_type b" v ?tg] i assms(1,3) len inv
      by (simp add: nth_append)
    then show ?thesis
      using bpf_resolve_jmp_nth(1) [of 0 t "(ins @ rest, jm)" _ i b u] i assms(1,2) tg by (simp add: nth_append)
  qed
  then show "filled (fst s2) (ins, jm) 0 t ?tg" using l2 assms(1) by (simp add: filled_def)
qed

subsection \<open>Filters of special terms only\<close>

lemma visit_total: "all_special e \<Longrightarrow> null_free e \<Longrightarrow> visit e s \<noteq> Inl x"
proof (induction e arbitrary: s)
  case (Unary_logical e u)
  then show ?case by (cases s; cases "visit e s") (auto simp: Let_def)
next
  case (Binary_logical l r op)
  then show ?case
    by (cases s; cases "visit l s"; cases "visit r (projr (visit l s))") (auto simp: Let_def)
qed simp_all

fun block_size :: "expr \<Rightarrow> nat" where
  "block_size (Valid_match _) = 2"
| "block_size (Signature_match None) = 2"
| "block_size (Signature_match (Some r)) = (if range_start r = range_end r then 4 else 5)"
| "block_size (Unary_logical e _) = block_size e"
| "block_size (Binary_logical l r _) = block_size l + block_size r"
| "block_size _ = 0"

lemma visit_length: "visit e s = Inr s' \<Longrightarrow> length (fst s') = length (fst s) + block_size e"
proof (induction e arbitrary: s s')
  case (Valid_match f)
  then show ?case by (cases s) (auto simp: visit_valid_def)
next
  case (Signature_match r)
  then show ?case by (cases s; cases r) (auto simp: visit_signature_def Let_def)
next
  case (Unary_logical e u)
  from Unary_logical.prems obtain s1 where s1: "visit e s = Inr s1" "fst s' = fst s1"
    by (auto simp: Let_def bind_result_Inr)
  then show ?case using Unary_logical.IH [of s s1] by simp
next
  case (Binary_logical l r op)
  from Binary_logical.prems obtain s1 s2 where "visit l s = Inr s1" "visit r s1 = Inr s2"
    "length (fst s') = length (fst s2)"
    by (auto simp: Let_def bind_result_Inr)
  then show ?case using Binary_logical.IH(1) [of s s1] Binary_logical.IH(2) [of s1 s2] by simp
qed simp_all

definition computes :: "bpf_insn list \<Rightarrow> expr \<Rightarrow> bool" where
  "computes P e \<longleftrightarrow> (\<forall>flags i store args g. sees_packet flags i \<lparr>acc = 0, idx = 0, mem = store\<rparr> \<longrightarrow>
     op_bpf_filter_ext (Some P) args store
       = (Ret (if eval (leaf_matches g flags i) e then 0x40000 else 0), store))"

lemma all_special_program:
  assumes "all_special e" "null_free e"
  shows "\<exists>P. bpf_build_prog_all_special e [] = Inr (Some P) \<and> length P = block_size e + 2
    \<and> (block_size e \<le> 255 \<longrightarrow> computes P e)"
proof -
  obtain ins jm where v: "visit e ([], Map.empty) = Inr (ins, jm)"
    using visit_total [OF assms] by (cases "visit e ([], Map.empty)") auto
  let ?n = "length ins" and ?ret = "insn (BPF_RET OR BPF_K) 0 0"
  define P where "P = fst (bpf_resolve_jmp 0 ?n FAIL (?n + 1)
      (bpf_resolve_jmp 0 ?n PASS ?n (ins @ [?ret 0x40000, ?ret 0], jm)))"
  let ?tg = "\<lambda>x. if x = PASS then ?n else ?n + 1"
  have n: "?n = block_size e" using visit_length [OF v] by simp
  have fl: "filled P (ins, jm) 0 ?n ?tg" and ret: "P ! ?n = ?ret 0x40000" "P ! (?n + 1) = ?ret 0" and len: "length P = ?n + 2"
    using resolve_both_filled [OF refl refl refl, where ins = ins and jm = jm and b = PASS and u = ?n
        and v = "?n + 1" and extra = "[]" and rest = "[?ret 0x40000, ?ret 0]"]
    by (simp_all add: P_def bpf_invert_branch_type_def nth_append)
  have "bpf_build_prog_all_special e [] = Inr (Some P)"
    using v by (simp add: bpf_build_prog_all_special_def bpf_build_prog_special_def Let_def P_def)
  moreover have "computes P e" if size: "block_size e \<le> 255"
    unfolding computes_def
  proof (intro allI impI)
    fix flags i store args g
    let ?m = "\<lparr>acc = 0, idx = 0, mem = store\<rparr>" and ?b = "outcome_branch (eval (leaf_matches g flags i) e)"
    assume "sees_packet flags i ?m"
    then have "reaches args P 0 ?m (?tg ?b)"
      using visit_block [OF v, of P ?tg flags i ?m args g] fl n size by (simp add: in_reach_def)
    then obtain a where "run args P 0 ?m = run args P (?tg ?b) (?m\<lparr>acc := a\<rparr>)"
      by (auto simp: reaches_def)
    then show "op_bpf_filter_ext (Some P) args store
        = (Ret (if eval (leaf_matches g flags i) e then 0x40000 else 0), store)"
      using run_ret [OF _ ret(1), of args "?m\<lparr>acc := a\<rparr>"] run_ret [OF _ ret(2), of args "?m\<lparr>acc := a\<rparr>"] len
      by (auto simp: outcome_branch_def op_bpf_filter_ext_def)
  qed
  ultimately show ?thesis using len n by auto
qed



subsection \<open>Filters that mix special and libpcap terms\<close>

lemma run_embedded:
  assumes "\<And>i. i < length B \<Longrightarrow> P ! (t + i) = B ! i" "t + length B \<le> length P"
  shows "fst (run args B pc m) \<noteq> Fault Bad_pc \<Longrightarrow> run args P (t + pc) m = run args B pc m"
proof (induction "length B - pc" arbitrary: pc m rule: less_induct)
  case less
  have pc: "pc < length B" using less.prems by (rule contrapos_np) (simp add: run.simps [of _ B pc])
  show ?case
  proof (cases "exec_insn args (B ! pc) m")
    case (Stop r)
    then show ?thesis using pc assms by (simp add: run.simps [of _ _ "t + pc"] run.simps [of _ B pc])
  next
    case (Next m' off)
    then have b: "run args B pc m = run args B (pc + 1 + off) m'" using pc by (simp add: run.simps [of _ B pc])
    then have "run args P (t + (pc + 1 + off)) m' = run args B (pc + 1 + off) m'"
      using less.hyps [of "pc + 1 + off" m'] less.prems pc by simp
    then show ?thesis using Next pc assms b by (simp add: run.simps [of _ _ "t + pc"] add.assoc)
  qed
qed

text \<open>
  \<open>returns_first prog b\<close>: the first instruction that \<open>bpf_find_ret\<close> takes for a return of branch
  \<open>b\<close> is one. The test it applies, \<open>code & (BPF_RET|BPF_K)\<close>, also holds for stores, arithmetic,
  jumps and transfers.
\<close>

definition looks_like_ret :: "bpf_branch_type \<Rightarrow> bpf_insn \<Rightarrow> bool" where
  "looks_like_ret b p \<longleftrightarrow> insn_code p AND (BPF_RET OR BPF_K) \<noteq> 0
     \<and> (if b = PASS then insn_k p \<noteq> 0 else insn_k p = 0)"

definition returns_first :: "bpf_insn list \<Rightarrow> bpf_branch_type \<Rightarrow> bool" where
  "returns_first prog b \<longleftrightarrow> (\<forall>i < length prog. looks_like_ret b (prog ! i) \<and> (\<forall>j < i. \<not> looks_like_ret b (prog ! j)) \<longrightarrow>
     insn_code (prog ! i) = BPF_RET OR BPF_K)"

lemma bpf_find_ret_spec:
  assumes "n \<le> length P"
  shows "n \<le> bpf_find_ret P n b \<and> bpf_find_ret P n b \<le> length P
    \<and> (\<forall>j. n \<le> j \<and> j < bpf_find_ret P n b \<longrightarrow> \<not> looks_like_ret b (P ! j))
    \<and> (bpf_find_ret P n b < length P \<longrightarrow> looks_like_ret b (P ! bpf_find_ret P n b))"
proof -
  have eq: "bpf_find_ret P n b = (case find (\<lambda>i. looks_like_ret b (P ! i)) [n..<length P] of Some i \<Rightarrow> i | None \<Rightarrow> length P)"
    by (simp add: bpf_find_ret_def looks_like_ret_def)
  show ?thesis
  proof (cases "find (\<lambda>i. looks_like_ret b (P ! i)) [n..<length P]")
    case None
    then have "\<forall>x. n \<le> x \<and> x < length P \<longrightarrow> \<not> looks_like_ret b (P ! x)" by (auto simp: find_None_iff)
    then show ?thesis using assms by (simp add: eq None)
  next
    case (Some i)
    then obtain k where k: "k < length P - n" "looks_like_ret b (P ! (n + k))" "i = n + k"
        "\<forall>j<k. \<not> looks_like_ret b (P ! (n + j))"
      by (auto simp: find_Some_iff)
    then have "\<not> looks_like_ret b (P ! j)" if "n \<le> j" "j < i" for j
      using that by (metis add_diff_inverse_nat nat_add_left_cancel_less not_less)
    then show ?thesis using Some k by (auto simp: eq)
  qed
qed

definition branch_value :: "bpf_branch_type \<Rightarrow> u32 \<Rightarrow> bool" where
  "branch_value b k \<longleftrightarrow> (if b = PASS then k \<noteq> 0 else k = 0)"

lemma find_ret_returns:
  assumes "returns_first prog c" "\<And>j. j < length prog \<Longrightarrow> P ! (n + j) = prog ! j" "n + length prog = length P"
    "bpf_find_ret P n c = q" "q < length P"
  shows "insn_code (P ! q) = BPF_RET OR BPF_K \<and> branch_value c (insn_k (P ! q))"
proof -
  have q: "n \<le> q" "looks_like_ret c (P ! q)" "\<And>j. n \<le> j \<Longrightarrow> j < q \<Longrightarrow> \<not> looks_like_ret c (P ! j)"
    using bpf_find_ret_spec [of n P c] assms(3-5) by auto
  define j where "j = q - n"
  have j: "q = n + j" "j < length prog" using q(1) assms(3,5) by (auto simp: j_def)
  have "\<not> looks_like_ret c (prog ! i)" if "i < j" for i
    using q(3) [of "n + i"] assms(2) [of i] that j by simp
  moreover have "looks_like_ret c (prog ! j)" using q(2) assms(2) j by simp
  ultimately show ?thesis
    using assms(1,2) j unfolding returns_first_def looks_like_ret_def branch_value_def by auto
qed

lemma mixed_layout:
  assumes v: "visit lhs ([], Map.empty) = Inr (ins, jm)" and prog: "to_string rhs = Inr str" "bpf_compile str = Some prog"
    and b: "b = binary_logical_op_resolves_jmp op" and c: "c = bpf_invert_branch_type b" and ret: "returns_first prog c"
  obtains P q k where "bpf_build_prog_mixed bpf_compile lhs rhs op [] = Inr (Some P)"
    "filled P (ins, jm) 0 (length ins) (\<lambda>x. if x = b then length ins else q)"
    "\<forall>j < length prog. P ! (length ins + j) = prog ! j" "length ins + length prog \<le> length P"
    "length ins \<le> q" "q \<le> length ins + length prog" "q < length P"
    "\<exists>t e. P ! q = insn (BPF_RET OR BPF_K) t e k" "branch_value c k"
proof -
  let ?n = "length ins"
  define s1 where "s1 = bpf_resolve_jmp 0 ?n b ?n (ins @ prog, jm)"
  obtain x1 x2 where x: "s1 = (x1, x2)" by (cases s1)
  have eq: "bpf_resolve_jmp 0 ?n b ?n (ins @ prog, jm) = (x1, x2)" using s1_def x by simp
  define q where "q = bpf_find_ret x1 ?n c"
  define extra where "extra = (if q \<ge> length x1 then [insn (BPF_RET OR BPF_K) 0 0 (if c = PASS then 0x40000 else 0)] else [])"
  define P where "P = fst (bpf_resolve_jmp 0 ?n c q (x1 @ extra, x2))"
  have "length (fst s1) = ?n + length prog" by (simp add: s1_def)
  then have len1: "length x1 = ?n + length prog" by (simp add: x)
  have s1_nth: "x1 ! (?n + j) = prog ! j" if "j < length prog" for j
    using bpf_resolve_jmp_nth(2) [of 0 ?n "(ins @ prog, jm)" "?n + j" b ?n] that by (simp add: eq nth_append)
  have fl: "filled P (ins, jm) 0 ?n (\<lambda>x. if x = b then ?n else q)"
    and nth: "\<And>i. ?n \<le> i \<Longrightarrow> P ! i = (ins @ prog @ extra) ! i" and len: "length P = ?n + length prog + length extra"
    using resolve_both_filled [OF refl s1_def refl, where v = q and extra = extra] by (simp_all add: P_def c x)
  have q: "?n \<le> q" "q \<le> length x1" using bpf_find_ret_spec [of ?n x1 c] len1 by (auto simp: q_def)
  show thesis
  proof (rule that [of P q "if q < length x1 then insn_k (x1 ! q) else if c = PASS then 0x40000 else 0"])
    show "bpf_build_prog_mixed bpf_compile lhs rhs op [] = Inr (Some P)"
      using v prog q(2) eq
      by (cases "q \<ge> length x1")
        (simp_all add: bpf_build_prog_mixed_def bpf_build_prog_special_def Let_def P_def extra_def
          b [symmetric] c [symmetric] q_def [symmetric])
    show "\<exists>t e. P ! q = insn (BPF_RET OR BPF_K) t e (if q < length x1 then insn_k (x1 ! q) else if c = PASS then 0x40000 else 0)"
    proof (cases "q < length x1")
      case True
      then have "P ! q = x1 ! q" using nth [OF q(1)] s1_nth [of "q - ?n"] q(1) len1 by (simp add: nth_append)
      moreover have "insn_code (x1 ! q) = BPF_RET OR BPF_K"
        using find_ret_returns [OF ret s1_nth _ _ True] len1 q_def by simp
      ultimately show ?thesis using True by (cases "x1 ! q") (auto simp: insn_def)
    next
      case False
      then show ?thesis using nth [OF q(1)] q len1 by (auto simp: extra_def nth_append)
    qed
    show "branch_value c (if q < length x1 then insn_k (x1 ! q) else if c = PASS then 0x40000 else 0)"
      using find_ret_returns [OF ret s1_nth] len1 q_def by (auto simp: branch_value_def)
  qed (use fl nth len len1 q in \<open>auto simp: nth_append extra_def\<close>)
qed

lemma resolves_iff: "outcome_branch x = binary_logical_op_resolves_jmp op \<longleftrightarrow> (op = Op_and) = x"
  by (cases op) (auto simp: outcome_branch_def binary_logical_op_resolves_jmp_def)


text \<open>What libpcap compiles \<open>length == 1000\<close> to.\<close>

definition length_prog :: "bpf_insn list" where
  "length_prog = [insn (BPF_LD OR BPF_W OR BPF_LEN) 0 0 0, insn (BPF_JMP OR BPF_JEQ OR BPF_K) 0 1 1000,
     insn (BPF_RET OR BPF_K) 0 0 0x40000, insn (BPF_RET OR BPF_K) 0 0 0]"

lemma run_length_prog:
  "run args length_prog 0 m = (Ret (if of_nat (wirelen args) = (1000 :: u32) then 0x40000 else 0), mem m)"
proof -
  have "map_of op_table (BPF_LD OR BPF_W OR BPF_LEN) = Some Ld_Len" by (simp add: op_table_def bpf_codes)
  then have "run args length_prog 0 m = run args length_prog 1 (m\<lparr>acc := of_nat (wirelen args)\<rparr>)"
    by (simp add: run.simps [of _ _ 0] length_prog_def exec_insn_def insn_def exec_op_def)
  moreover have "run args length_prog 1 (m\<lparr>acc := of_nat (wirelen args)\<rparr>)
      = run args length_prog (if of_nat (wirelen args) = (1000 :: u32) then 2 else 3) (m\<lparr>acc := of_nat (wirelen args)\<rparr>)"
    using run_jump [of 1 length_prog _ 0 1 1000 Jeq args "m\<lparr>acc := of_nat (wirelen args)\<rparr>"] build_ops(3)
    by (auto simp: length_prog_def jump_taken_def numeral_eq_Suc)
  moreover have "run args length_prog 2 m' = (Ret 0x40000, mem m')" "run args length_prog 3 m' = (Ret 0, mem m')" for m'
    by (rule run_ret; simp add: length_prog_def)+
  ultimately show ?thesis by simp
qed


text \<open>
  For \<open>||\<close> the return search goes wrong on ordinary programs: in \<open>signature || length == 1000\<close> it
  takes libpcap's comparison with 1000 for the accepting return, so a signed packet of 500 bytes is
  compared by its flags and rejected.
\<close>

theorem mixed_or_program_wrong:
  "\<exists>P. bpf_build_prog_mixed (\<lambda>_. Some length_prog) (Signature_match None) (Generic_match ''length == 1000'') Op_or []
      = Inr (Some P)
    \<and> op_bpf_filter_ext (Some P) \<lparr>pkt = [], wirelen = 500, buflen = 0\<rparr> [Some 0x40, Some 7] = (Ret 0, [Some 0x40, Some 7])
    \<and> eval (leaf_matches (\<lambda>_. False) 0x40 7)
        (Binary_logical (Signature_match None) (Generic_match ''length == 1000'') Op_or)"
proof -
  let ?P = "[insn (BPF_LD OR BPF_MEM) 0 0 BPF_MEM_PKTFLAGS,
    insn (BPF_JMP OR BPF_JSET OR BPF_K) 1 0 BPF_PKTFLAG_SIGNATURE] @ length_prog"
  have "bpf_build_prog_mixed (\<lambda>_. Some length_prog) (Signature_match None) (Generic_match ''length == 1000'') Op_or []
      = Inr (Some ?P)"
    by (simp add: bpf_build_prog_mixed_def bpf_build_prog_special_def visit_signature_def bpf_resolve_jmp_def
        bpf_resolve_one_def bpf_find_ret_def jmp_info_def jmp_distance_def length_prog_def insn_def bpf_codes pkt_flags
        binary_logical_op_resolves_jmp_def bpf_invert_branch_type_def Let_def upt_rec)
  moreover have "run args ?P 0 \<lparr>acc = 0, idx = 0, mem = [Some 0x40, Some 7]\<rparr> = (Ret 0, [Some 0x40, Some 7])" for args
    by (simp add: run.simps exec_insn_def insn_def build_ops exec_op_def length_prog_def mem_load_def jump_taken_def
        operand_val_def pkt_flags)
  ultimately show ?thesis
    by (intro exI [of _ ?P]) (simp add: op_bpf_filter_ext_def leaf_matches_def eval_binary_def has_flag_def pkt_flags)
qed

end
