(* ===== verification/Bpf_Parse.thy ===== *)
theory Bpf_Parse
  imports Bpf_Expr
begin

text \<open>
  The filter parser, the tokenizer and parser classes of \<^verbatim>\<open>src/modules/packet/bpf/bpf_parse.cpp\<close>.
  The tokenizer is a function of the characters that remain. It does not depend on the parser, so the
  parser works on the list of tokens: its head is \<open>m_token\<close>, the empty list is the token \<open>NONE\<close>, and
  \<open>consume\<close> drops the head.

  The two recursive descents take fuel. \<open>None\<close> means that it ran out, which the tokens themselves
  bound: \<open>parse_logical_total\<close> shows that one more than their number always suffices.
\<close>

subsection \<open>Tokens\<close>

datatype token_type = T_NONE | LPAREN | RPAREN | T_AND | T_OR | T_NOT | EQ | NEQ | GT | GTE | LT | LTE | WORD | VALID
  | SIGNATURE

record token =
  token_kind :: token_type
  token_value :: string

definition is_possible_two_byte_op :: "char \<Rightarrow> bool" where
  "is_possible_two_byte_op ch \<longleftrightarrow> ch = CHR ''='' \<or> ch = CHR ''!'' \<or> ch = CHR ''<'' \<or> ch = CHR ''>''"

definition to_token_type :: "string \<Rightarrow> token_type" where
  "to_token_type str =
     (if str = ''and'' \<or> str = ''&&'' then T_AND
      else if str = ''or'' \<or> str = ''||'' then T_OR
      else if str = ''not'' \<or> str = ''!'' then T_NOT
      else if str = ''='' then EQ
      else if str = ''=='' then EQ
      else if str = ''!='' then NEQ
      else if str = ''<'' then LT
      else if str = ''<='' then LTE
      else if str = ''>'' then GT
      else if str = ''>='' then GTE
      else if str = ''('' then LPAREN
      else if str = '')'' then RPAREN
      else if str = ''valid'' then VALID
      else if str = ''signature'' then SIGNATURE
      else T_NONE)"

text \<open>\<open>std::isspace\<close> and \<open>isalnum\<close> in the C locale.\<close>

definition isspace :: "char \<Rightarrow> bool" where
  "isspace c \<longleftrightarrow> c = CHR '' '' \<or> 9 \<le> (of_char c :: nat) \<and> (of_char c :: nat) \<le> 13"

definition isdigit :: "char \<Rightarrow> bool" where
  "isdigit c \<longleftrightarrow> 48 \<le> (of_char c :: nat) \<and> (of_char c :: nat) \<le> 57"

definition isalnum :: "char \<Rightarrow> bool" where
  "isalnum c \<longleftrightarrow> isdigit c \<or> 65 \<le> (of_char c :: nat) \<and> (of_char c :: nat) \<le> 90
     \<or> 97 \<le> (of_char c :: nat) \<and> (of_char c :: nat) \<le> 122"

definition special_chars :: string where
  "special_chars = ''[].:-''"

definition word_char :: "char \<Rightarrow> bool" where
  "word_char c \<longleftrightarrow> isalnum c \<or> c \<in> set special_chars"

definition classify :: "string \<Rightarrow> token" where
  "classify v = \<lparr>token_kind = (if to_token_type v = T_NONE then WORD else to_token_type v), token_value = v\<rparr>"

text \<open>The loop of \<open>get_next\<close>: \<open>v\<close> is \<open>m_token.value\<close>, the string what is left of \<open>m_str\<close>.\<close>

fun get_next_loop :: "string \<Rightarrow> string \<Rightarrow> token \<times> string" where
  "get_next_loop v [] = (if v \<noteq> [] then classify v else \<lparr>token_kind = T_NONE, token_value = v\<rparr>, [])"
| "get_next_loop v (ch # rest) =
     (if isspace ch then
        if v \<noteq> [] then (classify v, rest) else get_next_loop v rest
      else if v \<noteq> [] then
        if word_char (hd v) then
          if \<not> word_char ch then (classify v, ch # rest) else get_next_loop (v @ [ch]) rest
        else if length v = 1 then
          if to_token_type v \<noteq> T_NONE then
            if is_possible_two_byte_op (hd v) \<and> to_token_type (v @ [ch]) \<noteq> T_NONE
            then (\<lparr>token_kind = to_token_type (v @ [ch]), token_value = v @ [ch]\<rparr>, rest)
            else (\<lparr>token_kind = to_token_type v, token_value = v\<rparr>, ch # rest)
          else get_next_loop (v @ [ch]) rest
        else if length v = 2 \<and> to_token_type v \<noteq> T_NONE then
          (\<lparr>token_kind = to_token_type v, token_value = v\<rparr>, ch # rest)
        else get_next_loop (v @ [ch]) rest
      else get_next_loop (v @ [ch]) rest)"

definition get_next :: "string \<Rightarrow> token \<times> string" where
  "get_next str = get_next_loop [] str"

lemma get_next_loop_length:
  "get_next_loop v str = (t, rest) \<Longrightarrow> length rest \<le> length str \<and> (v = [] \<and> str \<noteq> [] \<longrightarrow> length rest < length str)"
proof (induction v str arbitrary: t rest rule: get_next_loop.induct)
  case (2 v ch str)
  then show ?case by (auto split: if_splits)
qed (auto split: if_splits)

lemma get_next_shorter:
  "get_next str = (t, rest) \<Longrightarrow> token_kind t \<noteq> T_NONE \<Longrightarrow> length rest < length str"
  using get_next_loop_length [of "[]" str t rest] by (cases str) (auto simp: get_next_def)

function tokenize :: "string \<Rightarrow> token list" where
  "tokenize str =
     (case get_next str of (t, rest) \<Rightarrow> if token_kind t = T_NONE then [] else t # tokenize rest)"
  by pat_completeness auto

termination
  by (relation "measure length") (auto dest: get_next_shorter [OF sym])

declare tokenize.simps [simp del]

definition is_compare_op :: "token_type \<Rightarrow> bool" where
  "is_compare_op t \<longleftrightarrow> t \<in> {EQ, NEQ, GT, GTE, LT, LTE}"

definition to_binary_logical_op :: "token_type \<Rightarrow> binary_logical_op result" where
  "to_binary_logical_op t = (case t of T_AND \<Rightarrow> Inr Op_and | T_OR \<Rightarrow> Inr Op_or
     | _ \<Rightarrow> Inl (Throw ''Can not convert token to binary_logical_op''))"

definition kind :: "token list \<Rightarrow> token_type" where
  "kind ts = (case ts of [] \<Rightarrow> T_NONE | t # _ \<Rightarrow> token_kind t)"

subsection \<open>Numbers\<close>

text \<open>
  \<open>strtoul (str, &endptr, 0)\<close>: the value as an \<open>unsigned long\<close> and what \<open>endptr\<close> points to. A number
  that does not fit is \<open>ULONG_MAX\<close>; a minus sign negates in the unsigned type; without a digit the
  value is 0 and \<open>endptr\<close> is the string.
\<close>

definition digit_value :: "char \<Rightarrow> nat" where
  "digit_value c = (let n = of_char c :: nat in
     if isdigit c then n - 48 else if 97 \<le> n \<and> n \<le> 122 then n - 87 else if 65 \<le> n \<and> n \<le> 90 then n - 55 else 36)"

definition number_value :: "nat \<Rightarrow> string \<Rightarrow> nat" where
  "number_value base ds = foldl (\<lambda>v d. base * v + digit_value d) 0 ds"

definition strtoul :: "string \<Rightarrow> u64 \<times> string" where
  "strtoul str =
     (let s = dropWhile isspace str;
          neg = (s \<noteq> [] \<and> hd s = CHR ''-'');
          s = (if s \<noteq> [] \<and> (hd s = CHR ''-'' \<or> hd s = CHR ''+'') then tl s else s);
          hex = (length s > 2 \<and> s ! 0 = CHR ''0'' \<and> (s ! 1 = CHR ''x'' \<or> s ! 1 = CHR ''X'') \<and> digit_value (s ! 2) < 16);
          base = (if hex then 16 else if s \<noteq> [] \<and> hd s = CHR ''0'' then 8 else 10);
          s = (if hex then drop 2 s else s);
          ds = takeWhile (\<lambda>c. digit_value c < base) s;
          n = number_value base ds in
        if ds = [] then (0, str)
        else (if n \<ge> 2 ^ 64 then - 1 else if neg then - of_nat n else of_nat n, drop (length ds) s))"

definition parse_number :: "string \<Rightarrow> u64 result" where
  "parse_number str = (case strtoul str of (n, endptr) \<Rightarrow>
     if endptr \<noteq> [] then Inl (Throw ''Error parsing integer value'') else Inr n)"

definition parse_range :: "string \<Rightarrow> (u32 \<times> u32) result" where
  "parse_range str =
     (if CHR ''-'' \<notin> set str then bind_result (parse_number str) (\<lambda>start. Inr (ucast start, ucast start))
      else
        let start_str = takeWhile (\<lambda>c. c \<noteq> CHR ''-'') str; end_str = drop (length start_str + 1) str in
          bind_result (parse_number start_str) (\<lambda>start. bind_result (parse_number end_str) (\<lambda>end.
            Inr (ucast start, ucast end))))"

subsection \<open>Special terms\<close>

definition chksum_flags :: "string \<Rightarrow> u32" where
  "chksum_flags chksum_type =
     (if chksum_type = ''ip'' then IP_CHKSUM
      else if chksum_type = ''tcp'' then TCP_CHKSUM
      else if chksum_type = ''udp'' then UDP_CHKSUM
      else if chksum_type = ''icmp'' then ICMP_CHKSUM
      else all_chksum_flags)"

unbundle bit_operations_syntax

fun parse_valid_loop :: "u32 \<Rightarrow> string \<Rightarrow> token list \<Rightarrow> (u32 \<times> string \<times> token list) result" where
  "parse_valid_loop flags chksum_type [] = Inr (flags, chksum_type, [])"
| "parse_valid_loop flags chksum_type (t # ts) =
     (if token_kind t \<noteq> WORD then Inr (flags, chksum_type, t # ts)
      else let v = token_value t in
        if v = ''fcs'' then parse_valid_loop (flags OR ETH_FCS) chksum_type ts
        else if v = ''ip'' \<or> v = ''tcp'' \<or> v = ''udp'' \<or> v = ''icmp'' then
          if chksum_type \<noteq> [] then Inl (Throw (''Unexpected valid expr token '' @ v))
          else parse_valid_loop flags v ts
        else if v = ''chksum'' then parse_valid_loop (flags OR chksum_flags chksum_type) [] ts
        else if v = ''prbs'' then parse_valid_loop (flags OR SIGNATURE_PRBS) chksum_type ts
        else Inl (Throw (''Unexpected valid expr token '' @ v)))"

definition parse_valid_match_expr :: "token list \<Rightarrow> (expr \<times> token list) result" where
  "parse_valid_match_expr ts =
     bind_result (parse_valid_loop 0 [] (tl ts)) (\<lambda>(flags, chksum_type, ts).
       if chksum_type \<noteq> [] then Inl (Throw ''Missing chksum token'')
       else if flags = 0 then Inl (Throw ''Unexpected valid expr missing fields'')
       else Inr (Valid_match flags, ts))"

fun parse_signature_loop ::
  "string \<Rightarrow> stream_id_range option \<Rightarrow> token list \<Rightarrow> (stream_id_range option \<times> token list) result" where
  "parse_signature_loop key_str stream_id [] = Inr (stream_id, [])"
| "parse_signature_loop key_str stream_id (t # ts) =
     (if token_kind t \<noteq> WORD then Inr (stream_id, t # ts)
      else if key_str = [] then
        if token_value t = ''streamid'' then
          if stream_id \<noteq> None then Inl (Throw ''Already got streamid'')
          else parse_signature_loop (token_value t) stream_id ts
        else Inl (Throw (''Unexpected signature match '' @ token_value t))
      else
        bind_result (parse_range (token_value t)) (\<lambda>(start, end).
          parse_signature_loop [] (Some \<lparr>range_start = start, range_end = end\<rparr>) ts))"

definition parse_signature_match_expr :: "token list \<Rightarrow> (expr \<times> token list) result" where
  "parse_signature_match_expr ts =
     bind_result (parse_signature_loop [] None (tl ts)) (\<lambda>(stream_id, ts). Inr (Signature_match stream_id, ts))"

subsection \<open>Recursive descent\<close>

type_synonym 'a fuelled = "'a result option"

definition bind_fuelled :: "'a fuelled \<Rightarrow> ('a \<Rightarrow> 'b fuelled) \<Rightarrow> 'b fuelled" where
  "bind_fuelled m f = (case m of None \<Rightarrow> None | Some (Inl e) \<Rightarrow> Some (Inl e) | Some (Inr x) \<Rightarrow> f x)"

lemma bind_fuelled_simps [simp]:
  "bind_fuelled None f = None" "bind_fuelled (Some (Inl e)) f = Some (Inl e)" "bind_fuelled (Some (Inr x)) f = f x"
  by (simp_all add: bind_fuelled_def)

abbreviation throw :: "string \<Rightarrow> 'a fuelled" where
  "throw msg \<equiv> Some (Inl (Throw msg))"

text \<open>
  The paren level goes up before and down after each bracketed part, so it is back at its value when
  a function returns and need not be returned. \<open>term_str\<close> is the string collected so far.
\<close>

definition end_term :: "string \<Rightarrow> token list \<Rightarrow> (string \<times> token list) fuelled" where
  "end_term term_str ts = (if term_str = [] then throw ''Error parsing match expr term'' else Some (Inr (term_str, ts)))"

fun match_term :: "nat \<Rightarrow> string \<Rightarrow> nat \<Rightarrow> token list \<Rightarrow> (string \<times> token list) fuelled" where
  "match_term 0 term_str paren_level ts = None"
| "match_term (Suc n) term_str paren_level [] = end_term term_str []"
| "match_term (Suc n) term_str paren_level (t # ts) =
     (case token_kind t of
        WORD \<Rightarrow> match_term n ((if term_str \<noteq> [] then term_str @ '' '' else term_str) @ token_value t) paren_level ts
      | LPAREN \<Rightarrow>
          bind_fuelled (match_term n [] (paren_level + 1) ts) (\<lambda>(sub_expr, ts).
            if kind ts \<noteq> RPAREN then throw ''Missing )''
            else match_term n (term_str @ ''('' @ sub_expr @ '')'') paren_level (tl ts))
      | RPAREN \<Rightarrow>
          if paren_level = 0 then throw ''Mismatched parenthesis'' else Some (Inr (term_str, t # ts))
      | VALID \<Rightarrow> match_term n (term_str @ token_value t) paren_level ts
      | SIGNATURE \<Rightarrow> match_term n (term_str @ token_value t) paren_level ts
      | _ \<Rightarrow> end_term term_str (t # ts))"

definition parse_match_expr_term :: "nat \<Rightarrow> token list \<Rightarrow> (string \<times> token list) fuelled" where
  "parse_match_expr_term paren_level ts = match_term (length ts + 1) [] paren_level ts"

definition parse_match_expr :: "nat \<Rightarrow> token list \<Rightarrow> (expr \<times> token list) fuelled" where
  "parse_match_expr paren_level ts =
     bind_fuelled (parse_match_expr_term paren_level ts) (\<lambda>(lhs, ts).
       if is_compare_op (kind ts) then
         let op = token_value (hd ts) in
           bind_fuelled (parse_match_expr_term paren_level (tl ts)) (\<lambda>(rhs, ts).
             Some (Inr (Generic_match (lhs @ '' '' @ op @ '' '' @ rhs), ts)))
       else Some (Inr (Generic_match lhs, ts)))"

definition expr_accum :: "expr \<Rightarrow> expr \<Rightarrow> binary_logical_op option \<Rightarrow> (expr \<times> binary_logical_op option) result" where
  "expr_accum accum e op =
     (if accum = Null then Inr (e, op)
      else case op of
             None \<Rightarrow> Inl (Throw ''Missing logical operator'')
           | Some op \<Rightarrow> Inr (Binary_logical accum e op, None))"

text \<open>
  The loop of \<open>parse_logical_expr\<close>; \<open>accum\<close> is \<open>accum_expr\<close>. \<open>accum_then\<close> is the call of
  \<open>expr_accum\<close> followed by the next iteration, the end of most cases.
\<close>

definition accum_then ::
  "(binary_logical_op option \<Rightarrow> expr \<Rightarrow> token list \<Rightarrow> 'a fuelled) \<Rightarrow> expr \<Rightarrow> binary_logical_op option
     \<Rightarrow> expr \<Rightarrow> token list \<Rightarrow> 'a fuelled" where
  "accum_then loop accum op e ts =
     (case expr_accum accum e op of Inl x \<Rightarrow> Some (Inl x) | Inr (accum, op) \<Rightarrow> loop op accum ts)"

fun parse_logical ::
  "nat \<Rightarrow> bool \<Rightarrow> nat \<Rightarrow> binary_logical_op option \<Rightarrow> expr \<Rightarrow> token list \<Rightarrow> (expr \<times> token list) fuelled" where
  "parse_logical 0 unary paren_level op accum ts = None"
| "parse_logical (Suc n) unary paren_level op accum [] = Some (Inr (accum, []))"
| "parse_logical (Suc n) unary paren_level op accum (t # ts) =
     (case token_kind t of
        LPAREN \<Rightarrow>
          bind_fuelled (parse_logical n False (paren_level + 1) None Null ts) (\<lambda>(sub_expr, ts).
            if kind ts \<noteq> RPAREN then throw (''Missing '' @ [CHR 0x27, CHR '')'', CHR 0x27])
            else accum_then (parse_logical n unary paren_level) accum op sub_expr (tl ts))
      | RPAREN \<Rightarrow>
          if paren_level = 0 then throw ''Mismatched parenthesis'' else Some (Inr (accum, t # ts))
      | T_NOT \<Rightarrow>
          bind_fuelled (parse_logical n True paren_level None Null ts) (\<lambda>(sub_expr, ts).
            accum_then (parse_logical n unary paren_level) accum op (Unary_logical sub_expr Op_not) ts)
      | VALID \<Rightarrow> bind_fuelled (Some (parse_valid_match_expr (t # ts))) (\<lambda>(sub_expr, ts).
            accum_then (parse_logical n unary paren_level) accum op sub_expr ts)
      | SIGNATURE \<Rightarrow> bind_fuelled (Some (parse_signature_match_expr (t # ts))) (\<lambda>(sub_expr, ts).
            accum_then (parse_logical n unary paren_level) accum op sub_expr ts)
      | WORD \<Rightarrow> bind_fuelled (parse_match_expr paren_level (t # ts)) (\<lambda>(sub_expr, ts).
            accum_then (parse_logical n unary paren_level) accum op sub_expr ts)
      | _ \<Rightarrow>
          if token_kind t = T_AND \<or> token_kind t = T_OR then
            if op \<noteq> None then throw (''Incorrect logical operator usage '' @ token_value t)
            else if unary then Some (Inr (accum, t # ts))
            else bind_fuelled (Some (to_binary_logical_op (token_kind t))) (\<lambda>op.
              parse_logical n unary paren_level (Some op) accum ts)
          else throw (''Unexpected token found '' @ token_value t))"

definition bpf_parse_string :: "string \<Rightarrow> expr fuelled" where
  "bpf_parse_string str =
     (let ts = tokenize str in
        bind_fuelled (parse_logical (length ts + 1) False 0 None Null ts) (\<lambda>(e, ts). Some (Inr e)))"

subsection \<open>The parser terminates\<close>

text \<open>\<open>shrinks k r\<close>: \<open>r\<close> is not out of fuel, and leaves at most \<open>k\<close> tokens.\<close>

definition shrinks :: "nat \<Rightarrow> ('a \<times> token list) fuelled \<Rightarrow> bool" where
  "shrinks k r \<longleftrightarrow> (case r of None \<Rightarrow> False | Some (Inl _) \<Rightarrow> True | Some (Inr (_, ts)) \<Rightarrow> length ts \<le> k)"

lemma shrinks_simps [simp]:
  "\<not> shrinks k None" "shrinks k (Some (Inl e))" "shrinks k (Some (Inr (x, ts))) = (length ts \<le> k)"
  by (simp_all add: shrinks_def)

lemma shrinks_bind:
  assumes "shrinks j m" "\<And>x ts. length ts \<le> j \<Longrightarrow> shrinks k (f (x, ts))"
  shows "shrinks k (bind_fuelled m f)"
proof (cases m)
  case (Some r)
  then show ?thesis using assms by (cases r) auto
qed (use assms(1) in simp)

lemma shrinks_mono: "shrinks j r \<Longrightarrow> j \<le> k \<Longrightarrow> shrinks k r"
  by (auto simp: shrinks_def split: option.splits sum.splits)

lemma shrinks_end_term: "length ts \<le> k \<Longrightarrow> shrinks k (end_term s ts)"
  by (simp add: end_term_def)

lemma shrinks_rparen:
  assumes "kind ts = RPAREN" "length ts \<le> j" "j \<le> k" "shrinks (length (tl ts)) r"
  shows "shrinks (Suc k) r"
  using assms by (cases ts) (auto simp: kind_def intro: shrinks_mono)

lemma match_term_total: "length ts < n \<Longrightarrow> shrinks (length ts) (match_term n s lv ts)"
proof (induction n s lv ts rule: match_term.induct)
  case (3 n s lv t ts)
  show ?case
  proof (cases "token_kind t = LPAREN")
    case True
    have "shrinks (Suc (length ts)) (bind_fuelled (match_term n [] (lv + 1) ts) (\<lambda>(sub_expr, ts).
        if kind ts \<noteq> RPAREN then throw ''Missing )''
        else match_term n (s @ ''('' @ sub_expr @ '')'') lv (tl ts)))"
    proof (rule shrinks_bind)
      show "shrinks (length ts) (match_term n [] (lv + 1) ts)" using 3 True by simp
      fix x :: string and us :: "token list"
      assume us: "length us \<le> length ts"
      show "shrinks (Suc (length ts)) (case (x, us) of (sub_expr, ts) \<Rightarrow>
          if kind ts \<noteq> RPAREN then throw ''Missing )'' else match_term n (s @ ''('' @ sub_expr @ '')'') lv (tl ts))"
        using 3 True us by (auto intro: shrinks_rparen [OF _ us order_refl])
    qed
    then show ?thesis using True by simp
  qed (use 3 in \<open>cases "token_kind t"; auto intro!: shrinks_end_term intro: shrinks_mono\<close>)
qed (auto intro: shrinks_end_term)

lemma parse_match_expr_total:
  assumes "token_kind t = WORD"
  shows "shrinks (length ts) (parse_match_expr lv (t # ts))"
proof -
  have "shrinks (length ts) (parse_match_expr_term lv (t # ts))"
    using match_term_total [of ts "length ts + 1" "token_value t" lv] assms by (simp add: parse_match_expr_term_def)
  then show ?thesis
    unfolding parse_match_expr_def
  proof (rule shrinks_bind)
    fix x :: string and us :: "token list"
    assume us: "length us \<le> length ts"
    have "shrinks (length ts) (parse_match_expr_term lv (tl us))"
      using match_term_total [of "tl us" "length (tl us) + 1" "[]" lv] us
      by (auto simp: parse_match_expr_term_def intro: shrinks_mono)
    then show "shrinks (length ts) (case (x, us) of (lhs, ts) \<Rightarrow>
        if is_compare_op (kind ts) then
          let op = token_value (hd ts) in
            bind_fuelled (parse_match_expr_term lv (tl ts)) (\<lambda>(rhs, ts).
              Some (Inr (Generic_match (lhs @ '' '' @ op @ '' '' @ rhs), ts)))
        else Some (Inr (Generic_match lhs, ts)))"
      using us by (auto simp: Let_def intro: shrinks_bind)
  qed
qed

lemma parse_valid_loop_length: "parse_valid_loop f c ts = Inr (f', c', ts') \<Longrightarrow> length ts' \<le> length ts"
  by (induction f c ts rule: parse_valid_loop.induct) (auto simp: Let_def split: if_splits)

lemma parse_signature_loop_length: "parse_signature_loop k i ts = Inr (i', ts') \<Longrightarrow> length ts' \<le> length ts"
  by (induction k i ts rule: parse_signature_loop.induct) (fastforce simp: bind_result_Inr split: if_splits)+

lemma special_total:
  "shrinks (length ts) (Some (parse_valid_match_expr (t # ts)))"
  "shrinks (length ts) (Some (parse_signature_match_expr (t # ts)))"
  by (auto simp: shrinks_def parse_valid_match_expr_def parse_signature_match_expr_def bind_result_Inr
      dest: parse_valid_loop_length parse_signature_loop_length split: sum.splits if_splits prod.splits)

lemma shrinks_accum_then:
  assumes "\<And>op e. shrinks k (loop op e ts)"
  shows "shrinks k (accum_then loop accum op e ts)"
  using assms by (auto simp: accum_then_def split: sum.split)

lemma parse_logical_total: "length ts < n \<Longrightarrow> shrinks (length ts) (parse_logical n u lv op accum ts)"
proof (induction n arbitrary: u lv op accum ts)
  case (Suc n)
  show ?case
  proof (cases ts)
    case (Cons t us)
    have n: "length us < n" using Suc.prems Cons by simp
    have go: "shrinks (Suc (length us)) (accum_then (parse_logical n u lv) accum op e vs)" if "length vs \<le> length us" for e vs
      by (intro shrinks_accum_then shrinks_mono [OF Suc.IH]) (use that n in simp_all)
    have go_tl: "shrinks (Suc (length us)) (accum_then (parse_logical n u lv) accum op e (tl vs))" if "length vs \<le> length us" for e vs
      using go [of "tl vs"] that by simp
    show ?thesis
      unfolding Cons using n
      by (cases "token_kind t")
        (auto simp: to_binary_logical_op_def intro!: go go_tl shrinks_bind [OF Suc.IH] shrinks_bind [OF special_total(1)]
          shrinks_bind [OF special_total(2)] shrinks_bind [OF parse_match_expr_total] shrinks_mono [OF Suc.IH])
  qed simp
qed simp

text \<open>
  C23: The parser returns on every string, with an expression or an error: its recursion never runs
  out of the fuel that the number of tokens gives it.
\<close>

theorem bpf_parse_string_returns: "\<exists>r. bpf_parse_string str = Some r"
proof -
  have "shrinks (length (tokenize str)) (parse_logical (length (tokenize str) + 1) False 0 None Null (tokenize str))"
    by (rule parse_logical_total) simp
  then show ?thesis
    by (auto simp: bpf_parse_string_def Let_def shrinks_def bind_fuelled_def split: option.splits sum.splits)
qed

end
