(* ===== verification/Bpf_Roundtrip.thy ===== *)
theory Bpf_Roundtrip
  imports Bpf_Parse Bpf_Split
begin

text \<open>
  Printing an expression and parsing the result gives the expression back. The builder relies on the
  printer to hand the normal half of a filter to libpcap as text. First the tokens of printed words,
  then the number and flag terms, then the recursive descent, freed from its fuel.
\<close>

subsection \<open>Tokens of words\<close>

definition wordy :: "string \<Rightarrow> bool" where
  "wordy w \<longleftrightarrow> w \<noteq> [] \<and> (\<forall>c \<in> set w. word_char c)"

fun unwords :: "string list \<Rightarrow> string" where
  "unwords [] = []"
| "unwords [w] = w"
| "unwords (w # ws) = w @ '' '' @ unwords ws"

lemma not_word_char [simp]:
  "\<not> word_char CHR ''(''" "\<not> word_char CHR '')''" "\<not> word_char CHR '' ''" "\<not> word_char CHR ''&''" "\<not> word_char CHR ''|''"
  by (simp_all add: word_char_def isalnum_def isdigit_def special_chars_def)

lemma word_char_not_space [simp]: "word_char c \<Longrightarrow> \<not> isspace c"
  by (auto simp: word_char_def isspace_def isalnum_def isdigit_def special_chars_def)

lemma classify_kind [simp]: "token_kind (classify v) \<noteq> T_NONE"
  by (simp add: classify_def)

lemma get_next_word:
  assumes "word_char (hd v)" "v \<noteq> []" "\<forall>c \<in> set w. word_char c" "rest = [] \<or> \<not> word_char (hd rest)"
  shows "\<exists>rest'. get_next_loop v (w @ rest) = (classify (v @ w), rest') \<and> (rest' = rest \<or> rest = CHR '' '' # rest' \<or>
     (\<exists>c. rest = c # rest' \<and> isspace c))"
  using assms
proof (induction w arbitrary: v)
  case Nil
  then show ?case by (cases rest) auto
next
  case (Cons c w)
  then show ?case using Cons.IH [of "v @ [c]"] by auto
qed


lemma tokenize_get_next: "get_next str = (classify v, rest) \<Longrightarrow> tokenize str = classify v # tokenize rest"
  by (subst tokenize.simps) simp

lemma tokenize_Nil [simp]: "tokenize [] = []"
  by (subst tokenize.simps) (simp add: get_next_def)

lemma tokenize_space: "isspace c \<Longrightarrow> tokenize (c # str) = tokenize str"
  by (subst (1 2) tokenize.simps) (simp add: get_next_def)

lemma isspace_blank [simp]: "isspace CHR '' ''"
  by (simp add: isspace_def)

lemma tokenize_blank [simp]: "tokenize (CHR '' '' # str) = tokenize str"
  by (rule tokenize_space) simp

lemma tokenize_word:
  assumes "wordy w" "rest = [] \<or> \<not> word_char (hd rest)"
  shows "tokenize (w @ rest) = classify w # tokenize rest"
proof -
  obtain c v where w: "w = c # v" and c: "word_char c" and v: "\<forall>c \<in> set v. word_char c"
    using assms(1) by (cases w) (auto simp: wordy_def)
  obtain rest' where "get_next_loop [c] (v @ rest) = (classify w, rest')"
    and rest': "rest' = rest \<or> rest = CHR '' '' # rest' \<or> (\<exists>c. rest = c # rest' \<and> isspace c)"
    using get_next_word [of "[c]" v rest] w c v assms(2) by auto
  then have "get_next (w @ rest) = (classify w, rest')" using w c by (simp add: get_next_def)
  then show ?thesis using rest' by (auto simp: tokenize_get_next tokenize_space)
qed

lemma not_isspace [simp]: "\<not> isspace CHR ''(''" "\<not> isspace CHR '')''"
  by (simp_all add: isspace_def)

lemma tokenize_paren [simp]:
  "tokenize (CHR ''('' # str) = classify ''('' # tokenize str"
  "tokenize (CHR '')'' # str) = classify '')'' # tokenize str"
  by (cases str; (subst tokenize.simps); simp add: get_next_def to_token_type_def is_possible_two_byte_op_def
      classify_def tokenize_space)+

definition printed_ops :: "string list" where
  "printed_ops = [''&&'', ''||'', ''='', ''=='', ''!='', ''<'', ''<='', ''>'', ''>='']"

lemma tokenize_op:
  assumes "op \<in> set printed_ops"
  shows "tokenize (op @ CHR '' '' # str) = classify op # tokenize str"
  using assms by (subst tokenize.simps)
    (auto simp: printed_ops_def get_next_def to_token_type_def is_possible_two_byte_op_def classify_def isspace_def
      word_char_def isalnum_def isdigit_def special_chars_def)

lemma tokenize_unwords:
  assumes "\<forall>w \<in> set ws. wordy w" "rest = [] \<or> \<not> word_char (hd rest)"
  shows "tokenize (unwords ws @ rest) = map classify ws @ tokenize rest"
  using assms by (induction ws rule: unwords.induct) (simp_all add: tokenize_word)


subsection \<open>Numbers\<close>

lemma digit_char: "m < 10 \<Longrightarrow> isdigit (char_of (48 + m)) \<and> digit_value (char_of (48 + m)) = m"
  by (simp add: isdigit_def digit_value_def)

lemma isdigit_facts:
  assumes "isdigit c"
  shows "word_char c" "\<not> isspace c" "digit_value c < 10" "c \<noteq> CHR ''-''" "c \<noteq> CHR ''+''" "c \<noteq> CHR ''x''" "c \<noteq> CHR ''X''"
  using assms by (auto simp: isdigit_def word_char_def isalnum_def isspace_def digit_value_def Let_def)

lemma to_decimal_digits: "to_decimal n \<noteq> [] \<and> (\<forall>c \<in> set (to_decimal n). isdigit c)"
proof (induction n rule: to_decimal.induct)
  case (1 n)
  then show ?case by (subst (1 2) to_decimal.simps) (auto simp: digit_char)
qed

lemma number_value_to_decimal: "number_value 10 (to_decimal n) = n"
proof (induction n rule: to_decimal.induct)
  case (1 n)
  then show ?case by (subst to_decimal.simps) (auto simp: digit_char number_value_def)
qed

lemma hd_to_decimal: "0 < n \<Longrightarrow> hd (to_decimal n) \<noteq> CHR ''0''"
proof (induction n rule: to_decimal.induct)
  case (1 n)
  show ?case
  proof (cases "n < 10")
    case True
    have "char_of (48 + n) \<noteq> CHR ''0''"
    proof
      assume "char_of (48 + n) = CHR ''0''"
      then have "(of_char (char_of (48 + n) :: char) :: nat) = of_char (CHR ''0'')" by simp
      then show False using True 1(2) by simp
    qed
    then show ?thesis using True by (subst to_decimal.simps) simp
  next
    case False
    then show ?thesis using 1 to_decimal_digits [of "n div 10"] by (subst to_decimal.simps) simp
  qed
qed

lemma to_decimal_0: "to_decimal 0 = ''0''"
  by (subst to_decimal.simps) (simp add: char_of_def bit_0)

lemma strtoul_to_decimal:
  assumes "n < 2 ^ 64"
  shows "strtoul (to_decimal n) = (of_nat n, [])"
proof (cases "n = 0")
  case True
  then show ?thesis
    by (simp add: to_decimal_0 strtoul_def isspace_def digit_value_def isdigit_def number_value_def)
next
  case False
  obtain c ds where s: "to_decimal n = c # ds" using to_decimal_digits [of n] by (cases "to_decimal n") auto
  have digits: "isdigit c" "\<forall>d \<in> set ds. isdigit d" using to_decimal_digits [of n] s by auto
  have c0: "c \<noteq> CHR ''0''" using hd_to_decimal [of n] False s by simp
  have all: "takeWhile (\<lambda>c. digit_value c < 10) ds = ds"
    using digits(2) by (simp add: isdigit_facts(3))
  show ?thesis
    using s c0 digits number_value_to_decimal [of n] assms
    by (simp add: strtoul_def isdigit_facts all Let_def)
qed

lemma parse_number_to_decimal: "n < 2 ^ 64 \<Longrightarrow> parse_number (to_decimal n) = Inr (of_nat n)"
  by (simp add: parse_number_def strtoul_to_decimal)

lemma minus_notin_to_decimal: "CHR ''-'' \<notin> set (to_decimal n)"
  using to_decimal_digits [of n] isdigit_facts(4) by blast

definition range_string :: "stream_id_range \<Rightarrow> string" where
  "range_string i =
     (if range_start i = range_end i then to_decimal (unat (range_start i))
      else to_decimal (unat (range_start i)) @ ''-'' @ to_decimal (unat (range_end i)))"

lemma u32_to_decimal: "parse_number (to_decimal (unat (x :: u32))) = Inr (ucast x)"
proof -
  have "unat x < 2 ^ 64" using unsigned_less [of x, where 'a = nat] by simp
  then show ?thesis by (simp add: parse_number_to_decimal unsigned_of_nat flip: unsigned_def)
qed


lemma takeWhile_upto: "x \<notin> set xs \<Longrightarrow> takeWhile (\<lambda>c. c \<noteq> x) (xs @ x # ys) = xs"
  by (induction xs) auto

lemma takeWhile_to_decimal: "takeWhile (\<lambda>c. c \<noteq> CHR ''-'') (to_decimal n @ CHR ''-'' # s) = to_decimal n"
  by (rule takeWhile_upto) (rule minus_notin_to_decimal)

lemma ucast_back: "ucast (ucast (x :: u32) :: u64) = x"
  by (rule bit_word_eqI) (simp add: bit_simps)

lemma parse_range_string: "parse_range (range_string i) = Inr (range_start i, range_end i)"
  by (simp add: parse_range_def range_string_def minus_notin_to_decimal u32_to_decimal takeWhile_to_decimal ucast_back)

lemma isdigit_not_in: "isdigit c \<Longrightarrow> c \<notin> set ''ao&|n!=<>()vs''"
  by (auto simp: isdigit_def)

lemma word_range_string: "wordy (range_string i)" "to_token_type (range_string i) = T_NONE"
proof -
  obtain c s where s: "range_string i = c # s" and c: "isdigit c"
    using to_decimal_digits [of "unat (range_start i)"] unfolding range_string_def
    by (cases "to_decimal (unat (range_start i))") (force split: if_splits)+
  have "word_char CHR ''-''" by (simp add: word_char_def special_chars_def)
  then have "\<forall>c \<in> set (range_string i). word_char c"
    using to_decimal_digits isdigit_facts(1) unfolding range_string_def by (auto split: if_splits)
  then show "wordy (range_string i)" using s by (simp add: wordy_def)
  show "to_token_type (range_string i) = T_NONE"
    using isdigit_not_in [OF c] s by (simp add: to_token_type_def)
qed

subsection \<open>Flags\<close>

definition valid_words :: "u32 \<Rightarrow> string list" where
  "valid_words flags =
     (if has_flag flags ETH_FCS then [''fcs''] else []) @
     (if flags AND all_chksum_flags = all_chksum_flags then [''chksum'']
      else (if has_flag flags IP_CHKSUM then [''ip'', ''chksum''] else []) @
        (if has_flag flags TCP_CHKSUM then [''tcp'', ''chksum''] else []) @
        (if has_flag flags UDP_CHKSUM then [''udp'', ''chksum''] else []) @
        (if has_flag flags ICMP_CHKSUM then [''icmp'', ''chksum''] else [])) @
     (if has_flag flags SIGNATURE_PRBS then [''prbs''] else [])"

lemma valid_string_words:
  assumes "valid_words flags \<noteq> []"
  shows "valid_to_string flags = ''('' @ unwords (''valid'' # valid_words flags) @ '')''"
proof -
  have "add_word b0 ''prbs'' (if c then add_word True ''chksum'' (if b1 then ''fcs'' else '''')
      else add_word b2 ''icmp chksum'' (add_word b3 ''udp chksum'' (add_word b4 ''tcp chksum'' (add_word b5 ''ip chksum''
        (if b1 then ''fcs'' else '''')))))
    = unwords ((if b1 then [''fcs''] else []) @ (if c then [''chksum''] else (if b5 then [''ip'', ''chksum''] else []) @
        (if b4 then [''tcp'', ''chksum''] else []) @ (if b3 then [''udp'', ''chksum''] else []) @
        (if b2 then [''icmp'', ''chksum''] else [])) @ (if b0 then [''prbs''] else []))" for b0 b1 b2 b3 b4 b5 c
    by (cases b0; cases b1; cases c; simp add: add_word_def)
  then have "valid_to_string flags = ''(valid '' @ unwords (valid_words flags) @ '')''"
    by (simp only: valid_to_string_def valid_words_def Let_def)
  then show ?thesis using assms by (cases "valid_words flags") simp_all
qed


lemma classify_simps [simp]: "token_value (classify v) = v"
  "token_kind (classify v) = (if to_token_type v = T_NONE then WORD else to_token_type v)"
  by (simp_all add: classify_def)

lemma kind_Cons [simp]: "kind (t # ts) = token_kind t" "kind [] = T_NONE"
  by (simp_all add: kind_def)

lemma reserved_tokens [simp]:
  "to_token_type ''('' = LPAREN" "to_token_type '')'' = RPAREN" "to_token_type ''not'' = T_NOT" "to_token_type ''&&'' = T_AND"
  "to_token_type ''||'' = T_OR" "to_token_type ''valid'' = VALID" "to_token_type ''signature'' = SIGNATURE"
  by (simp_all add: to_token_type_def)

lemma term_words [simp]:
  "to_token_type ''fcs'' = T_NONE" "to_token_type ''chksum'' = T_NONE" "to_token_type ''ip'' = T_NONE"
  "to_token_type ''tcp'' = T_NONE" "to_token_type ''udp'' = T_NONE" "to_token_type ''icmp'' = T_NONE"
  "to_token_type ''prbs'' = T_NONE" "to_token_type ''streamid'' = T_NONE"
  by (simp_all add: to_token_type_def)

lemma parse_valid_words:
  "parse_valid_loop 0 [] (map classify (valid_words f) @ classify '')'' # ts) =
     Inr ((if has_flag f ETH_FCS then ETH_FCS else 0) OR
       (if f AND all_chksum_flags = all_chksum_flags then all_chksum_flags
        else (if has_flag f IP_CHKSUM then IP_CHKSUM else 0) OR (if has_flag f TCP_CHKSUM then TCP_CHKSUM else 0) OR
          (if has_flag f UDP_CHKSUM then UDP_CHKSUM else 0) OR (if has_flag f ICMP_CHKSUM then ICMP_CHKSUM else 0)) OR
       (if has_flag f SIGNATURE_PRBS then SIGNATURE_PRBS else 0), [], classify '')'' # ts)"
  unfolding valid_words_def
  by (cases "has_flag f ETH_FCS"; cases "f AND all_chksum_flags = all_chksum_flags"; cases "has_flag f SIGNATURE_PRBS")
    (simp_all add: chksum_flags_def or.assoc)

definition known_flags :: u32 where
  "known_flags = ETH_FCS OR all_chksum_flags OR SIGNATURE_PRBS"


lemma flag_part: "X = 2 ^ i \<Longrightarrow> i < 32 \<Longrightarrow> (if has_flag f X then X else 0) = f AND X"
  by (simp add: has_flag_def and_exp)

lemma flag_parts:
  "(if has_flag f ETH_FCS then ETH_FCS else 0) = f AND ETH_FCS"
  "(if has_flag f IP_CHKSUM then IP_CHKSUM else 0) = f AND IP_CHKSUM"
  "(if has_flag f TCP_CHKSUM then TCP_CHKSUM else 0) = f AND TCP_CHKSUM"
  "(if has_flag f UDP_CHKSUM then UDP_CHKSUM else 0) = f AND UDP_CHKSUM"
  "(if has_flag f ICMP_CHKSUM then ICMP_CHKSUM else 0) = f AND ICMP_CHKSUM"
  "(if has_flag f SIGNATURE_PRBS then SIGNATURE_PRBS else 0) = f AND SIGNATURE_PRBS"
  by (rule flag_part [of _ 0] flag_part [of _ 1] flag_part [of _ 2] flag_part [of _ 3] flag_part [of _ 4] flag_part [of _ 5];
      simp add: valid_flags)+

lemma parse_valid_words_known:
  assumes "f AND known_flags = f"
  shows "parse_valid_loop 0 [] (map classify (valid_words f) @ classify '')'' # ts) = Inr (f, [], classify '')'' # ts)"
proof -
  have all: "(if f AND all_chksum_flags = all_chksum_flags then all_chksum_flags
      else f AND IP_CHKSUM OR f AND TCP_CHKSUM OR f AND UDP_CHKSUM OR f AND ICMP_CHKSUM) = f AND all_chksum_flags"
    by (simp add: all_chksum_flags_def bit.conj_disj_distrib)
  have "(f AND ETH_FCS) OR (f AND all_chksum_flags) OR (f AND SIGNATURE_PRBS) = f"
    using assms by (simp add: known_flags_def bit.conj_disj_distrib)
  then show ?thesis unfolding parse_valid_words flag_parts all by simp
qed

lemma valid_words_empty:
  assumes "f AND known_flags = f" "valid_words f = []"
  shows "f = 0"
  using parse_valid_words_known [OF assms(1), of "[]"] assms(2) by simp

lemma wordy_terms [simp]:
  "wordy ''valid''" "wordy ''signature''" "wordy ''streamid''" "wordy ''not''"
  by (simp_all add: wordy_def word_char_def isalnum_def isdigit_def)

lemma wordy_valid_words: "w \<in> set (valid_words f) \<Longrightarrow> wordy w"
  by (auto simp: valid_words_def wordy_def word_char_def isalnum_def isdigit_def split: if_splits)

lemma tokenize_valid:
  assumes "f AND known_flags = f" "f \<noteq> 0"
  shows "tokenize (valid_to_string f @ rest) =
    classify ''('' # classify ''valid'' # map classify (valid_words f) @ classify '')'' # tokenize rest"
proof -
  have "valid_words f \<noteq> []" using valid_words_empty [OF assms(1)] assms(2) by blast
  moreover have "tokenize (unwords (''valid'' # valid_words f) @ CHR '')'' # rest) =
      map classify (''valid'' # valid_words f) @ tokenize (CHR '')'' # rest)"
    by (rule tokenize_unwords) (auto simp: wordy_valid_words)
  ultimately show ?thesis by (simp add: valid_string_words)
qed

lemma tokenize_signature:
  "tokenize (signature_to_string i @ rest) = classify ''('' # classify ''signature'' #
     (case i of None \<Rightarrow> [] | Some r \<Rightarrow> [classify ''streamid'', classify (range_string r)]) @ classify '')'' # tokenize rest"
proof -
  have "tokenize (unwords ws @ CHR '')'' # rest) = map classify ws @ tokenize (CHR '')'' # rest)"
    if "\<forall>w \<in> set ws. wordy w" for ws
    by (rule tokenize_unwords [OF that]) simp
  from this [of "[''signature'']"] this [of "[''signature'', ''streamid'', range_string (the i)]"]
  show ?thesis
    by (cases i) (simp_all add: signature_to_string_def word_range_string flip: range_string_def)
qed


subsection \<open>Generic terms\<close>

definition plain_words :: "string list \<Rightarrow> bool" where
  "plain_words ws \<longleftrightarrow> ws \<noteq> [] \<and> (\<forall>w \<in> set ws. wordy w \<and> to_token_type w = T_NONE)"

definition compare_ops :: "string list" where
  "compare_ops = [''='', ''=='', ''!='', ''<'', ''<='', ''>'', ''>='']"

definition generic_term :: "string \<Rightarrow> bool" where
  "generic_term s \<longleftrightarrow> (\<exists>us. plain_words us \<and> s = unwords us) \<or>
     (\<exists>us op vs. plain_words us \<and> op \<in> set compare_ops \<and> plain_words vs \<and> s = unwords us @ '' '' @ op @ '' '' @ unwords vs)"

definition append_word :: "string \<Rightarrow> string \<Rightarrow> string" where
  "append_word s w = (if s \<noteq> [] then s @ '' '' else s) @ w"

lemma foldl_append_word: "s \<noteq> [] \<Longrightarrow> foldl append_word s ws = unwords (s # ws)"
proof (induction ws arbitrary: s)
  case (Cons w ws)
  have "unwords (append_word s w # ws) = unwords (s # w # ws)"
    using Cons.prems by (cases ws) (simp_all add: append_word_def)
  moreover have "append_word s w \<noteq> []" using Cons.prems by (simp add: append_word_def)
  ultimately show ?case using Cons.IH by simp
qed simp

lemma foldl_plain_words: "plain_words ws \<Longrightarrow> foldl append_word [] ws = unwords ws"
  by (cases ws) (auto simp: plain_words_def wordy_def append_word_def foldl_append_word)

lemma unwords_plain: "plain_words ws \<Longrightarrow> unwords ws \<noteq> []"
  by (cases ws rule: unwords.cases) (auto simp: plain_words_def wordy_def)

lemma match_term_words:
  assumes "\<forall>w \<in> set ws. to_token_type w = T_NONE" "length ws < n"
  shows "match_term n s lv (map classify ws @ ts) = match_term (n - length ws) (foldl append_word s ws) lv ts"
  using assms
proof (induction ws arbitrary: n s)
  case (Cons w ws)
  then show ?case by (cases n) (simp_all add: append_word_def)
qed simp

lemma match_term_stops:
  assumes "plain_words ws" "token_kind t = RPAREN \<and> 0 < lv \<or> is_compare_op (token_kind t)"
  shows "parse_match_expr_term lv (map classify ws @ t # ts) = Some (Inr (unwords ws, t # ts))"
proof -
  have "parse_match_expr_term lv (map classify ws @ t # ts) = match_term (Suc (Suc (length ts))) (unwords ws) lv (t # ts)"
    using assms(1) by (simp add: parse_match_expr_term_def match_term_words foldl_plain_words plain_words_def)
  then show ?thesis
    using assms(2) unwords_plain [OF assms(1)] by (auto simp: is_compare_op_def end_term_def)
qed

lemma compare_op_kind: "op \<in> set compare_ops \<Longrightarrow> is_compare_op (token_kind (classify op))"
  by (auto simp: compare_ops_def is_compare_op_def classify_def to_token_type_def)

lemma tokenize_plain:
  "plain_words ws \<Longrightarrow> rest = [] \<or> \<not> word_char (hd rest) \<Longrightarrow> tokenize (unwords ws @ rest) = map classify ws @ tokenize rest"
  by (rule tokenize_unwords) (auto simp: plain_words_def)

lemma generic_term_parses:
  assumes "generic_term s" "0 < lv"
  obtains t ts where "token_kind t = WORD" "tokenize (s @ '')'' @ rest) = t # ts @ classify '')'' # tokenize rest"
    "\<And>us. parse_match_expr lv (t # ts @ classify '')'' # us) = Some (Inr (Generic_match s, classify '')'' # us))"
  using assms(1) unfolding generic_term_def
proof (elim disjE exE conjE)
  fix ws
  assume ws: "plain_words ws" and s: "s = unwords ws"
  obtain w vs where w: "ws = w # vs" using ws by (cases ws) (auto simp: plain_words_def)
  have t: "tokenize (s @ '')'' @ rest) = classify w # map classify vs @ classify '')'' # tokenize rest"
    using tokenize_plain [OF ws, of "'')'' @ rest"] s w by simp
  have p: "parse_match_expr lv (map classify ws @ classify '')'' # us) = Some (Inr (Generic_match s, classify '')'' # us))" for us
    using match_term_stops [OF ws] assms(2) s by (simp add: parse_match_expr_def is_compare_op_def)
  have "token_kind (classify w) = WORD" using ws w by (simp add: plain_words_def)
  then show ?thesis using that [of "classify w" "map classify vs"] t p w by simp
next
  fix us op vs
  assume us: "plain_words us" and op: "op \<in> set compare_ops" and vs: "plain_words vs"
    and s: "s = unwords us @ '' '' @ op @ '' '' @ unwords vs"
  obtain w ws where w: "us = w # ws" using us by (cases us) (auto simp: plain_words_def)
  have "tokenize (unwords us @ '' '' @ op @ '' '' @ unwords vs @ '')'' @ rest) =
      map classify us @ tokenize (op @ '' '' @ unwords vs @ '')'' @ rest)"
    using tokenize_plain [OF us, of "'' '' @ op @ '' '' @ unwords vs @ '')'' @ rest"] by simp
  also have "tokenize (op @ '' '' @ unwords vs @ '')'' @ rest) = classify op # map classify vs @ classify '')'' # tokenize rest"
    using tokenize_op [of op "unwords vs @ '')'' @ rest"] op tokenize_plain [OF vs, of "'')'' @ rest"]
    by (auto simp: compare_ops_def printed_ops_def)
  finally have t: "tokenize (s @ '')'' @ rest) = classify w # (map classify ws @ classify op # map classify vs) @ classify '')'' # tokenize rest"
    using s w by simp
  have p: "parse_match_expr lv (map classify us @ classify op # map classify vs @ classify '')'' # ts)
      = Some (Inr (Generic_match s, classify '')'' # ts))" for ts
    using match_term_stops [OF us, of "classify op" lv] match_term_stops [OF vs, of "classify '')''" lv] assms(2) s
      compare_op_kind [OF op] by (simp add: parse_match_expr_def)
  have "token_kind (classify w) = WORD" using us w by (simp add: plain_words_def)
  then show ?thesis using that [of "classify w" "map classify ws @ classify op # map classify vs"] t p w by simp
qed


subsection \<open>The descent without its fuel\<close>

lemma bind_fuelled_shrinks_cong:
  assumes "shrinks j m" "\<And>x ts. length ts \<le> j \<Longrightarrow> f (x, ts) = g (x, ts)"
  shows "bind_fuelled m f = bind_fuelled m g"
  using assms by (auto simp: shrinks_def bind_fuelled_def split: option.splits sum.splits prod.splits)

lemma accum_then_cong: "(\<And>op e. loop op e ts = loop' op e ts) \<Longrightarrow> accum_then loop accum op e ts = accum_then loop' accum op e ts"
  by (simp add: accum_then_def split: sum.split prod.split)

lemma parse_logical_fuel:
  "length ts < n \<Longrightarrow> length ts < m \<Longrightarrow> parse_logical n u lv op accum ts = parse_logical m u lv op accum ts"
proof (induction n arbitrary: m u lv op accum ts)
  case (Suc n)
  obtain k where m: "m = Suc k" using Suc.prems by (cases m) auto
  show ?case
  proof (cases ts)
    case (Cons t us)
    have n: "length us < n" "length us < k" using Suc.prems Cons m by auto
    have go: "accum_then (parse_logical n u lv) accum op e vs = accum_then (parse_logical k u lv) accum op e vs"
      if "length vs \<le> length us" for e vs
      using that n by (intro accum_then_cong Suc.IH) auto
    have sub: "parse_logical n b l None Null us = parse_logical k b l None Null us" for b l
      using n by (intro Suc.IH)
    have next_op: "parse_logical n b lv (Some x) accum us = parse_logical k b lv (Some x) accum us" for b x
      using n by (intro Suc.IH)
    note cong = bind_fuelled_shrinks_cong [OF parse_logical_total [OF n(2)]] bind_fuelled_shrinks_cong [OF special_total(1)]
      bind_fuelled_shrinks_cong [OF special_total(2)] bind_fuelled_shrinks_cong [OF parse_match_expr_total]
    show ?thesis
      unfolding Cons m using n
      by (cases "token_kind t") (auto simp: sub next_op to_binary_logical_op_def intro!: cong go)
  qed (simp add: m)
qed simp

definition parse_expr ::
  "bool \<Rightarrow> nat \<Rightarrow> binary_logical_op option \<Rightarrow> expr \<Rightarrow> token list \<Rightarrow> (expr \<times> token list) fuelled" where
  "parse_expr unary paren_level op accum ts = parse_logical (Suc (length ts)) unary paren_level op accum ts"

lemma parse_expr_fuel: "length ts < n \<Longrightarrow> parse_logical n u lv op accum ts = parse_expr u lv op accum ts"
  unfolding parse_expr_def by (rule parse_logical_fuel) simp_all

lemma accum_then_fuel: "length ts < n \<Longrightarrow> accum_then (parse_logical n u lv) accum op e ts = accum_then (parse_expr u lv) accum op e ts"
  by (rule accum_then_cong) (rule parse_expr_fuel)

lemma parse_expr_leaf:
  assumes "token_kind t = VALID \<and> parse_valid_match_expr (t # ts) = Inr (e, us)
      \<or> token_kind t = SIGNATURE \<and> parse_signature_match_expr (t # ts) = Inr (e, us)
      \<or> token_kind t = WORD \<and> parse_match_expr lv (t # ts) = Some (Inr (e, us))"
    and "length us \<le> length ts"
  shows "parse_expr u lv op accum (t # ts) = accum_then (parse_expr u lv) accum op e us"
  using assms by (auto simp: parse_expr_def [of u lv op accum] accum_then_fuel)

lemma parse_expr_paren:
  assumes "token_kind t = LPAREN" "parse_expr False (lv + 1) None Null ts = Some (Inr (e, r # us))" "token_kind r = RPAREN"
    and "length us \<le> length ts"
  shows "parse_expr u lv op accum (t # ts) = accum_then (parse_expr u lv) accum op e us"
  using assms by (simp add: parse_expr_def [of u lv op accum] parse_expr_fuel accum_then_fuel)

lemma parse_expr_not:
  assumes "token_kind t = T_NOT" "parse_expr True lv None Null ts = Some (Inr (e, us))" "length us \<le> length ts"
  shows "parse_expr u lv op accum (t # ts) = accum_then (parse_expr u lv) accum op (Unary_logical e Op_not) us"
  using assms by (simp add: parse_expr_def [of u lv op accum] parse_expr_fuel accum_then_fuel)

lemma parse_expr_op:
  assumes "token_kind t = T_AND \<and> o2 = Op_and \<or> token_kind t = T_OR \<and> o2 = Op_or"
  shows "parse_expr False lv None accum (t # ts) = parse_expr False lv (Some o2) accum ts"
  using assms by (auto simp: parse_expr_def [of False lv None accum] parse_expr_fuel to_binary_logical_op_def)

definition stops :: "bool \<Rightarrow> nat \<Rightarrow> token list \<Rightarrow> bool" where
  "stops u lv ts \<longleftrightarrow> ts = [] \<or> kind ts = RPAREN \<and> 0 < lv \<or> u \<and> (kind ts = T_AND \<or> kind ts = T_OR)"

lemma parse_expr_stops: "stops u lv ts \<Longrightarrow> parse_expr u lv None accum ts = Some (Inr (accum, ts))"
  by (cases ts) (auto simp: stops_def parse_expr_def)


subsection \<open>Round trip\<close>

definition parses :: "expr \<Rightarrow> string \<Rightarrow> bool" where
  "parses e s \<longleftrightarrow> (\<forall>rest u lv op accum. stops True lv (tokenize rest) \<longrightarrow>
     length (tokenize rest) < length (tokenize (s @ rest)) \<and>
     parse_expr u lv op accum (tokenize (s @ rest)) = accum_then (parse_expr u lv) accum op e (tokenize rest))"

lemma parsesD:
  assumes "parses e s" "stops True lv (tokenize rest)"
  shows "length (tokenize rest) < length (tokenize (s @ rest))"
    "parse_expr u lv op accum (tokenize (s @ rest)) = accum_then (parse_expr u lv) accum op e (tokenize rest)"
  using assms unfolding parses_def by blast+

lemma accum_then_simps [simp]:
  "accum_then loop Null op e ts = loop op e ts"
  "accum \<noteq> Null \<Longrightarrow> accum_then loop accum (Some o2) e ts = loop None (Binary_logical accum e o2) ts"
  by (simp_all add: accum_then_def expr_accum_def)

lemma stops_rparen [simp]: "stops u (Suc lv) (classify '')'' # ts)"
  by (simp add: stops_def)

lemma parses_bracketed:
  assumes "\<And>lv rest. stops True lv (tokenize rest) \<Longrightarrow> length (tokenize rest) < length (tokenize (s @ '')'' @ rest)) \<and>
    parse_expr False (Suc lv) None Null (tokenize (s @ '')'' @ rest)) = Some (Inr (e, classify '')'' # tokenize rest))"
  shows "parses e (''('' @ s @ '')'')"
  unfolding parses_def
proof (intro allI impI)
  fix rest u lv op accum
  assume st: "stops True lv (tokenize rest)"
  from assms [OF st] show "length (tokenize rest) < length (tokenize ((''('' @ s @ '')'') @ rest)) \<and>
      parse_expr u lv op accum (tokenize ((''('' @ s @ '')'') @ rest)) = accum_then (parse_expr u lv) accum op e (tokenize rest)"
    by (auto intro: parse_expr_paren [where r = "classify '')''"])
qed

lemma parses_paren: "parses e s \<Longrightarrow> parses e (''('' @ s @ '')'')"
proof (rule parses_bracketed)
  fix lv rest
  assume "parses e s"
  from parsesD [OF this, of "Suc lv" "'')'' @ rest"]
  show "length (tokenize rest) < length (tokenize (s @ '')'' @ rest)) \<and>
    parse_expr False (Suc lv) None Null (tokenize (s @ '')'' @ rest)) = Some (Inr (e, classify '')'' # tokenize rest))"
    by (auto simp: parse_expr_stops)
qed

lemma parses_leaf:
  assumes "\<And>rest. tokenize (s @ '')'' @ rest) = t # ts @ classify '')'' # tokenize rest"
    and "\<And>lv us. token_kind t = VALID \<and> parse_valid_match_expr (t # ts @ classify '')'' # us) = Inr (e, classify '')'' # us)
      \<or> token_kind t = SIGNATURE \<and> parse_signature_match_expr (t # ts @ classify '')'' # us) = Inr (e, classify '')'' # us)
      \<or> token_kind t = WORD \<and> parse_match_expr (Suc lv) (t # ts @ classify '')'' # us) = Some (Inr (e, classify '')'' # us))"
  shows "parses e (''('' @ s @ '')'')"
proof (rule parses_bracketed)
  fix lv rest
  show "length (tokenize rest) < length (tokenize (s @ '')'' @ rest)) \<and>
    parse_expr False (Suc lv) None Null (tokenize (s @ '')'' @ rest)) = Some (Inr (e, classify '')'' # tokenize rest))"
    using parse_expr_leaf [OF assms(2), of "tokenize rest" False "lv" None Null] assms(1) [of rest]
    by (simp add: parse_expr_stops)
qed

lemma parses_not:
  assumes "parses e s" "s \<noteq> [] \<and> hd s = CHR ''(''"
  shows "parses (Unary_logical e Op_not) (''not'' @ s)"
  unfolding parses_def
proof (intro allI impI)
  fix rest u lv op accum
  assume st: "stops True lv (tokenize rest)"
  have t: "tokenize (''not'' @ s @ rest) = classify ''not'' # tokenize (s @ rest)"
    using assms(2) by (intro tokenize_word) simp_all
  note d = parsesD [OF assms(1) st]
  have "parse_expr True lv None Null (tokenize (s @ rest)) = Some (Inr (e, tokenize rest))"
    by (simp add: d(2) parse_expr_stops [OF st])
  then show "length (tokenize rest) < length (tokenize ((''not'' @ s) @ rest)) \<and>
      parse_expr u lv op accum (tokenize ((''not'' @ s) @ rest)) =
      accum_then (parse_expr u lv) accum op (Unary_logical e Op_not) (tokenize rest)"
    using t d(1) parse_expr_not [of "classify ''not''"] by auto
qed


lemma parses_binary:
  assumes "parses l s" "parses r t" "l \<noteq> Null"
  shows "parses (Binary_logical l r o2) (''('' @ (s @ '' '' @ binary_to_string o2 @ '' '' @ t) @ '')'')"
proof (rule parses_bracketed)
  fix lv rest
  let ?op = "binary_to_string o2"
  let ?ts = "tokenize (t @ '')'' @ rest)"
  have op: "tokenize (?op @ CHR '' '' # t @ '')'' @ rest) = classify ?op # ?ts"
    by (rule tokenize_op) (simp add: printed_ops_def binary_to_string_def split: binary_logical_op.split)
  have kinds: "token_kind (classify ?op) = T_AND \<and> o2 = Op_and \<or> token_kind (classify ?op) = T_OR \<and> o2 = Op_or"
    by (cases o2) (simp_all add: binary_to_string_def)
  have st: "stops True (Suc lv) (tokenize ('' '' @ ?op @ '' '' @ t @ '')'' @ rest))"
    using op kinds by (auto simp: stops_def simp del: classify_simps)
  note l = parsesD [OF assms(1) st] and r = parsesD [OF assms(2), of "Suc lv" "'')'' @ rest"]
  have "parse_expr False (Suc lv) None Null (tokenize (s @ '' '' @ ?op @ '' '' @ t @ '')'' @ rest)) =
      parse_expr False (Suc lv) None l (classify ?op # ?ts)"
    using l(2) [of False None Null] op by simp
  also have "\<dots> = parse_expr False (Suc lv) (Some o2) l ?ts" by (rule parse_expr_op [OF kinds])
  also have "\<dots> = Some (Inr (Binary_logical l r o2, classify '')'' # tokenize rest))"
    using r(2) assms(3) by (simp add: parse_expr_stops)
  finally show "length (tokenize rest) < length (tokenize ((s @ '' '' @ ?op @ '' '' @ t) @ '')'' @ rest)) \<and>
    parse_expr False (Suc lv) None Null (tokenize ((s @ '' '' @ ?op @ '' '' @ t) @ '')'' @ rest)) =
      Some (Inr (Binary_logical l r o2, classify '')'' # tokenize rest))"
    using l(1) r(1) op by simp
qed

fun printable :: "expr \<Rightarrow> bool" where
  "printable Null \<longleftrightarrow> False"
| "printable (Generic_match s) \<longleftrightarrow> generic_term s"
| "printable (Valid_match flags) \<longleftrightarrow> flags \<noteq> 0 \<and> flags AND known_flags = flags"
| "printable (Signature_match i) \<longleftrightarrow> True"
| "printable (Unary_logical e op) \<longleftrightarrow> printable e"
| "printable (Binary_logical l r op) \<longleftrightarrow> printable l \<and> printable r"

lemma parses_generic: "generic_term s \<Longrightarrow> parses (Generic_match s) (''('' @ s @ '')'')"
proof (rule parses_bracketed)
  fix lv rest
  assume "generic_term s"
  then obtain t ts where "token_kind t = WORD" "tokenize (s @ '')'' @ rest) = t # ts @ classify '')'' # tokenize rest"
    "\<And>us. parse_match_expr (Suc lv) (t # ts @ classify '')'' # us) = Some (Inr (Generic_match s, classify '')'' # us))"
    using generic_term_parses [of s "Suc lv" rest] by (metis zero_less_Suc)
  then show "length (tokenize rest) < length (tokenize (s @ '')'' @ rest)) \<and> parse_expr False (Suc lv) None Null
      (tokenize (s @ '')'' @ rest)) = Some (Inr (Generic_match s, classify '')'' # tokenize rest))"
    using parse_expr_leaf [of t _ "Generic_match s" "classify '')'' # tokenize rest" "Suc lv" False None Null]
    by (simp add: parse_expr_stops)
qed

lemma parses_valid:
  assumes "flags \<noteq> 0" "flags AND known_flags = flags"
  shows "parses (Valid_match flags) (valid_to_string flags)"
proof -
  have ne: "valid_words flags \<noteq> []" using valid_words_empty [OF assms(2)] assms(1) by blast
  have "parses (Valid_match flags) (''('' @ unwords (''valid'' # valid_words flags) @ '')'')"
  proof (rule parses_leaf)
    show "tokenize (unwords (''valid'' # valid_words flags) @ '')'' @ rest) =
        classify ''valid'' # map classify (valid_words flags) @ classify '')'' # tokenize rest" for rest
      using tokenize_valid [OF assms(2, 1), of rest] by (simp add: valid_string_words [OF ne])
  qed (simp add: parse_valid_match_expr_def parse_valid_words_known [OF assms(2)] assms(1))
  then show ?thesis by (simp only: valid_string_words [OF ne])
qed

lemma parses_signature: "parses (Signature_match i) (signature_to_string i)"
proof -
  let ?ws = "case i of None \<Rightarrow> [] | Some r \<Rightarrow> [''streamid'', range_string r]"
  have s: "signature_to_string i = ''('' @ unwords (''signature'' # ?ws) @ '')''"
    by (cases i) (simp_all add: signature_to_string_def range_string_def)
  have "parses (Signature_match i) (''('' @ unwords (''signature'' # ?ws) @ '')'')"
  proof (rule parses_leaf)
    show "tokenize (unwords (''signature'' # ?ws) @ '')'' @ rest) =
        classify ''signature'' # map classify ?ws @ classify '')'' # tokenize rest" for rest
      using tokenize_signature [of i rest] unfolding s by (cases i) simp_all
  qed (cases i; simp add: parse_signature_match_expr_def word_range_string parse_range_string)
  then show ?thesis by (simp only: s)
qed

lemma to_string_parses:
  "printable e \<Longrightarrow> \<exists>s. to_string e = Inr s \<and> parses e s"
proof (induction e)
  case (Unary_logical e op)
  then obtain s where s: "to_string e = Inr s" "parses e s" by auto
  show ?case
  proof (cases "s \<noteq> [] \<and> hd s = CHR ''(''")
    case True
    then show ?thesis using s parses_not by (cases op) (auto simp: unary_to_string_def)
  next
    case False
    then show ?thesis
      using s(1) parses_not [OF parses_paren [OF s(2)]] by (cases op) (auto simp: unary_to_string_def)
  qed
next
  case (Binary_logical l r op)
  then obtain s t where "to_string l = Inr s" "parses l s" "to_string r = Inr t" "parses r t" by auto
  then show ?case using parses_binary [of l s r t op] Binary_logical.prems by (cases l) auto
qed (auto simp: parses_generic [simplified] parses_valid parses_signature)


definition sample_filter :: expr where
  "sample_filter = Binary_logical (Unary_logical (Valid_match (ETH_FCS OR IP_CHKSUM)) Op_not)
     (Binary_logical (Generic_match ''length == 1000'') (Signature_match (Some \<lparr>range_start = 1, range_end = 5\<rparr>)) Op_and) Op_or"

lemma printable_sample_filter: "printable sample_filter"
proof -
  have "plain_words [''length'']" "plain_words [''1000'']"
    by (simp_all add: plain_words_def wordy_def word_char_def isalnum_def isdigit_def to_token_type_def)
  then have "generic_term (unwords [''length''] @ '' '' @ ''=='' @ '' '' @ unwords [''1000''])"
    unfolding generic_term_def
    by (intro disjI2 exI [of _ "[''length'']"] exI [of _ "''==''"] exI [of _ "[''1000'']"]) (simp add: compare_ops_def)
  then show ?thesis by (simp add: sample_filter_def known_flags_def all_chksum_flags_def valid_flags)
qed


text \<open>
  The parser accepts \<open>not\<close> with nothing behind it, and the expression it returns has a null child,
  which the first use of the expression, \<open>has_special\<close>, dereferences; \<open>signature streamid\<close> without a
  number is accepted as a plain \<open>signature\<close>, and \<open>signature and\<close> without a right operand too.
\<close>

theorem parser_accepts_incomplete:
  "bpf_parse_string ''not'' = Some (Inr (Unary_logical Null Op_not)) \<and>
   has_special (Unary_logical Null Op_not) = Inl Null_deref \<and>
   bpf_parse_string ''signature streamid'' = Some (Inr (Signature_match None)) \<and>
   bpf_parse_string ''signature and'' = Some (Inr (Signature_match None))"
proof -
  have t: "tokenize ''not'' = [classify ''not'']" "tokenize ''signature streamid'' = [classify ''signature'', classify ''streamid'']"
    "tokenize ''signature and'' = [classify ''signature'', classify ''and'']"
    using tokenize_unwords [of "[''not'']" "[]"] tokenize_unwords [of "[''signature'', ''streamid'']" "[]"]
      tokenize_unwords [of "[''signature'', ''and'']" "[]"]
    by (simp_all add: wordy_def word_char_def isalnum_def isdigit_def)
  have and_kind: "to_token_type ''and'' = T_AND" by (simp add: to_token_type_def)
  show ?thesis
    by (simp add: t and_kind bpf_parse_string_def parse_signature_match_expr_def to_binary_logical_op_def Let_def
        has_special.simps [of "Unary_logical Null Op_not"] has_special.simps [of Null] is_special_def)
qed

end
