(* ===== verification/Bpf_Filter.thy ===== *)
theory Bpf_Filter
  imports Bpf_Safety Bpf_Build Bpf_Roundtrip
begin

text \<open>
  The packet filter class, \<^verbatim>\<open>src/modules/packet/bpf/bpf.cpp\<close>, \<^verbatim>\<open>bpf.hpp\<close> and \<^verbatim>\<open>bpf_sink.cpp\<close>, and the
  flags of an expression from \<^verbatim>\<open>bpf_build.cpp\<close>. A filter is parsed, split, compiled and validated,
  and then run over bursts of packets by one of six groups of functions. libpcap's compiler and the
  JIT compiler are arguments.
\<close>

unbundle bit_operations_syntax

subsection \<open>Filter flags\<close>

definition BPF_FILTER_FLAGS_FCS_ERROR :: u32 where "BPF_FILTER_FLAGS_FCS_ERROR = 0x01"
definition BPF_FILTER_FLAGS_IP_CHKSUM_ERROR :: u32 where "BPF_FILTER_FLAGS_IP_CHKSUM_ERROR = 0x02"
definition BPF_FILTER_FLAGS_TCP_CHKSUM_ERROR :: u32 where "BPF_FILTER_FLAGS_TCP_CHKSUM_ERROR = 0x04"
definition BPF_FILTER_FLAGS_UDP_CHKSUM_ERROR :: u32 where "BPF_FILTER_FLAGS_UDP_CHKSUM_ERROR = 0x08"
definition BPF_FILTER_FLAGS_ICMP_CHKSUM_ERROR :: u32 where "BPF_FILTER_FLAGS_ICMP_CHKSUM_ERROR = 0x10"
definition BPF_FILTER_FLAGS_PRBS_ERROR :: u32 where "BPF_FILTER_FLAGS_PRBS_ERROR = 0x20"
definition BPF_FILTER_FLAGS_SIGNATURE :: u32 where "BPF_FILTER_FLAGS_SIGNATURE = 0x40"
definition BPF_FILTER_FLAGS_SIGNATURE_STREAM_ID :: u32 where "BPF_FILTER_FLAGS_SIGNATURE_STREAM_ID = 0x100"
definition BPF_FILTER_FLAGS_AND :: u32 where "BPF_FILTER_FLAGS_AND = 0x200"
definition BPF_FILTER_FLAGS_OR :: u32 where "BPF_FILTER_FLAGS_OR = 0x400"
definition BPF_FILTER_FLAGS_NOT :: u32 where "BPF_FILTER_FLAGS_NOT = 0x800"
definition BPF_FILTER_FLAGS_BPF :: u32 where "BPF_FILTER_FLAGS_BPF = 0x80000000"

lemmas filter_flags = BPF_FILTER_FLAGS_FCS_ERROR_def BPF_FILTER_FLAGS_IP_CHKSUM_ERROR_def
  BPF_FILTER_FLAGS_TCP_CHKSUM_ERROR_def BPF_FILTER_FLAGS_UDP_CHKSUM_ERROR_def BPF_FILTER_FLAGS_ICMP_CHKSUM_ERROR_def
  BPF_FILTER_FLAGS_PRBS_ERROR_def BPF_FILTER_FLAGS_SIGNATURE_def BPF_FILTER_FLAGS_SIGNATURE_STREAM_ID_def
  BPF_FILTER_FLAGS_AND_def BPF_FILTER_FLAGS_OR_def BPF_FILTER_FLAGS_NOT_def BPF_FILTER_FLAGS_BPF_def

definition valid_filter_flags :: "u32 \<Rightarrow> u32" where
  "valid_filter_flags f =
     (if has_flag f ETH_FCS then BPF_FILTER_FLAGS_FCS_ERROR else 0) OR
     (if has_flag f IP_CHKSUM then BPF_FILTER_FLAGS_IP_CHKSUM_ERROR else 0) OR
     (if has_flag f TCP_CHKSUM then BPF_FILTER_FLAGS_TCP_CHKSUM_ERROR else 0) OR
     (if has_flag f UDP_CHKSUM then BPF_FILTER_FLAGS_UDP_CHKSUM_ERROR else 0) OR
     (if has_flag f ICMP_CHKSUM then BPF_FILTER_FLAGS_ICMP_CHKSUM_ERROR else 0) OR
     (if has_flag f SIGNATURE_PRBS then BPF_FILTER_FLAGS_SIGNATURE OR BPF_FILTER_FLAGS_PRBS_ERROR else 0)"

text \<open>The visitor, with \<open>m_flags\<close> passed along.\<close>

fun visit_flags :: "expr \<Rightarrow> u32 \<Rightarrow> u32 result" where
  "visit_flags Null m_flags = Inl Null_deref"
| "visit_flags (Generic_match _) m_flags = Inr (m_flags OR BPF_FILTER_FLAGS_BPF)"
| "visit_flags (Valid_match f) m_flags = Inr (m_flags OR valid_filter_flags f)"
| "visit_flags (Signature_match stream_id) m_flags =
     Inr (m_flags OR BPF_FILTER_FLAGS_SIGNATURE OR
       (if stream_id \<noteq> None then BPF_FILTER_FLAGS_SIGNATURE_STREAM_ID else 0))"
| "visit_flags (Unary_logical e Op_not) m_flags =
     visit_flags e (m_flags OR (if has_flag m_flags BPF_FILTER_FLAGS_NOT then BPF_FILTER_FLAGS_BPF else 0)
       OR BPF_FILTER_FLAGS_NOT)"
| "visit_flags (Binary_logical l r op) m_flags =
     (let m_flags = m_flags OR (if op = Op_and then BPF_FILTER_FLAGS_AND else BPF_FILTER_FLAGS_OR);
          both = BPF_FILTER_FLAGS_AND OR BPF_FILTER_FLAGS_OR;
          m_flags = (if m_flags AND both = both then m_flags OR BPF_FILTER_FLAGS_BPF else m_flags) in
        bind_result (visit_flags l m_flags) (visit_flags r))"

definition bpf_get_filter_flags :: "expr \<Rightarrow> u32 result" where
  "bpf_get_filter_flags e = visit_flags e 0"

definition packet_type_decode :: u32 where "packet_type_decode = 0x01"
definition spirent_signature_decode :: u32 where "spirent_signature_decode = 0x08"
definition spirent_prbs_error_detect :: u32 where "spirent_prbs_error_detect = 0x10"

definition bpf_sink_feature_flags :: "u32 \<Rightarrow> u32" where
  "bpf_sink_feature_flags filter_flags =
     (if has_flag filter_flags BPF_FILTER_FLAGS_SIGNATURE
      then spirent_signature_decode OR
        (if has_flag filter_flags BPF_FILTER_FLAGS_PRBS_ERROR then spirent_prbs_error_detect else 0)
      else 0) OR
     (if has_flag filter_flags (BPF_FILTER_FLAGS_IP_CHKSUM_ERROR OR BPF_FILTER_FLAGS_TCP_CHKSUM_ERROR OR
           BPF_FILTER_FLAGS_UDP_CHKSUM_ERROR OR BPF_FILTER_FLAGS_ICMP_CHKSUM_ERROR)
      then packet_type_decode else 0)"

subsection \<open>Packets and the scratch memory\<close>

text \<open>What the filter reads of a packet buffer, the accessors of \<^verbatim>\<open>packetio/packet_buffer.hpp\<close>.\<close>

record packet_buffer =
  packet_data :: "u8 list"
  signature_stream_id :: "u32 option"
  prbs_bit_errors :: "u32 option"
  ipv4_checksum_error :: bool
  tcp_checksum_error :: bool
  udp_checksum_error :: bool

type_synonym store = "u32 option list"

definition bpf_ctx_preinited :: u32 where
  "bpf_ctx_preinited = MEMWORD_INIT BPF_MEM_PKTFLAGS OR MEMWORD_INIT BPF_MEM_STREAM_ID"

definition packet_flags :: "packet_buffer \<Rightarrow> u32" where
  "packet_flags packet =
     (if signature_stream_id packet \<noteq> None
      then BPF_PKTFLAG_SIGNATURE OR (if prbs_bit_errors packet \<noteq> None then BPF_PKTFLAG_PRBS_ERROR else 0) else 0) OR
     (if ipv4_checksum_error packet then BPF_PKTFLAG_IP_CHKSUM_ERROR else 0) OR
     (if tcp_checksum_error packet then BPF_PKTFLAG_TCP_CHKSUM_ERROR else 0) OR
     (if udp_checksum_error packet then BPF_PKTFLAG_UDP_CHKSUM_ERROR else 0)"

definition bpf_arg_init :: "packet_buffer \<Rightarrow> store \<Rightarrow> bpf_args \<times> store" where
  "bpf_arg_init packet store =
     (let n = length (packet_data packet);
          store = store[unat BPF_MEM_PKTFLAGS := Some (packet_flags packet)];
          store = (case signature_stream_id packet of None \<Rightarrow> store | Some i \<Rightarrow> store[unat BPF_MEM_STREAM_ID := Some i]) in
        (\<lparr>pkt = packet_data packet, wirelen = n, buflen = n\<rparr>, store))"

text \<open>
  The array \<open>mem\<close> of a burst function: on its stack and uninitialised. The programs run on it one
  packet after the other.
\<close>

definition burst_mem :: store where
  "burst_mem = replicate BPF_MEMWORDS None"

definition burst_ctx :: bpf_ctx where
  "burst_ctx = \<lparr>extwords = BPF_MEMWORDS, preinited = bpf_ctx_preinited\<rparr>"


subsection \<open>Burst loops\<close>

text \<open>
  A predicate of a burst function takes the scratch memory and a packet, and returns the value of the
  program and the memory it leaves. The three loops are \<open>std::copy_if\<close>, \<open>std::transform\<close> and
  \<open>std::find_if\<close>. A fault of the program ends the loop.
\<close>

datatype burst_error = Vm_fault fault | Bad_range

type_synonym predicate = "store \<Rightarrow> packet_buffer \<Rightarrow> outcome \<times> store"

fun transform :: "predicate \<Rightarrow> store \<Rightarrow> packet_buffer list \<Rightarrow> burst_error + u32 list" where
  "transform f store [] = Inr []"
| "transform f store (p # ps) =
     (case f store p of
        (Fault e, store) \<Rightarrow> Inl (Vm_fault e)
      | (Ret v, store) \<Rightarrow> (case transform f store ps of Inl e \<Rightarrow> Inl e | Inr vs \<Rightarrow> Inr (v # vs)))"

fun copy_if :: "predicate \<Rightarrow> store \<Rightarrow> packet_buffer list \<Rightarrow> burst_error + packet_buffer list" where
  "copy_if f store [] = Inr []"
| "copy_if f store (p # ps) =
     (case f store p of
        (Fault e, store) \<Rightarrow> Inl (Vm_fault e)
      | (Ret v, store) \<Rightarrow>
          (case copy_if f store ps of Inl e \<Rightarrow> Inl e | Inr qs \<Rightarrow> Inr (if v \<noteq> 0 then p # qs else qs)))"

fun find_if :: "predicate \<Rightarrow> store \<Rightarrow> packet_buffer list \<Rightarrow> burst_error + nat" where
  "find_if f store [] = Inr 0"
| "find_if f store (p # ps) =
     (case f store p of
        (Fault e, store) \<Rightarrow> Inl (Vm_fault e)
      | (Ret v, store) \<Rightarrow>
          if v \<noteq> 0 then Inr 0 else (case find_if f store ps of Inl e \<Rightarrow> Inl e | Inr n \<Rightarrow> Inr (Suc n)))"

definition find_from :: "predicate \<Rightarrow> packet_buffer list \<Rightarrow> nat \<Rightarrow> burst_error + nat" where
  "find_from f packets offset =
     (if length packets < offset then Inl Bad_range
      else case find_if f burst_mem (drop offset packets) of Inl e \<Rightarrow> Inl e | Inr n \<Rightarrow> Inr (offset + n))"

type_synonym filter_func = "bpf_args \<Rightarrow> store \<Rightarrow> outcome \<times> store"

definition bpf_vm_predicate :: "bpf_insn list \<Rightarrow> predicate" where
  "bpf_vm_predicate insns store packet =
     (case bpf_arg_init packet store of (args, store) \<Rightarrow> op_bpf_filter_ext (Some insns) args store)"

definition bpf_jit_predicate :: "filter_func \<Rightarrow> predicate" where
  "bpf_jit_predicate filter_func store packet =
     (case bpf_arg_init packet store of (args, store) \<Rightarrow> filter_func args store)"

definition bpf_sig_predicate :: predicate where
  "bpf_sig_predicate store packet = (Ret (if signature_stream_id packet \<noteq> None then 1 else 0), store)"

definition bpf_no_sig_predicate :: predicate where
  "bpf_no_sig_predicate store packet = (Ret (if signature_stream_id packet \<noteq> None then 0 else 1), store)"

definition bpf_no_sig_and_bpf_jit_predicate :: "filter_func \<Rightarrow> predicate" where
  "bpf_no_sig_and_bpf_jit_predicate filter_func store packet =
     (if signature_stream_id packet \<noteq> None then (Ret 0, store)
      else case bpf_arg_init packet store of (args, store) \<Rightarrow> filter_func args store)"

subsection \<open>The filter class\<close>

datatype bpf_funcs = All_funcs | Vm_funcs | Jit_funcs | Sig_funcs | No_sig_funcs | No_sig_and_bpf_jit_funcs

record bpf =
  m_flags :: u32
  m_insn :: "bpf_insn list"
  m_jit :: "filter_func option"
  m_funcs :: bpf_funcs

definition bpf_init :: bpf where
  "bpf_init = \<lparr>m_flags = 0, m_insn = [], m_jit = None, m_funcs = All_funcs\<rparr>"

text \<open>
  The predicate of the function group in use; \<open>None\<close> for \<open>bpf_all_funcs\<close>, which has none. The groups
  that call the JIT code are only installed when there is some: a null pointer is a fault.
\<close>

definition jit_func :: "bpf \<Rightarrow> filter_func" where
  "jit_func b = (case m_jit b of Some f \<Rightarrow> f | None \<Rightarrow> (\<lambda>args store. (Fault Abort, store)))"

definition predicate_of :: "bpf \<Rightarrow> predicate option" where
  "predicate_of b =
     (case m_funcs b of
        All_funcs \<Rightarrow> None
      | Vm_funcs \<Rightarrow> Some (bpf_vm_predicate (m_insn b))
      | Jit_funcs \<Rightarrow> Some (bpf_jit_predicate (jit_func b))
      | Sig_funcs \<Rightarrow> Some bpf_sig_predicate
      | No_sig_funcs \<Rightarrow> Some bpf_no_sig_predicate
      | No_sig_and_bpf_jit_funcs \<Rightarrow> Some (bpf_no_sig_and_bpf_jit_predicate (jit_func b)))"

definition filter_burst :: "bpf \<Rightarrow> packet_buffer list \<Rightarrow> burst_error + packet_buffer list" where
  "filter_burst b packets =
     (case predicate_of b of None \<Rightarrow> Inr packets | Some f \<Rightarrow> copy_if f burst_mem packets)"

definition exec_burst :: "bpf \<Rightarrow> packet_buffer list \<Rightarrow> burst_error + u32 list" where
  "exec_burst b packets =
     (case predicate_of b of None \<Rightarrow> Inr (replicate (length packets) 1) | Some f \<Rightarrow> transform f burst_mem packets)"

definition find_next :: "bpf \<Rightarrow> packet_buffer list \<Rightarrow> nat \<Rightarrow> burst_error + nat" where
  "find_next b packets offset =
     (case predicate_of b of None \<Rightarrow> Inr offset | Some f \<Rightarrow> find_from f packets offset)"

type_synonym jit = "bpf_ctx \<Rightarrow> bpf_insn list \<Rightarrow> filter_func option"

definition set_prog :: "jit \<Rightarrow> bpf_insn list \<Rightarrow> u32 \<Rightarrow> bpf \<Rightarrow> bool \<times> bpf" where
  "set_prog bpf_jit insns flags b =
     (if \<not> op_bpf_validate_ext (Some burst_ctx) insns then (False, b)
      else
        let j = bpf_jit burst_ctx insns in
          (True, b\<lparr>m_insn := insns, m_jit := j, m_funcs := (if j = None then Vm_funcs else Jit_funcs), m_flags := flags\<rparr>))"

text \<open>
  \<open>parse\<close>: the result is what the function returns and the filter it leaves. The exceptions of the
  parser and of the splitter are caught; \<open>Inl\<close> is a null dereference.
\<close>

definition parse_all_special :: "jit \<Rightarrow> u32 \<Rightarrow> expr \<Rightarrow> bpf \<Rightarrow> (bool \<times> bpf) result" where
  "parse_all_special bpf_jit flags e b =
     bind_result (bpf_build_prog_all_special e []) (\<lambda>p.
       case p of None \<Rightarrow> Inr (False, b) | Some bf_insns \<Rightarrow> Inr (set_prog bpf_jit bf_insns flags b))"

definition parse_mixed_prog ::
  "jit \<Rightarrow> (string \<Rightarrow> bpf_insn list option) \<Rightarrow> u32 \<Rightarrow> expr \<Rightarrow> expr \<Rightarrow> binary_logical_op \<Rightarrow> bpf \<Rightarrow> (bool \<times> bpf) result" where
  "parse_mixed_prog bpf_jit bpf_compile flags l r op b =
     bind_result (bpf_build_prog_mixed bpf_compile l r op []) (\<lambda>p.
       case p of None \<Rightarrow> Inr (False, b) | Some bf_insns \<Rightarrow> Inr (set_prog bpf_jit bf_insns flags b))"

definition parse_mixed ::
  "jit \<Rightarrow> (string \<Rightarrow> bpf_insn list option) \<Rightarrow> u32 \<Rightarrow> expr \<Rightarrow> expr \<Rightarrow> binary_logical_op \<Rightarrow> bpf \<Rightarrow> (bool \<times> bpf) result" where
  "parse_mixed bpf_jit bpf_compile flags l r op b =
     bind_result (bpf_get_filter_flags l) (\<lambda>lhs_flags.
       if lhs_flags = BPF_FILTER_FLAGS_SIGNATURE OR BPF_FILTER_FLAGS_NOT \<and> op = Op_and then
         bind_result (to_string r) (\<lambda>rhs_filter_str.
           case bpf_compile rhs_filter_str of
             None \<Rightarrow> Inr (False, b)
           | Some prog \<Rightarrow>
               let (ok, b) = set_prog bpf_jit prog flags b in
                 if ok \<and> m_jit b \<noteq> None then Inr (True, b\<lparr>m_funcs := No_sig_and_bpf_jit_funcs\<rparr>)
                 else parse_mixed_prog bpf_jit bpf_compile flags l r op b)
       else parse_mixed_prog bpf_jit bpf_compile flags l r op b)"

definition parse_special ::
  "jit \<Rightarrow> (string \<Rightarrow> bpf_insn list option) \<Rightarrow> expr \<Rightarrow> bpf \<Rightarrow> (bool \<times> bpf) result" where
  "parse_special bpf_jit bpf_compile e b =
     bind_result (bpf_get_filter_flags e) (\<lambda>flags.
       if \<not> has_flag flags BPF_FILTER_FLAGS_BPF \<and> flags = BPF_FILTER_FLAGS_SIGNATURE
       then Inr (True, b\<lparr>m_funcs := Sig_funcs, m_flags := flags\<rparr>)
       else if \<not> has_flag flags BPF_FILTER_FLAGS_BPF \<and> flags = BPF_FILTER_FLAGS_SIGNATURE OR BPF_FILTER_FLAGS_NOT
       then Inr (True, b\<lparr>m_funcs := No_sig_funcs, m_flags := flags\<rparr>)
       else case e of
              Binary_logical l r op \<Rightarrow>
                bind_result (has_special r) (\<lambda>special.
                  if \<not> special then parse_mixed bpf_jit bpf_compile flags l r op b
                  else parse_all_special bpf_jit flags e b)
            | _ \<Rightarrow> parse_all_special bpf_jit flags e b)"

definition parse_compiled ::
  "jit \<Rightarrow> (string \<Rightarrow> bpf_insn list option) \<Rightarrow> string \<Rightarrow> bpf \<Rightarrow> bool \<times> bpf" where
  "parse_compiled bpf_jit bpf_compile filter_str b =
     (case bpf_compile filter_str of None \<Rightarrow> (False, b) | Some prog \<Rightarrow> set_prog bpf_jit prog 0 b)"

definition parse :: "jit \<Rightarrow> (string \<Rightarrow> bpf_insn list option) \<Rightarrow> string \<Rightarrow> bpf \<Rightarrow> (bool \<times> bpf) fuelled" where
  "parse bpf_jit bpf_compile filter_str b =
     (case bpf_parse_string filter_str of
        None \<Rightarrow> None
      | Some (Inl (Throw _)) \<Rightarrow> Some (Inr (False, b))
      | Some (Inl Null_deref) \<Rightarrow> Some (Inl Null_deref)
      | Some (Inr e) \<Rightarrow>
          if e = Null then Some (Inr (parse_compiled bpf_jit bpf_compile filter_str b))
          else Some (bind_result (has_special e) (\<lambda>special.
            if \<not> special then Inr (parse_compiled bpf_jit bpf_compile filter_str b)
            else case bpf_split_special e of
                   Inl (Throw _) \<Rightarrow> Inr (False, b)
                 | Inl Null_deref \<Rightarrow> Inl Null_deref
                 | Inr e \<Rightarrow> parse_special bpf_jit bpf_compile e b)))"

definition bpf_validate_filter :: "jit \<Rightarrow> (string \<Rightarrow> bpf_insn list option) \<Rightarrow> string \<Rightarrow> bool fuelled" where
  "bpf_validate_filter bpf_jit bpf_compile filter_str =
     bind_fuelled (parse bpf_jit bpf_compile filter_str bpf_init) (\<lambda>(ok, b). Some (Inr ok))"

definition bpf_from_string :: "jit \<Rightarrow> (string \<Rightarrow> bpf_insn list option) \<Rightarrow> string \<Rightarrow> bpf fuelled" where
  "bpf_from_string bpf_jit bpf_compile filter_str =
     bind_fuelled (parse bpf_jit bpf_compile filter_str bpf_init) (\<lambda>(ok, b).
       if ok then Some (Inr b) else throw (''BPF filter_str '' @ filter_str @ '' is not valid''))"

definition bpf_from_insns :: "jit \<Rightarrow> bpf_insn list \<Rightarrow> u32 \<Rightarrow> bpf result" where
  "bpf_from_insns bpf_jit insns flags =
     (case set_prog bpf_jit insns flags bpf_init of (ok, b) \<Rightarrow>
        if ok then Inr b else Inl (Throw ''BPF insns not valid''))"


subsection \<open>The three burst functions agree\<close>

lemma copy_if_transform:
  "transform f store ps = Inr vs \<Longrightarrow> copy_if f store ps = Inr (map fst (filter (\<lambda>(p, v). v \<noteq> 0) (zip ps vs)))"
  by (induction f store ps arbitrary: vs rule: transform.induct) (auto split: prod.splits outcome.splits sum.splits)

lemma find_if_transform:
  "transform f store ps = Inr vs \<Longrightarrow> find_if f store ps = Inr (length (takeWhile (\<lambda>v. v = 0) vs))"
  by (induction f store ps arbitrary: vs rule: transform.induct) (auto split: prod.splits outcome.splits sum.splits)


definition plain_packet :: "u32 option \<Rightarrow> packet_buffer" where
  "plain_packet i = \<lparr>packet_data = [], signature_stream_id = i, prbs_bit_errors = None, ipv4_checksum_error = False,
     tcp_checksum_error = False, udp_checksum_error = False\<rparr>"


subsection \<open>Built programs pass the validator\<close>

text \<open>
  An instruction the builder emits is \<open>simple\<close>; a program is \<open>inside m\<close> when all its instructions are
  and its jumps land at \<open>m\<close> at most.
\<close>

definition jump_codes :: "u16 list" where
  "jump_codes = [BPF_JMP OR BPF_JSET OR BPF_K, BPF_JMP OR BPF_JEQ OR BPF_K, BPF_JMP OR BPF_JGE OR BPF_K, BPF_JMP OR BPF_JGT OR BPF_K]"

definition simple :: "bpf_insn \<Rightarrow> bool" where
  "simple p \<longleftrightarrow> insn_code p = BPF_LD OR BPF_MEM \<and> insn_k p \<in> {BPF_MEM_PKTFLAGS, BPF_MEM_STREAM_ID}
     \<or> insn_code p \<in> set jump_codes \<or> insn_code p = BPF_RET OR BPF_K"

definition lands :: "nat \<Rightarrow> nat \<Rightarrow> bpf_insn \<Rightarrow> bool" where
  "lands m i p \<longleftrightarrow> (insn_code p \<in> set jump_codes \<longrightarrow> i + 1 + unat (insn_jt p) \<le> m \<and> i + 1 + unat (insn_jf p) \<le> m)"

definition inside :: "nat \<Rightarrow> bpf_insn list \<Rightarrow> bool" where
  "inside m P \<longleftrightarrow> (\<forall>i < length P. simple (P ! i) \<and> lands m i (P ! i))"

lemma inside_mono: "inside m P \<Longrightarrow> m \<le> n \<Longrightarrow> inside n P"
  by (fastforce simp: inside_def lands_def)

lemma inside_append:
  assumes "inside (length P) P" "length P \<le> m" "\<And>i. i < length Q \<Longrightarrow> simple (Q ! i) \<and> lands m (length P + i) (Q ! i)"
  shows "inside m (P @ Q)"
  unfolding inside_def
proof (intro allI impI)
  fix i assume i: "i < length (P @ Q)"
  show "simple ((P @ Q) ! i) \<and> lands m i ((P @ Q) ! i)"
  proof (cases "i < length P")
    case True
    then show ?thesis using inside_mono [OF assms(1,2)] by (simp add: inside_def nth_append)
  next
    case False
    then show ?thesis using assms(3) [of "i - length P"] i by (simp add: nth_append)
  qed
qed

lemma inside_update:
  assumes "inside m P" "simple p" "lands m i p"
  shows "inside m (P[i := p])"
proof (cases "i < length P")
  case True
  then show ?thesis using assms by (auto simp: inside_def nth_list_update)
qed (use assms(1) in \<open>simp add: not_less list_update_beyond\<close>)

lemma inside_resolve_one:
  assumes "inside m (fst s)" "i < length (fst s)" "i < u" "u \<le> i + 256" "u \<le> m"
  shows "inside m (fst (bpf_resolve_one b u i s))"
proof -
  obtain P jm where s: "s = (P, jm)" by (cases s)
  have u: "i + 1 + unat (jmp_distance u i) \<le> m" using jmp_distance_exact [of i u] assms s by simp
  have p: "simple (P ! i)" "lands m i (P ! i)" using assms s by (auto simp: inside_def)
  then show ?thesis
    using assms(1) u unfolding s bpf_resolve_one_def
    by (auto simp: Let_def simple_def lands_def split: option.split intro!: inside_update)
qed

lemma inside_resolve_jmp:
  assumes "inside m (fst s)" "a + n \<le> length (fst s)" "a + n \<le> u" "u \<le> a + 256" "u \<le> m"
  shows "inside m (fst (bpf_resolve_jmp a n b u s))"
proof -
  have "inside m (fst (fold (bpf_resolve_one b u) xs s)) \<and> length (fst (fold (bpf_resolve_one b u) xs s)) = length (fst s)"
    if "set xs \<subseteq> {a..<a + n}" for xs
    using that assms(1)
  proof (induction xs rule: rev_induct)
    case (snoc x xs)
    then show ?case
      using assms(2-) inside_resolve_one [of m "fold (bpf_resolve_one b u) xs s" x u b]
      by (auto simp: bpf_resolve_one_other)
  qed simp
  then show ?thesis unfolding bpf_resolve_jmp_def by simp
qed

lemma plain_lands: "insn_jt p = 0 \<Longrightarrow> insn_jf p = 0 \<Longrightarrow> i < m \<Longrightarrow> lands m i p"
  by (simp add: lands_def)

lemma inside_append_plain:
  assumes "inside (length P) P" "\<forall>p \<in> set Q. simple p \<and> insn_jt p = 0 \<and> insn_jf p = 0"
  shows "inside (length (P @ Q)) (P @ Q)"
  using assms(2) by (intro inside_append [OF assms(1)]) (auto intro!: plain_lands simp: nth_mem)

lemma visit_inside:
  "visit e s = Inr s' \<Longrightarrow> inside (length (fst s)) (fst s) \<Longrightarrow> block_size e \<le> 256 \<Longrightarrow> inside (length (fst s')) (fst s')"
proof (induction e arbitrary: s s')
  case (Valid_match f)
  have "\<exists>Q. fst s' = fst s @ Q \<and> (\<forall>p \<in> set Q. simple p \<and> insn_jt p = 0 \<and> insn_jf p = 0)"
    using Valid_match.prems(1) by (cases s) (auto simp: visit_valid_def simple_def jump_codes_def insn_def)
  then show ?case using inside_append_plain [OF Valid_match.prems(2)] by auto
next
  case (Signature_match r)
  have "\<exists>Q. fst s' = fst s @ Q \<and> (\<forall>p \<in> set Q. simple p \<and> insn_jt p = 0 \<and> insn_jf p = 0)"
    using Signature_match.prems(1)
    by (cases s; cases r) (auto simp: visit_signature_def Let_def simple_def jump_codes_def insn_def)
  then show ?case using inside_append_plain [OF Signature_match.prems(2)] by auto
next
  case (Unary_logical e u)
  then obtain s1 where "visit e s = Inr s1" "fst s' = fst s1" by (auto simp: Let_def bind_result_Inr)
  then show ?case using Unary_logical by auto
next
  case (Binary_logical l r op)
  from Binary_logical.prems(1) obtain s1 s2 where v: "visit l s = Inr s1" "visit r s1 = Inr s2"
    and s': "s' = bpf_resolve_jmp (length (fst s)) (length (fst s1) - length (fst s))
                   (binary_logical_op_resolves_jmp op) (length (fst s1)) s2"
    by (auto simp: Let_def bind_result_Inr)
  have "inside (length (fst s2)) (fst s2)" using Binary_logical v by auto
  then show ?case
    unfolding s' using visit_length [OF v(1)] visit_length [OF v(2)] Binary_logical.prems(3)
    by (simp add: inside_resolve_jmp)
qed simp_all


text \<open>The validator keeps the two words the filter initialises clear in all its masks.\<close>

definition clear :: "u32 \<Rightarrow> bool" where
  "clear iv \<longleftrightarrow> \<not> bit iv 0 \<and> \<not> bit iv 1"

lemma clear_or [simp]: "clear (a OR b) \<longleftrightarrow> clear a \<and> clear b"
  by (auto simp: clear_def bit_simps)

lemma clear_0 [simp]: "clear 0"
  by (simp add: clear_def)

lemma clear_update: "\<forall>x \<in> set ms. clear x \<Longrightarrow> clear v \<Longrightarrow> \<forall>x \<in> set (ms[a := ms ! a OR v]). clear x"
proof (cases "a < length ms")
  case True
  assume "\<forall>x \<in> set ms. clear x" "clear v"
  then show ?thesis using True by (auto dest!: set_update_subset_insert [THEN subsetD])
qed (simp add: not_less list_update_beyond)

lemma clear_check_mem: "clear iv \<Longrightarrow> k = BPF_MEM_PKTFLAGS \<or> k = BPF_MEM_STREAM_ID \<Longrightarrow> check_mem 16 iv k"
proof -
  assume iv: "clear iv" and k: "k = BPF_MEM_PKTFLAGS \<or> k = BPF_MEM_STREAM_ID"
  have "iv AND MEMWORD_INIT k = 0"
    using iv k by (intro bit_word_eqI) (auto simp: bit_simps bit_MEMWORD_INIT clear_def pkt_flags)
  then show ?thesis using k by (auto simp: check_mem_def pkt_flags)
qed

lemma jump_code_op: "c \<in> set jump_codes \<Longrightarrow> \<exists>f. map_of op_table c = Some (Jump f Src_K)"
  by (auto simp: jump_codes_def op_table_def bpf_codes)

lemma of_nat_target:
  fixes x :: u8
  assumes "i + 1 + unat x < len" "len < 2 ^ 31"
  shows "of_nat i + 1 + ucast x < (of_nat len :: u32)"
proof -
  have "of_nat i + 1 + ucast x = (of_nat (i + 1 + unat x) :: u32)" by simp
  then show ?thesis using assms by (simp add: word_less_nat_alt unat_of_nat_small del: of_nat_add of_nat_Suc)
qed

lemma validate_insn_simple:
  assumes "simple p" "lands m i p" "m < len" "len < 2 ^ 31" "i < len" "length ms = len" "clear iv" "\<forall>x \<in> set ms. clear x"
  shows "\<exists>iv' ms'. validate_insn len 16 i p (iv, ms) = Some (iv', ms') \<and> length ms' = len \<and> clear iv' \<and> (\<forall>x \<in> set ms'. clear x)"
proof -
  have iv: "clear (iv OR ms ! i)" using assms(5-) by simp
  consider "insn_code p = BPF_LD OR BPF_MEM" "insn_k p = BPF_MEM_PKTFLAGS \<or> insn_k p = BPF_MEM_STREAM_ID"
    | "insn_code p \<in> set jump_codes" | "insn_code p = BPF_RET OR BPF_K"
    using assms(1) by (auto simp: simple_def)
  then show ?thesis
  proof cases
    case 1
    then have "map_of op_table (insn_code p) = Some Ld_Mem" by (simp add: build_ops)
    then show ?thesis
      using validate_insn_op [of p Ld_Mem len 16 i iv ms] clear_check_mem [OF iv 1(2)] iv assms by (simp add: validate_op_def)
  next
    case 2
    then obtain f where f: "map_of op_table (insn_code p) = Some (Jump f Src_K)" using jump_code_op by blast
    have t: "of_nat i + 1 + ucast (insn_jt p) < (of_nat len :: u32)" "of_nat i + 1 + ucast (insn_jf p) < (of_nat len :: u32)"
      using assms(2,3,4) 2 by (auto simp: lands_def intro!: of_nat_target)
    show ?thesis
      using validate_insn_op [OF f, of len 16 i iv ms] t clear_update [OF clear_update [OF assms(8) iv] iv] assms(6)
      by (simp add: validate_op_def Let_def not_le [symmetric])
  next
    case 3
    then show ?thesis
      using validate_insn_op [of p Ret_K len 16 i iv ms] op_ret iv assms by (simp add: validate_op_def)
  qed
qed


lemma validate_loop_simple:
  assumes "inside m P" "m < length P" "length P < 2 ^ 31" "clear (NOT pre)"
  shows "j \<le> length P \<Longrightarrow> \<exists>iv ms. validate_loop 16 P pre j = Some (iv, ms) \<and> length ms = length P \<and> clear iv \<and> (\<forall>x \<in> set ms. clear x)"
proof (induction j)
  case 0
  then show ?case using assms(4) by auto
next
  case (Suc j)
  then obtain iv ms where l: "validate_loop 16 P pre j = Some (iv, ms)" "length ms = length P" "clear iv" "\<forall>x \<in> set ms. clear x"
    by auto
  have "simple (P ! j)" "lands m j (P ! j)" using assms(1) Suc.prems by (auto simp: inside_def)
  from validate_insn_simple [OF this assms(2,3) _ l(2-4)] Suc.prems l(1) show ?case by auto
qed

lemma burst_ctx_simps: "extwords burst_ctx = 16" "preinited burst_ctx = 3"
  by (simp_all add: burst_ctx_def BPF_MEMWORDS_def bpf_ctx_preinited_def MEMWORD_INIT_def pkt_flags)

lemma validate_simple:
  assumes "inside m P" "m < length P" "length P < 2 ^ 31" "insn_code (P ! (length P - 1)) = BPF_RET OR BPF_K"
  shows "op_bpf_validate_ext (Some burst_ctx) P"
proof -
  have "clear (NOT 3)" by (simp add: clear_def bit_simps bit_numeral_rec)
  from validate_loop_simple [OF assms(1-3) this order_refl] assms(2,4)
  show ?thesis by (auto simp: op_bpf_validate_ext_def burst_ctx_simps Let_def)
qed


lemma all_special_program_valid:
  assumes "all_special e" "null_free e" "block_size e \<le> 255"
  obtains P where "bpf_build_prog_all_special e [] = Inr (Some P)" "computes P e" "op_bpf_validate_ext (Some burst_ctx) P"
proof -
  obtain P where P: "bpf_build_prog_all_special e [] = Inr (Some P)" "length P = block_size e + 2" "computes P e"
    using all_special_program [OF assms(1,2)] assms(3) by blast
  obtain ins jm where v: "visit e ([], Map.empty) = Inr (ins, jm)"
    using visit_total [OF assms(1,2)] by (cases "visit e ([], Map.empty)") auto
  let ?n = "length ins" and ?ret = "insn (BPF_RET OR BPF_K) 0 0"
  let ?s = "bpf_resolve_jmp 0 ?n PASS ?n (ins @ [?ret 0x40000, ?ret 0], jm)"
  have n: "?n = block_size e" using visit_length [OF v] by simp
  have P_eq: "P = fst (bpf_resolve_jmp 0 ?n FAIL (?n + 1) ?s)"
    using P(1) v by (simp add: bpf_build_prog_all_special_def bpf_build_prog_special_def Let_def)
  have "inside ?n ins" using visit_inside [OF v] assms(3) by (simp add: inside_def)
  then have "inside (?n + 1) (ins @ [?ret 0x40000, ?ret 0])"
    by (rule inside_append) (auto simp: less_Suc_eq simple_def lands_def insn_def jump_codes_def bpf_codes)
  then have "inside (?n + 1) P"
    unfolding P_eq using n assms(3) by (intro inside_resolve_jmp) auto
  moreover have "insn_code (P ! (length P - 1)) = BPF_RET OR BPF_K"
    using bpf_resolve_jmp_nth(2) [of 0 ?n ?s "?n + 1" FAIL "?n + 1"] n P(2)
      bpf_resolve_jmp_nth(2) [of 0 ?n "(ins @ [?ret 0x40000, ?ret 0], jm)" "?n + 1" PASS ?n]
    by (simp add: P_eq nth_append insn_def)
  ultimately have "op_bpf_validate_ext (Some burst_ctx) P"
    using P(2) n assms(3) by (intro validate_simple [of "?n + 1"]) auto
  then show ?thesis using P that by blast
qed

subsection \<open>The JIT compiler\<close>

text \<open>
  The contract of \<open>bpf_jit\<close>: the code it generates for a program that the validator accepts returns
  what the interpreter returns. The interpreter itself satisfies it, and so does a platform for which
  no code is generated.
\<close>

locale jit_compiler =
  fixes bpf_jit :: jit
  assumes jit_agrees: "op_bpf_validate_ext (Some c) P \<Longrightarrow> bpf_jit c P = Some f \<Longrightarrow>
    op_bpf_filter_ext (Some P) args store = (Ret v, store') \<Longrightarrow> f args store = (Ret v, store')"
begin

lemma set_prog_runs:
  assumes "op_bpf_validate_ext (Some burst_ctx) P"
  obtains b' where "set_prog bpf_jit P flags b = (True, b')" "m_flags b' = flags"
    "\<And>packet store args s v s'. bpf_arg_init packet store = (args, s) \<Longrightarrow> op_bpf_filter_ext (Some P) args s = (Ret v, s') \<Longrightarrow>
       the (predicate_of b') store packet = (Ret v, s')" "predicate_of b' \<noteq> None"
proof (cases "bpf_jit burst_ctx P")
  case None
  then show ?thesis
    using that assms by (auto simp: set_prog_def Let_def predicate_of_def bpf_vm_predicate_def)
next
  case (Some f)
  then show ?thesis
    using that assms jit_agrees [OF assms Some]
    by (auto simp: set_prog_def Let_def predicate_of_def bpf_jit_predicate_def jit_func_def)
qed

end

interpretation interpreted: jit_compiler "\<lambda>c P. Some (op_bpf_filter_ext (Some P))"
  by unfold_locales auto

interpretation no_jit: jit_compiler "\<lambda>c P. None"
  by unfold_locales auto

subsection \<open>From the filter string to the packets it keeps\<close>

definition packet_matches :: "expr \<Rightarrow> packet_buffer \<Rightarrow> bool" where
  "packet_matches e p \<longleftrightarrow>
     eval (leaf_matches (\<lambda>_. False) (packet_flags p) (case signature_stream_id p of None \<Rightarrow> 0 | Some i \<Rightarrow> i)) e"

definition decides :: "predicate \<Rightarrow> (packet_buffer \<Rightarrow> bool) \<Rightarrow> bool" where
  "decides f q \<longleftrightarrow> (\<forall>store p. length store = 16 \<longrightarrow>
     (\<exists>v store'. f store p = (Ret v, store') \<and> (v \<noteq> 0) = q p \<and> length store' = 16))"

lemma decides_copy_if: "decides f q \<Longrightarrow> length store = 16 \<Longrightarrow> copy_if f store ps = Inr (filter q ps)"
proof (induction ps arbitrary: store)
  case (Cons p ps)
  then obtain v store' where "f store p = (Ret v, store')" "(v \<noteq> 0) = q p" "length store' = 16"
    unfolding decides_def by blast
  then show ?case using Cons by auto
qed simp

lemma decides_filter_burst:
  assumes "predicate_of b = Some f" "decides f q"
  shows "filter_burst b packets = Inr (filter q packets)"
  using assms decides_copy_if [of f q burst_mem] by (simp add: filter_burst_def burst_mem_def BPF_MEMWORDS_def)

lemma signature_flag: "has_flag (packet_flags p) BPF_PKTFLAG_SIGNATURE \<longleftrightarrow> signature_stream_id p \<noteq> None"
  by (auto simp: packet_flags_def has_flag_def pkt_flags)

lemma packet_matches_signature:
  "packet_matches (Signature_match None) p \<longleftrightarrow> signature_stream_id p \<noteq> None"
  by (simp add: packet_matches_def leaf_matches_def signature_flag)

lemma bpf_arg_init_sees:
  assumes "length store = 16" "bpf_arg_init p store = (args, s)"
  shows "sees_packet (packet_flags p) (case signature_stream_id p of None \<Rightarrow> 0 | Some i \<Rightarrow> i) \<lparr>acc = 0, idx = 0, mem = s\<rparr>"
    "length s = 16"
  using assms by (auto simp: bpf_arg_init_def sees_packet_def signature_flag BPF_MEM_PKTFLAGS_def BPF_MEM_STREAM_ID_def Let_def
      split: option.splits)


lemma visit_flags_mono: "visit_flags e f = Inr g \<Longrightarrow> bit f i \<Longrightarrow> bit g i"
proof (induction e f arbitrary: g rule: visit_flags.induct)
  case (6 l r op m_flags)
  then show ?case by (auto simp: Let_def bind_result_Inr bit_simps split: if_splits)
qed (auto simp: bit_simps)

lemma visit_flags_total: "null_free e \<Longrightarrow> \<exists>g. visit_flags e f = Inr g"
proof (induction e arbitrary: f)
  case (Unary_logical e op)
  then show ?case by (cases op) simp
next
  case (Binary_logical l r op)
  then have "\<exists>g. bind_result (visit_flags l m) (visit_flags r) = Inr g" for m
    by (metis bind_result_Inr null_free_simps(6))
  then show ?case by (simp add: Let_def)
qed simp_all

lemma visit_flags_binary: "visit_flags (Binary_logical l r op) f = Inr g \<Longrightarrow> bit g 9 \<or> bit g 10"
proof -
  assume g: "visit_flags (Binary_logical l r op) f = Inr g"
  have "bit (f OR (if op = Op_and then BPF_FILTER_FLAGS_AND else BPF_FILTER_FLAGS_OR)) (if op = Op_and then 9 else 10)"
    by (simp add: filter_flags bit_simps)
  then have "bit g (if op = Op_and then 9 else 10)"
    using g by (auto simp: Let_def bind_result_Inr bit_simps dest!: visit_flags_mono split: if_splits)
  then show ?thesis by (auto split: if_splits)
qed

lemma visit_flags_unary: "visit_flags (Unary_logical e op) f = Inr g \<Longrightarrow> bit g 11 \<and> (bit f 11 \<longrightarrow> bit g 31)"
proof (cases op)
  case Op_not
  assume g: "visit_flags (Unary_logical e op) f = Inr g"
  have "bit BPF_FILTER_FLAGS_NOT 11" "bit BPF_FILTER_FLAGS_BPF 31" by (simp_all add: filter_flags)
  moreover have "has_flag f BPF_FILTER_FLAGS_NOT \<longleftrightarrow> bit f 11"
    using has_flag_exp [of 11 f] by (simp add: filter_flags)
  ultimately show ?thesis
    using g Op_not visit_flags_mono [of e _ g] by (auto simp: bit_simps)
qed


lemma signature_bits:
  "bit BPF_FILTER_FLAGS_SIGNATURE 6" "\<not> bit BPF_FILTER_FLAGS_SIGNATURE 5" "\<not> bit BPF_FILTER_FLAGS_SIGNATURE 8"
  "\<not> bit BPF_FILTER_FLAGS_SIGNATURE 9" "\<not> bit BPF_FILTER_FLAGS_SIGNATURE 10" "\<not> bit BPF_FILTER_FLAGS_SIGNATURE 11"
  "\<not> bit BPF_FILTER_FLAGS_SIGNATURE 31" "bit BPF_FILTER_FLAGS_NOT 11" "\<not> bit BPF_FILTER_FLAGS_NOT 5" "\<not> bit BPF_FILTER_FLAGS_NOT 6"
  "\<not> bit BPF_FILTER_FLAGS_NOT 8" "\<not> bit BPF_FILTER_FLAGS_NOT 9" "\<not> bit BPF_FILTER_FLAGS_NOT 10" "\<not> bit BPF_FILTER_FLAGS_NOT 31"
  "bit BPF_FILTER_FLAGS_SIGNATURE_STREAM_ID 8"
  by (simp_all add: filter_flags)

lemma valid_filter_flags_bits:
  "bit (valid_filter_flags v) 5 \<longleftrightarrow> has_flag v SIGNATURE_PRBS" "bit (valid_filter_flags v) 6 \<longleftrightarrow> has_flag v SIGNATURE_PRBS"
  "\<not> bit (valid_filter_flags v) 11"
  by (auto simp: valid_filter_flags_def filter_flags bit_simps)

text \<open>The flags that select the groups without a program identify the expression.\<close>

lemma flags_signature:
  assumes "all_special e" "visit_flags e f = Inr g" "\<not> bit f 5" "\<not> bit f 6" "bit g 6"
    "\<not> bit g 5" "\<not> bit g 8" "\<not> bit g 9" "\<not> bit g 10"
  shows "e = Signature_match None \<or> (\<exists>d op. e = Unary_logical d op)"
proof (cases e)
  case (Binary_logical l r op)
  then show ?thesis using visit_flags_binary [of l r op f g] assms by simp
next
  case (Valid_match v)
  then show ?thesis using assms by (auto simp: bit_simps valid_filter_flags_bits)
next
  case (Signature_match i)
  then show ?thesis using assms by (cases i) (auto simp: bit_simps signature_bits)
qed (use assms in simp_all)

lemma flags_only_signature:
  assumes "all_special e" "bpf_get_filter_flags e = Inr BPF_FILTER_FLAGS_SIGNATURE"
  shows "e = Signature_match None"
  using flags_signature [of e 0 BPF_FILTER_FLAGS_SIGNATURE] visit_flags_unary [of _ _ 0 BPF_FILTER_FLAGS_SIGNATURE] assms
  by (auto simp: bpf_get_filter_flags_def signature_bits)

lemma flags_not_signature:
  assumes "all_special e" "bpf_get_filter_flags e = Inr (BPF_FILTER_FLAGS_SIGNATURE OR BPF_FILTER_FLAGS_NOT)"
  shows "e = Unary_logical (Signature_match None) Op_not"
proof -
  let ?g = "BPF_FILTER_FLAGS_SIGNATURE OR BPF_FILTER_FLAGS_NOT"
  have g: "bit ?g 6" "\<not> bit ?g 5" "\<not> bit ?g 8" "\<not> bit ?g 9" "\<not> bit ?g 10" "bit ?g 11" "\<not> bit ?g 31"
    by (simp_all add: bit_simps signature_bits)
  have v: "visit_flags e 0 = Inr ?g" using assms(2) by (simp add: bpf_get_filter_flags_def)
  have "e \<noteq> Signature_match None"
  proof
    assume "e = Signature_match None"
    then have "BPF_FILTER_FLAGS_SIGNATURE = ?g" using v by simp
    then show False using g(6) signature_bits(6) by argo
  qed
  then obtain d where e: "e = Unary_logical d Op_not"
    using flags_signature [OF assms(1) v _ _ g(1-5)] by (auto intro: unary_logical_op.exhaust)
  then have d: "all_special d" "visit_flags d BPF_FILTER_FLAGS_NOT = Inr ?g"
    using assms(1) v by (simp_all add: has_flag_def)
  have "d = Signature_match None \<or> (\<exists>d' op. d = Unary_logical d' op)"
    using flags_signature [OF d _ _ g(1-5)] by (simp add: signature_bits)
  then show ?thesis using e visit_flags_unary [of _ _ BPF_FILTER_FLAGS_NOT ?g] d(2) g(7) by (auto simp: signature_bits)
qed


lemma computes_decides:
  assumes "computes P e" "\<And>packet store args s v s'. bpf_arg_init packet store = (args, s) \<Longrightarrow>
    op_bpf_filter_ext (Some P) args s = (Ret v, s') \<Longrightarrow> f store packet = (Ret v, s')"
  shows "decides f (packet_matches e)"
  unfolding decides_def
proof (intro allI impI)
  fix store :: store and p :: packet_buffer
  assume len: "length store = 16"
  obtain args s where s: "bpf_arg_init p store = (args, s)" by (cases "bpf_arg_init p store")
  note sees = bpf_arg_init_sees [OF len s]
  have "op_bpf_filter_ext (Some P) args s = (Ret (if packet_matches e p then 0x40000 else 0), s)"
    using assms(1) sees(1) unfolding computes_def packet_matches_def by blast
  from assms(2) [OF s this] sees(2)
  show "\<exists>v store'. f store p = (Ret v, store') \<and> (v \<noteq> 0) = packet_matches e p \<and> length store' = 16" by simp
qed

lemma parse_special_all:
  assumes "jit_compiler bpf_jit" "all_special e" "null_free e" "block_size e \<le> 255"
  obtains b' f where "parse_special bpf_jit bpf_compile e b = Inr (True, b')" "predicate_of b' = Some f"
    "decides f (packet_matches e)" "bpf_get_filter_flags e = Inr (m_flags b')"
proof -
  obtain flags where flags: "bpf_get_filter_flags e = Inr flags"
    using visit_flags_total [OF assms(3)] unfolding bpf_get_filter_flags_def by blast
  let ?sig = "BPF_FILTER_FLAGS_SIGNATURE" and ?no_sig = "BPF_FILTER_FLAGS_SIGNATURE OR BPF_FILTER_FLAGS_NOT"
  have nb: "\<not> has_flag ?sig BPF_FILTER_FLAGS_BPF" "\<not> has_flag ?no_sig BPF_FILTER_FLAGS_BPF"
    by (simp_all add: has_flag_def filter_flags)
  consider "flags = ?sig" | "flags = ?no_sig" "?no_sig \<noteq> ?sig" | "flags \<noteq> ?sig" "flags \<noteq> ?no_sig" by blast
  then show ?thesis
  proof cases
    case 1
    then have "e = Signature_match None" using flags_only_signature [OF assms(2)] flags by simp
    then have "decides bpf_sig_predicate (packet_matches e)"
      by (auto simp: decides_def bpf_sig_predicate_def packet_matches_signature)
    then show ?thesis
      using 1 flags nb that [of "b\<lparr>m_funcs := Sig_funcs, m_flags := flags\<rparr>" bpf_sig_predicate]
      by (simp add: parse_special_def predicate_of_def)
  next
    case 2
    then have e: "e = Unary_logical (Signature_match None) Op_not" using flags_not_signature [OF assms(2)] flags by simp
    have "packet_matches e p \<longleftrightarrow> signature_stream_id p = None" for p
      using packet_matches_signature [of p] unfolding e by (simp add: packet_matches_def)
    then have "decides bpf_no_sig_predicate (packet_matches e)"
      by (auto simp: decides_def bpf_no_sig_predicate_def)
    then show ?thesis
      using 2 flags nb that [of "b\<lparr>m_funcs := No_sig_funcs, m_flags := flags\<rparr>" bpf_no_sig_predicate]
      by (simp add: parse_special_def predicate_of_def)
  next
    case 3
    obtain P where P: "bpf_build_prog_all_special e [] = Inr (Some P)" "computes P e" "op_bpf_validate_ext (Some burst_ctx) P"
      using all_special_program_valid [OF assms(2-4)] .
    obtain b' where b': "set_prog bpf_jit P flags b = (True, b')" "m_flags b' = flags" "predicate_of b' \<noteq> None"
      and run: "\<And>packet store args s v s'. bpf_arg_init packet store = (args, s) \<Longrightarrow>
        op_bpf_filter_ext (Some P) args s = (Ret v, s') \<Longrightarrow> the (predicate_of b') store packet = (Ret v, s')"
      using jit_compiler.set_prog_runs [OF assms(1) P(3), of flags b] by metis
    have "parse_special bpf_jit bpf_compile e b = parse_all_special bpf_jit flags e b"
      using 3 flags assms(2,3) all_special_some
      by (auto simp: parse_special_def has_special_eq split: expr.split)
    also have "\<dots> = Inr (True, b')" using P(1) b'(1) by (simp add: parse_all_special_def)
    finally show ?thesis
      using that b' flags computes_decides [OF P(2) run] by auto
  qed
qed

lemma split_all_special:
  assumes "all_special e" "null_free e"
  shows "bpf_split_special e = Inr (expr_remove_double_not e)"
proof -
  let ?e = "expr_remove_double_not e"
  have e: "all_special ?e" "null_free ?e" using leaves_special [OF remove_double_not(2) [of e]] assms by auto
  then have "is_buildable ?e = Inr True"
    using all_special_some
    by (cases ?e) (auto simp: is_buildable_def buildable_binary has_special_eq has_all_special_eq)
  then show ?thesis by (simp add: bpf_split_special.simps)
qed

lemma block_size_remove_double_not: "block_size (expr_remove_double_not e) = block_size e"
  by (induction e rule: expr_remove_double_not.induct) simp_all



text \<open>
  What the \<open>valid\<close> terms match: \<open>valid ip chksum\<close> and the like match the packets that have a
  checksum error, not the valid ones, and \<open>valid prbs\<close> matches every signed packet whose PRBS payload
  was checked, also when no bit was wrong, since the presence of the optional error count is taken
  for an error.
\<close>

theorem valid_terms_match_errors:
  "(packet_matches (Valid_match IP_CHKSUM) p \<longleftrightarrow> ipv4_checksum_error p) \<and>
   (packet_matches (Valid_match TCP_CHKSUM) p \<longleftrightarrow> tcp_checksum_error p) \<and>
   (packet_matches (Valid_match UDP_CHKSUM) p \<longleftrightarrow> udp_checksum_error p) \<and>
   (packet_matches (Valid_match SIGNATURE_PRBS) p \<longleftrightarrow> signature_stream_id p \<noteq> None \<and> prbs_bit_errors p \<noteq> None)"
  by (auto simp: packet_matches_def leaf_matches_def valid_pkt_flags_def packet_flags_def has_flag_def valid_flags pkt_flags)

text \<open>
  The filter promises the validator a stream id in the scratch memory for every packet, but writes
  it for signed packets only. A program that reads it is accepted; on an unsigned packet it reads
  uninitialised memory, or the stream id of an earlier packet of the burst.
\<close>

theorem stream_id_not_initialised:
  "\<exists>b. bpf_from_insns (\<lambda>_ _. None) [insn (BPF_LD OR BPF_MEM) 0 0 BPF_MEM_STREAM_ID, insn (BPF_RET OR BPF_A) 0 0 0] 0 = Inr b
     \<and> exec_burst b [plain_packet None] = Inl (Vm_fault Uninit_mem)
     \<and> exec_burst b [plain_packet (Some 7), plain_packet None] = Inr [7, 7]"
proof -
  let ?P = "[insn (BPF_LD OR BPF_MEM) 0 0 BPF_MEM_STREAM_ID, insn (BPF_RET OR BPF_A) 0 0 0]"
  have ops: "map_of op_table (BPF_LD OR BPF_MEM) = Some Ld_Mem" "map_of op_table (BPF_RET OR BPF_A) = Some Ret_A"
    using build_ops(1) op_ret(2) .
  have u: "unat BPF_MEM_PKTFLAGS = 0" "unat BPF_MEM_STREAM_ID = 1"
    by (simp_all add: BPF_MEM_PKTFLAGS_def BPF_MEM_STREAM_ID_def)
  have v: "op_bpf_validate_ext (Some burst_ctx) ?P"
    by (simp add: op_bpf_validate_ext_def burst_ctx_simps validate_insn_op validate_op_def check_mem_def insn_def ops
        MEMWORD_INIT_def BPF_MEM_STREAM_ID_def numeral_2_eq_2 Let_def)
  have run: "op_bpf_filter_ext (Some ?P) args store =
      (case store ! 1 of None \<Rightarrow> Fault Uninit_mem | Some x \<Rightarrow> Ret x, store)" if "length store = 16" for args store
    using that by (simp add: op_bpf_filter_ext_def run.simps exec_insn_def insn_def ops exec_op_def mem_load_def
        BPF_MEM_STREAM_ID_def split: option.split)
  show ?thesis
    using v by (simp add: bpf_from_insns_def set_prog_def exec_burst_def predicate_of_def bpf_vm_predicate_def bpf_arg_init_def
        run u burst_mem_def BPF_MEMWORDS_def plain_packet_def)
qed

end
