(* ===== verification/Free_List.thy ===== *)
theory Free_List
  imports Prelude
begin

text \<open>
  The free list allocator, \<^verbatim>\<open>src/framework/memory/allocator/free_list.cpp\<close>. The red-black tree of free
  nodes (\<^verbatim>\<open>bsd_tree.h\<close>) is the list of its nodes in the order of their addresses: an address and the
  \<open>size\<close> field of the node. A block handed out starts with a tag; \<open>tags\<close> says where in memory a tag
  with the magic key is, and its size. A node overlays the tag, and linking it into the tree puts a
  pointer where the magic key was. Addresses are natural numbers, since a heap ends below \<open>2 ^ 64\<close>;
  the size of a request is a 64-bit word and its arithmetic wraps.
\<close>

unbundle bit_operations_syntax

subsection \<open>Operations\<close>

record free_list =
  m_heap :: "(nat \<times> nat) list"
  m_lower :: nat
  m_upper :: nat
  tags :: "nat \<rightharpoonup> nat"

definition sizeof_heap_tag :: nat where "sizeof_heap_tag = 64"
definition sizeof_heap_node :: nat where "sizeof_heap_node = 40"
definition alignment :: u64 where "alignment = 64"

definition align_up :: "u64 \<Rightarrow> u64 \<Rightarrow> u64" where
  "align_up x align = (x + align - 1) AND NOT (align - 1)"

text \<open>The macros of the tree: insertion (\<open>None\<close>: there is a node with that address), removal and the neighbours.\<close>

fun RB_INSERT :: "nat \<times> nat \<Rightarrow> (nat \<times> nat) list \<Rightarrow> (nat \<times> nat) list option" where
  "RB_INSERT n [] = Some [n]"
| "RB_INSERT n (x # xs) =
     (if fst n < fst x then Some (n # x # xs)
      else if fst n = fst x then None
      else map_option (Cons x) (RB_INSERT n xs))"

definition RB_REMOVE :: "nat \<Rightarrow> (nat \<times> nat) list \<Rightarrow> (nat \<times> nat) list" where
  "RB_REMOVE a h = filter (\<lambda>n. fst n \<noteq> a) h"

definition RB_NEXT :: "nat \<Rightarrow> (nat \<times> nat) list \<Rightarrow> (nat \<times> nat) option" where
  "RB_NEXT a h = find (\<lambda>n. a < fst n) h"

definition RB_PREV :: "nat \<Rightarrow> (nat \<times> nat) list \<Rightarrow> (nat \<times> nat) option" where
  "RB_PREV a h = find (\<lambda>n. fst n < a) (rev h)"

definition resize :: "nat \<Rightarrow> nat \<Rightarrow> (nat \<times> nat) list \<Rightarrow> (nat \<times> nat) list" where
  "resize a s h = map (\<lambda>n. if fst n = a then (a, s) else n) h"

definition find_free_node :: "nat \<Rightarrow> (nat \<times> nat) list \<Rightarrow> (nat \<times> nat) option" where
  "find_free_node sz h =
     fold (\<lambda>current to_return.
       if snd current < sz then to_return
       else case to_return of
              None \<Rightarrow> Some current
            | Some n \<Rightarrow> if snd current < snd n then Some current else to_return) h None"

definition free_list_init :: "nat \<Rightarrow> nat \<Rightarrow> free_list" where
  "free_list_init heap_base heap_size =
     \<lparr>m_heap = [(heap_base, heap_size)], m_lower = heap_base, m_upper = heap_base + heap_size, tags = Map.empty\<rparr>"

definition block_request :: "u64 \<Rightarrow> nat" where
  "block_request req = unat (align_up (max (req + of_nat sizeof_heap_tag) (of_nat sizeof_heap_node)) alignment)"

definition reserve :: "u64 \<Rightarrow> free_list \<Rightarrow> cpp_error + (nat \<times> free_list)" where
  "reserve req st =
     (let sz = block_request req in
        case find_free_node sz (m_heap st) of
          None \<Rightarrow> Inl Bad_alloc
        | Some (node, node_size) \<Rightarrow>
            let h = RB_REMOVE node (m_heap st);
                h = (if node_size > sz + sizeof_heap_node
                     then (case RB_INSERT (node + sz, node_size - sz) h of None \<Rightarrow> h | Some h' \<Rightarrow> h') else h) in
              Inr (node + sizeof_heap_tag, st\<lparr>m_heap := h, tags := (tags st)(node \<mapsto> sz)\<rparr>))"

definition merge_next :: "nat \<Rightarrow> nat \<Rightarrow> (nat \<times> nat) list \<Rightarrow> nat \<times> (nat \<times> nat) list" where
  "merge_next node sz h =
     (case RB_NEXT node h of
        Some (next, next_size) \<Rightarrow>
          if node + sz = next then (sz + next_size, RB_REMOVE next (resize node (sz + next_size) h)) else (sz, h)
      | None \<Rightarrow> (sz, h))"

definition merge_prev :: "nat \<Rightarrow> nat \<Rightarrow> (nat \<times> nat) list \<Rightarrow> (nat \<times> nat) list" where
  "merge_prev node sz h =
     (case RB_PREV node h of
        Some (prev, prev_size) \<Rightarrow>
          if prev + prev_size = node then RB_REMOVE node (resize prev (prev_size + sz) h) else h
      | None \<Rightarrow> h)"

definition release :: "nat \<Rightarrow> free_list \<Rightarrow> cpp_error + free_list" where
  "release ptr st =
     (if ptr < m_lower st \<or> ptr > m_upper st then Inl (Runtime_error ''invalid range for ptr'')
      else
        let node = ptr - sizeof_heap_tag in
          case (if ptr < sizeof_heap_tag then None else tags st node) of
            None \<Rightarrow> Inl (Runtime_error ''memory corruption for ptr'')
          | Some sz \<Rightarrow>
              (case RB_INSERT (node, sz) (m_heap st) of
                 None \<Rightarrow> Inl (Runtime_error ''Double free!?!'')
               | Some h \<Rightarrow>
                   let (sz, h) = merge_next node sz h in
                     Inr (st\<lparr>m_heap := merge_prev node sz h, tags := (tags st)(node := None)\<rparr>)))"

definition free_list_size :: "free_list \<Rightarrow> nat" where
  "free_list_size st = m_upper st - m_lower st - sizeof_heap_tag"


subsection \<open>Tilings\<close>

text \<open>
  The abstract view of a heap: the list of its blocks, free or not, that tile the range without gap
  or overlap. No two free blocks are neighbours, the free ones are the nodes of the tree and the
  others carry the tags.
\<close>

type_synonym block = "nat \<times> nat \<times> bool"

fun tiles :: "nat \<Rightarrow> nat \<Rightarrow> block list \<Rightarrow> bool" where
  "tiles l u [] \<longleftrightarrow> l = u"
| "tiles l u ((a, s, f) # bs) \<longleftrightarrow> a = l \<and> 0 < s \<and> 64 dvd s \<and> tiles (l + s) u bs"

fun coalesced :: "block list \<Rightarrow> bool" where
  "coalesced ((a, s, f) # (b, t, g) # bs) \<longleftrightarrow> \<not> (f \<and> g) \<and> coalesced ((b, t, g) # bs)"
| "coalesced _ \<longleftrightarrow> True"

definition frees :: "block list \<Rightarrow> (nat \<times> nat) list" where
  "frees bs = map (\<lambda>(a, s, f). (a, s)) (filter (\<lambda>(a, s, f). f) bs)"

definition live :: "block list \<Rightarrow> (nat \<rightharpoonup> nat)" where
  "live bs = map_of (map (\<lambda>(a, s, f). (a, s)) (filter (\<lambda>(a, s, f). \<not> f) bs))"

definition tiled :: "free_list \<Rightarrow> block list \<Rightarrow> bool" where
  "tiled st bs \<longleftrightarrow> tiles (m_lower st) (m_upper st) bs \<and> coalesced bs \<and> m_heap st = frees bs \<and> tags st = live bs"

lemma frees_simps [simp]:
  "frees [] = []" "frees ((a, s, True) # bs) = (a, s) # frees bs" "frees ((a, s, False) # bs) = frees bs"
  "frees (xs @ ys) = frees xs @ frees ys"
  by (simp_all add: frees_def)

lemma live_simps [simp]:
  "live [] = Map.empty" "live ((a, s, True) # bs) = live bs" "live ((a, s, False) # bs) = (live bs)(a \<mapsto> s)"
  "live (xs @ ys) = live ys ++ live xs"
  by (simp_all add: live_def)

lemma tiles_append: "tiles l u (xs @ ys) \<longleftrightarrow> (\<exists>m. tiles l m xs \<and> tiles m u ys)"
  by (induction xs arbitrary: l) auto

lemma tiles_le: "tiles l u bs \<Longrightarrow> l \<le> u"
  by (induction bs arbitrary: l) force+

lemma tiles_mem: "tiles l u bs \<Longrightarrow> (a, s, f) \<in> set bs \<Longrightarrow> l \<le> a \<and> a + s \<le> u \<and> 0 < s \<and> 64 dvd s"
proof (induction bs arbitrary: l)
  case (Cons b bs)
  obtain a' s' f' where b: "b = (a', s', f')" by (cases b)
  then show ?case using Cons tiles_le by (auto dest: Cons.IH) 
qed simp

lemma tiles_disjoint:
  "tiles l u bs \<Longrightarrow> (a, s, f) \<in> set bs \<Longrightarrow> (b, t, g) \<in> set bs \<Longrightarrow> (a, s, f) \<noteq> (b, t, g) \<Longrightarrow> a + s \<le> b \<or> b + t \<le> a"
proof (induction bs arbitrary: l)
  case (Cons x bs)
  obtain c r h where x: "x = (c, r, h)" by (cases x)
  then show ?case using Cons tiles_mem [of "l + r" u bs] by auto
qed simp

lemma tiles_dvd: "tiles l u bs \<Longrightarrow> (a, s, f) \<in> set bs \<Longrightarrow> 64 dvd (a - l)"
proof (induction bs arbitrary: l)
  case (Cons x bs)
  obtain c r h where x: "x = (c, r, h)" by (cases x)
  show ?case
  proof (cases "(a, s, f) = x")
    case False
    then have "(a, s, f) \<in> set bs" "tiles (l + r) u bs" "64 dvd r" using Cons.prems x by auto
    then have "64 dvd (a - (l + r))" "l + r \<le> a" using Cons.IH tiles_mem by blast+
    then show ?thesis using dvd_add [OF _ \<open>64 dvd r\<close>, of "a - (l + r)"] by simp
  qed (use Cons.prems x in auto)
qed simp

lemma frees_mem: "(a, s) \<in> set (frees bs) \<longleftrightarrow> (a, s, True) \<in> set bs"
  by (force simp: frees_def)

lemma live_mem: "live bs a = Some s \<Longrightarrow> (a, s, False) \<in> set bs"
  by (force simp: live_def dest: map_of_SomeD)

lemma coalesced_append:
  "coalesced (xs @ ys) \<longleftrightarrow> coalesced xs \<and> coalesced ys \<and>
     (xs = [] \<or> ys = [] \<or> \<not> (snd (snd (last xs)) \<and> snd (snd (hd ys))))"
proof (induction xs)
  case (Cons b bs)
  then show ?case by (cases bs; cases b; cases ys) (auto split: prod.split)
qed simp

lemma tiles_around:
  assumes "tiles l u (xs @ (a, s, f) # ys)"
  shows "\<forall>x \<in> set (frees xs). fst x < a" "\<forall>x \<in> set (frees ys). a + s \<le> fst x" "l \<le> a" "a + s \<le> u" "0 < s" "64 dvd s"
    "a \<notin> dom (live xs)" "\<forall>x \<in> dom (live ys). a + s \<le> x"
proof -
  from assms have t: "tiles l a xs" "tiles (a + s) u ys" and s: "0 < s" "64 dvd s" by (auto simp: tiles_append)
  show "\<forall>x \<in> set (frees xs). fst x < a" using tiles_mem [OF t(1)] by (force simp: frees_mem)
  show "\<forall>x \<in> set (frees ys). a + s \<le> fst x" using tiles_mem [OF t(2)] by (auto simp: frees_mem)
  show "l \<le> a" "a + s \<le> u" "0 < s" "64 dvd s" using tiles_le [OF t(1)] tiles_le [OF t(2)] s by auto
  show "a \<notin> dom (live xs)" using tiles_mem [OF t(1)] by (force simp: live_def dest: map_of_SomeD)
  show "\<forall>x \<in> dom (live ys). a + s \<le> x" using tiles_mem [OF t(2)] by (force simp: live_def dest: map_of_SomeD)
qed

subsection \<open>The tree operations on a split list\<close>

lemma RB_INSERT_middle:
  assumes "\<forall>x \<in> set hx. fst x < a" "\<forall>x \<in> set hy. a < fst x"
  shows "RB_INSERT (a, s) (hx @ hy) = Some (hx @ (a, s) # hy)"
  using assms(1)
proof (induction hx)
  case Nil
  then show ?case using assms(2) by (cases hy) auto
qed auto

lemma find_skip: "\<forall>x \<in> set xs. \<not> P x \<Longrightarrow> find P (xs @ ys) = find P ys"
  by (induction xs) auto

lemma split_node:
  assumes "\<forall>x \<in> set hx. fst x < a" "\<forall>x \<in> set hy. a < fst x"
  shows "RB_REMOVE a (hx @ (a, s) # hy) = hx @ hy"
    "RB_NEXT a (hx @ (a, s) # hy) = (case hy of [] \<Rightarrow> None | n # _ \<Rightarrow> Some n)"
    "RB_PREV a (hx @ (a, s) # hy) = (if hx = [] then None else Some (last hx))"
    "resize a t (hx @ (a, s) # hy) = hx @ (a, t) # hy"
proof -
  have "filter (\<lambda>n. fst n \<noteq> a) hx = hx" "filter (\<lambda>n. fst n \<noteq> a) hy = hy"
    using assms by (auto simp: filter_id_conv)
  then show "RB_REMOVE a (hx @ (a, s) # hy) = hx @ hy" by (simp add: RB_REMOVE_def)
  show "RB_NEXT a (hx @ (a, s) # hy) = (case hy of [] \<Rightarrow> None | n # _ \<Rightarrow> Some n)"
    using assms find_skip [of hx "\<lambda>n. a < fst n"] by (auto simp: RB_NEXT_def not_less less_imp_le split: list.split)
  show "RB_PREV a (hx @ (a, s) # hy) = (if hx = [] then None else Some (last hx))"
    using assms find_skip [of "rev hy" "\<lambda>n. fst n < a"]
    by (cases hx rule: rev_cases) (auto simp: RB_PREV_def not_less less_imp_le)
  have "map (\<lambda>n. if fst n = a then (a, t) else n) hx = hx" "map (\<lambda>n. if fst n = a then (a, t) else n) hy = hy"
    using assms by (auto intro!: map_idI)
  then show "resize a t (hx @ (a, s) # hy) = hx @ (a, t) # hy" by (simp add: resize_def)
qed


lemma find_free_node_spec:
  "find_free_node n h = None \<longleftrightarrow> (\<forall>x \<in> set h. snd x < n)"
  "find_free_node n h = Some x \<Longrightarrow> x \<in> set h \<and> n \<le> snd x \<and> (\<forall>y \<in> set h. n \<le> snd y \<longrightarrow> snd x \<le> snd y)"
proof -
  define step :: "nat \<times> nat \<Rightarrow> (nat \<times> nat) option \<Rightarrow> (nat \<times> nat) option" where
    "step = (\<lambda>current to_return. if snd current < n then to_return
      else case to_return of None \<Rightarrow> Some current | Some m \<Rightarrow> if snd current < snd m then Some current else to_return)"
  have "case fold step h None of None \<Rightarrow> \<forall>x \<in> set h. snd x < n
    | Some x \<Rightarrow> x \<in> set h \<and> n \<le> snd x \<and> (\<forall>y \<in> set h. n \<le> snd y \<longrightarrow> snd x \<le> snd y)"
  proof (induction h rule: rev_induct)
    case (snoc y h)
    then show ?case by (auto simp: step_def not_less split: option.splits)
  qed simp
  moreover have eq: "find_free_node n h = fold step h None" by (simp add: find_free_node_def step_def)
  ultimately show "find_free_node n h = None \<longleftrightarrow> (\<forall>x \<in> set h. snd x < n)"
    "find_free_node n h = Some x \<Longrightarrow> x \<in> set h \<and> n \<le> snd x \<and> (\<forall>y \<in> set h. n \<le> snd y \<longrightarrow> snd x \<le> snd y)"
    by (auto split: option.splits simp: not_less [symmetric])
qed

lemma unat_and_minus_64: "unat ((x :: u64) AND - 64) = 64 * (unat x div 64)"
  using unat_and_not_mask [of x 6] by (simp add: mask_eq_exp_minus_1)

lemma block_request_eq:
  assumes "unat req \<le> 2 ^ 64 - 128"
  shows "block_request req = 64 * ((unat req + 127) div 64)"
proof -
  have u: "unat (req + 64) = unat req + 64" using assms by (subst unat_add_lem [THEN iffD1]) auto
  then have "max (req + 64) 40 = req + 64" by (auto simp: max_def word_le_nat_alt)
  moreover have "unat (req + 64 + 64 - 1) = unat req + 127"
  proof -
    have "req + 64 + 64 - 1 = (req + 64) + 63" by simp
    then show ?thesis using assms u by (simp only:, subst unat_add_lem [THEN iffD1]) auto
  qed
  ultimately show ?thesis
    by (simp add: block_request_def align_up_def alignment_def sizeof_heap_tag_def sizeof_heap_node_def unat_and_minus_64)
qed


subsection \<open>Reserving and releasing keep the tiling\<close>

lemma block_request_bounds:
  assumes "unat req \<le> 2 ^ 64 - 128"
  shows "unat req + 64 \<le> block_request req" "0 < block_request req" "64 dvd block_request req"
proof -
  have "unat req + 127 < 64 * ((unat req + 127) div 64) + 64"
    using dividend_less_div_times [of 64 "unat req + 127"] by (simp add: mult.commute)
  then show "unat req + 64 \<le> block_request req" "0 < block_request req" "64 dvd block_request req"
    using assms by (simp_all add: block_request_eq)
qed

lemma split_free:
  assumes "tiled st bs" "(a, s) \<in> set (m_heap st)"
  obtains xs ys where "bs = xs @ (a, s, True) # ys" "xs = [] \<or> \<not> snd (snd (last xs))" "ys = [] \<or> \<not> snd (snd (hd ys))"
proof -
  have "(a, s, True) \<in> set bs" using assms by (simp add: tiled_def frees_mem)
  then obtain xs ys where bs: "bs = xs @ (a, s, True) # ys" by (meson split_list)
  have "coalesced (xs @ (a, s, True) # ys)" using assms(1) bs by (simp add: tiled_def)
  then have "xs = [] \<or> \<not> snd (snd (last xs))" "ys = [] \<or> \<not> snd (snd (hd ys))"
    by (cases ys; auto simp: coalesced_append split: prod.splits)+
  then show ?thesis using bs that by blast
qed

lemma reserve_tiled:
  assumes "tiled st bs" "unat req \<le> 2 ^ 64 - 128" "reserve req st = Inr (p, st')"
  obtains xs a s ys where "bs = xs @ (a, s, True) # ys" "p = a + 64" "block_request req \<le> s"
    "tiled st' (xs @ (a, block_request req, False) #
       (if s = block_request req then [] else [(a + block_request req, s - block_request req, True)]) @ ys)"
    "m_lower st' = m_lower st" "m_upper st' = m_upper st" "tags st' = (tags st)(a \<mapsto> block_request req)"
proof -
  let ?n = "block_request req"
  obtain a s where f: "find_free_node ?n (m_heap st) = Some (a, s)" and p: "p = a + 64"
    using assms(3) by (auto simp: reserve_def Let_def sizeof_heap_tag_def split: option.splits)
  note spec = find_free_node_spec(2) [OF f]
  obtain xs ys where bs: "bs = xs @ (a, s, True) # ys"
    and ends: "xs = [] \<or> \<not> snd (snd (last xs))" "ys = [] \<or> \<not> snd (snd (hd ys))"
    using split_free [OF assms(1)] spec by blast
  have t: "tiles (m_lower st) (m_upper st) (xs @ (a, s, True) # ys)" and h: "m_heap st = frees xs @ (a, s) # frees ys"
    and co: "coalesced bs" and tags: "tags st = live ys ++ live xs"
    using assms(1) bs by (auto simp: tiled_def)
  note around = tiles_around [OF t]
  have gt: "\<forall>x \<in> set (frees ys). a < fst x" using around(2,5) by auto
  note n = block_request_bounds [OF assms(2)]
  have split: "s > ?n + 40 \<longleftrightarrow> s \<noteq> ?n" using spec n around(6) by (auto elim!: dvdE)
  let ?rest = "if s = ?n then [] else [(a + ?n, s - ?n, True)]"
  have "m_heap st' = frees (xs @ (a, ?n, False) # ?rest @ ys)"
  proof (cases "s = ?n")
    case True
    then show ?thesis
      using assms(3) f split h split_node(1) [OF around(1) gt] by (auto simp: reserve_def Let_def sizeof_heap_node_def)
  next
    case False
    have "\<forall>x \<in> set (frees xs). fst x < a + ?n" "\<forall>x \<in> set (frees ys). a + ?n < fst x"
      using around(1,2) spec False by fastforce+
    then show ?thesis
      using assms(3) f split h False split_node(1) [OF around(1) gt] RB_INSERT_middle [of "frees xs" "a + ?n" "frees ys"]
      by (auto simp: reserve_def Let_def sizeof_heap_node_def)
  qed
  moreover have "m_lower st' = m_lower st" "m_upper st' = m_upper st" "tags st' = (tags st)(a \<mapsto> ?n)"
    using assms(3) f by (auto simp: reserve_def Let_def split: option.splits)
  moreover have "(tags st)(a \<mapsto> ?n) = live (xs @ (a, ?n, False) # ?rest @ ys)"
    using around(7) by (auto simp: tags map_add_def split: option.splits)
  moreover have "tiles (m_lower st) (m_upper st) (xs @ (a, ?n, False) # ?rest @ ys)"
    using t spec n by (auto simp: tiles_append dvd_diff_nat)
  moreover have "coalesced (xs @ (a, ?n, False) # ?rest @ ys)"
    using co bs ends by (cases ys) (auto simp: coalesced_append split: prod.splits)
  ultimately show ?thesis using that bs p spec by (simp add: tiled_def)
qed


definition starts_free :: "block list \<Rightarrow> bool" where
  "starts_free bs \<longleftrightarrow> bs \<noteq> [] \<and> snd (snd (hd bs))"

definition ends_free :: "block list \<Rightarrow> bool" where
  "ends_free bs \<longleftrightarrow> bs \<noteq> [] \<and> snd (snd (last bs))"

lemma merge_next_tiled:
  assumes "tiles a u ((a, n, f) # ys)" "coalesced ys" "\<forall>x \<in> set hx. fst x < a"
  obtains n' ys' where "merge_next a n (hx @ (a, n) # frees ys) = (n', hx @ (a, n') # frees ys')"
    "tiles a u ((a, n', f) # ys')" "coalesced ys'" "\<not> starts_free ys'" "live ys' = live ys"
proof -
  have gt: "\<forall>x \<in> set (frees ys). a < fst x" using tiles_around(2,5) [of a u "[]" a n f ys] assms(1) by auto
  note split = split_node [OF assms(3) gt]
  consider "ys = []" | b t ys2 where "ys = (b, t, True) # ys2" | b t ys2 where "ys = (b, t, False) # ys2"
    by (metis (full_types) list.exhaust prod_cases3)
  then show ?thesis
  proof cases
    case 1
    then show ?thesis using that [of n "[]"] split(2) assms by (simp add: merge_next_def starts_free_def)
  next
    case (2 b t ys2)
    then have b: "b = a + n" using assms(1) by simp
    have "\<forall>x \<in> set (frees ys2). b < fst x" using tiles_around(2,5) [of "a + n" u "[]" b t True ys2] assms(1) 2 by auto
    moreover have "\<forall>x \<in> set (hx @ [(a, n + t)]). fst x < b" using assms(1,3) b by auto
    ultimately have "RB_REMOVE b ((hx @ [(a, n + t)]) @ (b, t) # frees ys2) = (hx @ [(a, n + t)]) @ frees ys2"
      by (rule split_node(1) [rotated])
    then have "merge_next a n (hx @ (a, n) # frees ys) = (n + t, hx @ (a, n + t) # frees ys2)"
      using split(2) split(4) [of "n + t"] 2 b by (simp add: merge_next_def)
    moreover have "coalesced ys2" "\<not> starts_free ys2"
      using assms(2) 2 by (cases ys2; auto simp: starts_free_def split: prod.splits)+
    ultimately show ?thesis using that [of "n + t" ys2] assms(1) 2 by (simp add: add.assoc)
  next
    case (3 b t ys2)
    then have "\<forall>x \<in> set (frees ys). a + n \<noteq> fst x"
      using tiles_around(2,5) [of "a + n" u "[]" b t False ys2] assms(1) by auto
    then have "merge_next a n (hx @ (a, n) # frees ys) = (n, hx @ (a, n) # frees ys)"
      using split(2) by (auto simp: merge_next_def split: list.split)
    then show ?thesis using that [of n ys] assms 3 by (simp add: starts_free_def)
  qed
qed

lemma merge_prev_tiled:
  assumes "tiles l a xs" "coalesced xs" "\<forall>x \<in> set hy. a < fst x"
  obtains b m xs' where "merge_prev a n (frees xs @ (a, n) # hy) = frees xs' @ (b, m) # hy"
    "tiles l b xs'" "b + m = a + n" "b \<le> a" "64 dvd a - b" "coalesced xs'" "\<not> ends_free xs'" "live xs' = live xs"
proof -
  have lt: "\<forall>x \<in> set (frees xs). fst x + snd x \<le> a \<and> fst x < a" using tiles_mem [OF assms(1)] by (force simp: frees_mem)
  then have lt': "\<forall>x \<in> set (frees xs). fst x < a" by blast
  note split = split_node [OF lt' assms(3)]
  consider "xs = []" | b t xs2 where "xs = xs2 @ [(b, t, True)]" | b t xs2 where "xs = xs2 @ [(b, t, False)]"
    by (metis (full_types) rev_exhaust prod_cases3)
  then show ?thesis
  proof cases
    case 1
    then show ?thesis using that [of "[]" a n] split(3) assms by (simp add: merge_prev_def ends_free_def)
  next
    case (2 b t xs2)
    then have xs2: "tiles l b xs2" "b + t = a" "64 dvd t" using assms(1) by (auto simp: tiles_append)
    have lt2: "\<forall>x \<in> set (frees xs2). fst x < b" using tiles_mem [OF xs2(1)] by (force simp: frees_mem)
    have gt: "\<forall>x \<in> set ((a, n) # hy). b < fst x" using lt assms(3) 2 by (auto intro: less_trans)
    have "resize b (t + n) (frees xs2 @ (b, t) # (a, n) # hy) = frees xs2 @ (b, t + n) # (a, n) # hy"
      by (rule split_node(4) [OF lt2 gt])
    moreover have "RB_REMOVE a ((frees xs2 @ [(b, t + n)]) @ (a, n) # hy) = (frees xs2 @ [(b, t + n)]) @ hy"
      by (rule split_node(1)) (use lt2 gt assms(3) in \<open>auto intro: less_trans\<close>)
    ultimately have "merge_prev a n (frees xs @ (a, n) # hy) = frees xs2 @ (b, t + n) # hy"
      using split(3) 2 xs2(2) by (simp add: merge_prev_def)
    moreover have "coalesced xs2" "\<not> ends_free xs2" using assms(2) 2 by (auto simp: coalesced_append ends_free_def)
    ultimately show ?thesis using that [of xs2 b "t + n"] xs2 2 by auto
  next
    case (3 b t xs2)
    then have xs2: "tiles l b xs2" "b + t = a" "0 < t" using assms(1) by (auto simp: tiles_append)
    then have "\<forall>x \<in> set (frees xs2). fst x + snd x \<noteq> a" using tiles_mem [OF xs2(1)] by (force simp: frees_mem)
    then have "merge_prev a n (frees xs @ (a, n) # hy) = frees xs @ (a, n) # hy"
      using split(3) 3 last_in_set [of "frees xs2"]
      by (cases "last (frees xs2)"; cases "frees xs2 = []") (auto simp: merge_prev_def)
    then show ?thesis using that [of xs a n] assms 3 by (simp add: ends_free_def)
  qed
qed


lemma coalesced_middle:
  assumes "coalesced xs" "coalesced ys" "\<not> ends_free xs" "\<not> starts_free ys"
  shows "coalesced (xs @ (b, m, f) # ys)"
  using assms by (cases ys) (auto simp: coalesced_append starts_free_def ends_free_def split: prod.splits)

lemma live_remove: "a \<notin> dom f \<Longrightarrow> a \<notin> dom g \<Longrightarrow> (g(a \<mapsto> n) ++ f)(a := None) = g ++ f"
  by (auto simp: map_add_def fun_eq_iff split: option.split)

lemma release_tiled:
  assumes "tiled st bs" "release p st = Inr st'"
  obtains a n bs' where "p = a + 64" "tags st a = Some n" "tiled st' bs'" "tags st' = (tags st)(a := None)"
    "m_lower st' = m_lower st" "m_upper st' = m_upper st"
proof -
  define a where "a = p - 64"
  have "\<not> p < 64" and "\<exists>n. tags st a = Some n"
    using assms(2) by (auto simp: release_def Let_def sizeof_heap_tag_def a_def split: if_splits option.splits)
  then obtain n where p: "p = a + 64" and n: "tags st a = Some n" by (auto simp: a_def)
  then have "(a, n, False) \<in> set bs" using assms(1) by (force simp: tiled_def live_def dest!: map_of_SomeD)
  then obtain xs ys where bs: "bs = xs @ (a, n, False) # ys" by (meson split_list)
  have t: "tiles (m_lower st) (m_upper st) (xs @ (a, n, False) # ys)" and h: "m_heap st = frees xs @ frees ys"
    and co: "coalesced xs" "coalesced ys" and tags: "tags st = (live ys)(a \<mapsto> n) ++ live xs"
    using assms(1) bs by (cases ys; auto simp: tiled_def coalesced_append split: prod.splits)+
  note around = tiles_around [OF t]
  have gt: "\<forall>x \<in> set (frees ys). a < fst x" using around(2,5) by auto
  have ins: "RB_INSERT (a, n) (m_heap st) = Some (frees xs @ (a, n) # frees ys)"
    unfolding h by (rule RB_INSERT_middle [OF around(1) gt])
  have ta: "tiles (m_lower st) a xs" "tiles a (m_upper st) ((a, n, True) # ys)" using t by (auto simp: tiles_append)
  obtain n' ys' where next_merge: "merge_next a n (frees xs @ (a, n) # frees ys) = (n', frees xs @ (a, n') # frees ys')"
    "tiles a (m_upper st) ((a, n', True) # ys')" "coalesced ys'" "\<not> starts_free ys'" "live ys' = live ys"
    using merge_next_tiled [OF ta(2) co(2) around(1)] .
  have gt': "\<forall>x \<in> set (frees ys'). a < fst x"
    using tiles_around(2,5) [of a "m_upper st" "[]" a n' True ys'] next_merge(2) by auto
  obtain b m xs' where prev_merge: "merge_prev a n' (frees xs @ (a, n') # frees ys') = frees xs' @ (b, m) # frees ys'"
    "tiles (m_lower st) b xs'" "b + m = a + n'" "b \<le> a" "64 dvd a - b" "coalesced xs'" "\<not> ends_free xs'" "live xs' = live xs"
    using merge_prev_tiled [OF ta(1) co(1) gt', of n'] .
  let ?bs = "xs' @ (b, m, True) # ys'"
  have not_ys: "a \<notin> dom (live ys)"
  proof
    assume "a \<in> dom (live ys)"
    then have "a + n \<le> a" using around(8) by blast
    then show False using around(5) by simp
  qed
  have st': "st' = st\<lparr>m_heap := frees ?bs, tags := (tags st)(a := None)\<rparr>"
    using assms(2) p n ins next_merge(1) prev_merge(1)
    by (auto simp: release_def Let_def sizeof_heap_tag_def split: if_splits)
  have "m = (a - b) + n'" using prev_merge(3,4) by simp
  then have "64 dvd m" "0 < m" using next_merge(2) prev_merge(5) dvd_add [of 64 "a - b" n'] by auto
  then have "tiles (m_lower st) (m_upper st) ?bs"
    using next_merge(2) prev_merge(2,3) by (auto simp: tiles_append)
  moreover have "(tags st)(a := None) = live ?bs"
    using live_remove [OF around(7) not_ys, of n] tags next_merge(5) prev_merge(8) by simp
  moreover have "coalesced ?bs" by (rule coalesced_middle [OF prev_merge(6) next_merge(3) prev_merge(7) next_merge(4)])
  ultimately have "tiled st' ?bs" using st' by (simp add: tiled_def)
  then show ?thesis using that [OF p n] st' by simp
qed

subsection \<open>Reachable heaps\<close>

text \<open>
  The heaps that a sequence of calls leads to: any request that does not overflow, any release,
  whether it succeeds or throws.
\<close>

inductive reachable :: "nat \<Rightarrow> nat \<Rightarrow> free_list \<Rightarrow> bool" for heap_base heap_size where
  init: "reachable heap_base heap_size (free_list_init heap_base heap_size)"
| reserve: "reachable heap_base heap_size st \<Longrightarrow> unat req \<le> 2 ^ 64 - 128 \<Longrightarrow> reserve req st = Inr (p, st') \<Longrightarrow>
    reachable heap_base heap_size st'"
| release: "reachable heap_base heap_size st \<Longrightarrow> release p st = Inr st' \<Longrightarrow> reachable heap_base heap_size st'"

lemma reachable_tiled:
  assumes "reachable b n st" "0 < n" "64 dvd n"
  shows "m_lower st = b \<and> m_upper st = b + n \<and> (\<exists>bs. tiled st bs)"
  using assms(1)
proof induction
  case init
  have "tiled (free_list_init b n) [(b, n, True)]" using assms by (simp add: tiled_def free_list_init_def)
  then show ?case by (auto simp: free_list_init_def)
next
  case (reserve st req p st')
  then show ?case by (metis reserve_tiled)
next
  case (release st p st')
  then show ?case by (metis release_tiled)
qed

definition sample_heap :: free_list where
  "sample_heap = \<lparr>m_heap = [(0x100c0, 0xf40)], m_lower = 0x10000, m_upper = 0x11000, tags = [0x10000 \<mapsto> 0xc0]\<rparr>"

lemma sample_reserve: "reserve 100 (free_list_init 0x10000 0x1000) = Inr (0x10040, sample_heap)"
  by (simp add: reserve_def block_request_eq free_list_init_def find_free_node_def RB_REMOVE_def sample_heap_def
      sizeof_heap_node_def sizeof_heap_tag_def)

lemma sample_release: "release 0x10040 sample_heap = Inr (free_list_init 0x10000 0x1000)"
  by (simp add: release_def sample_heap_def free_list_init_def merge_next_def merge_prev_def RB_NEXT_def RB_PREV_def
      RB_REMOVE_def resize_def sizeof_heap_tag_def Let_def)

lemma sample_heap_reachable: "reachable 0x10000 0x1000 sample_heap"
  by (rule reachable.reserve [OF reachable.init _ sample_reserve]) simp

text \<open>
  C11: In every heap that calls of \<open>reserve\<close> and \<open>release\<close> lead to, the free nodes of the tree and the
  blocks that carry a tag tile the range of the heap without gap or overlap, every block is a
  multiple of 64 bytes, and no two free nodes are adjacent: neither memory nor a merge is ever lost.
\<close>

theorem free_list_tiling:
  assumes "reachable heap_base heap_size st" and "0 < heap_size" and "64 dvd heap_size"
  shows "\<exists>bs. tiles heap_base (heap_base + heap_size) bs \<and> coalesced bs \<and> m_heap st = frees bs \<and> tags st = live bs"
  using reachable_tiled [OF assms] by (auto simp: tiled_def)

theorem free_list_tiling_witness:
  "\<exists>bs. tiles 0x10000 0x11000 bs \<and> coalesced bs \<and> m_heap sample_heap = frees bs \<and> tags sample_heap = live bs"
  using free_list_tiling [OF sample_heap_reachable] by simp

text \<open>
  C10: The memory that \<open>reserve\<close> returns is usable: it lies within the heap, is aligned to 64 bytes
  like the heap, and is disjoint from every block in use and from every free node that remains.
\<close>

theorem reserve_disjoint:
  assumes "reachable heap_base heap_size st" and "0 < heap_size" and "64 dvd heap_size"
    and "unat req \<le> 2 ^ 64 - 128" and "reserve req st = Inr (p, st')"
  shows "heap_base \<le> p \<and> p + unat req \<le> heap_base + heap_size \<and> 64 dvd (p - heap_base)
    \<and> (\<forall>a s. tags st a = Some s \<longrightarrow> a + s \<le> p - 64 \<or> p + unat req \<le> a)
    \<and> (\<forall>(a, s) \<in> set (m_heap st'). a + s \<le> p - 64 \<or> p + unat req \<le> a)"
proof -
  obtain bs where st: "m_lower st = heap_base" "m_upper st = heap_base + heap_size" "tiled st bs"
    using reachable_tiled [OF assms(1-3)] by blast
  let ?n = "block_request req"
  obtain xs a s ys where bs: "bs = xs @ (a, s, True) # ys" "p = a + 64" "?n \<le> s"
    and st': "tiled st' (xs @ (a, ?n, False) # (if s = ?n then [] else [(a + ?n, s - ?n, True)]) @ ys)" (is "tiled st' ?bs'")
    using reserve_tiled [OF st(3) assms(4,5)] by metis
  have t: "tiles heap_base (heap_base + heap_size) bs" "tags st = live bs" and a: "(a, s, True) \<in> set bs"
    using st bs by (auto simp: tiled_def)
  have t': "tiles (m_lower st') (m_upper st') ?bs'" "m_heap st' = frees ?bs'" and a': "(a, ?n, False) \<in> set ?bs'"
    using st' by (auto simp: tiled_def)
  note n = block_request_bounds [OF assms(4)]
  have "v + t \<le> p - 64 \<or> p + unat req \<le> v" if "tags st v = Some t" for v t
    using tiles_disjoint [OF t(1) live_mem a] that t(2) n(1) bs(2,3) by fastforce
  moreover have "v + t \<le> p - 64 \<or> p + unat req \<le> v" if "(v, t) \<in> set (m_heap st')" for v t
    using tiles_disjoint [OF t'(1) _ a', of v t True] that t'(2) n(1) bs(2) by (fastforce simp: frees_mem)
  moreover have "heap_base \<le> p" "p + unat req \<le> heap_base + heap_size" "p - heap_base = (a - heap_base) + 64"
    using tiles_mem [OF t(1) a] n(1) bs(2,3) by auto
  moreover have "64 dvd (a - heap_base) + 64" using tiles_dvd [OF t(1) a] by simp
  ultimately show ?thesis by auto
qed

theorem reserve_disjoint_witness:
  "0x10000 \<le> (0x10040 :: nat) \<and> 0x10040 + unat (100 :: u64) \<le> 0x11000
    \<and> (fst (hd (m_heap sample_heap)) + snd (hd (m_heap sample_heap)) \<le> 0x10000 \<or> 0x10040 + 100 \<le> fst (hd (m_heap sample_heap)))"
  using reserve_disjoint [OF reachable.init _ _ _ sample_reserve] by (simp add: sample_heap_def)

text \<open>
  C32: Nothing leaks: once every block has been released the heap is again the single node it started
  with, so that any request it could ever have satisfied succeeds.
\<close>

theorem all_released_restores:
  assumes "reachable heap_base heap_size st" and "0 < heap_size" and "64 dvd heap_size" and "tags st = Map.empty"
  shows "m_heap st = [(heap_base, heap_size)]
    \<and> (\<forall>req. block_request req \<le> heap_size \<longrightarrow> (\<exists>p st'. reserve req st = Inr (p, st')))"
proof -
  obtain bs where st: "m_lower st = heap_base" "m_upper st = heap_base + heap_size" "tiled st bs"
    using reachable_tiled [OF assms(1-3)] by blast
  then have t: "tiles heap_base (heap_base + heap_size) bs" "coalesced bs" "live bs = Map.empty" "m_heap st = frees bs"
    using assms(4) by (auto simp: tiled_def)
  have free: "\<forall>(a, s, f) \<in> set bs. f"
    using t(3) by (auto simp: live_def map_of_eq_empty_iff filter_empty_conv)
  obtain a s f bs' where b: "bs = (a, s, f) # bs'" using t(1) assms(2) by (cases bs) auto
  have "bs' = []" using t(2) free b by (cases bs') (auto split: prod.splits)
  then have "m_heap st = [(heap_base, heap_size)]" using b t(1,4) free by simp
  then show ?thesis by (auto simp: reserve_def find_free_node_def Let_def)
qed

theorem all_released_restores_witness:
  "\<exists>st. release 0x10040 sample_heap = Inr st \<and> m_heap st = [(0x10000, 0x1000)] \<and> (\<exists>p st'. reserve 4000 st = Inr (p, st'))"
proof -
  have "block_request 4000 \<le> 0x1000" by (simp add: block_request_eq)
  then show ?thesis
    using all_released_restores [OF reachable.release [OF sample_heap_reachable sample_release]] sample_release
    by (simp add: free_list_init_def)
qed

text \<open>
  A request close to the largest size wraps around: the block size comes out as zero, the node
  that is taken stays in the tree although it is handed out, and the tag overwrites its links.
\<close>

theorem reserve_wraps:
  "block_request (- 100) = 0 \<and>
   reserve (- 100) (free_list_init 0x10000 0x1000)
     = Inr (0x10040, \<lparr>m_heap = [(0x10000, 0x1000)], m_lower = 0x10000, m_upper = 0x11000, tags = [0x10000 \<mapsto> 0]\<rparr>)"
proof -
  have "block_request (- 100) = 0"
    by (simp add: block_request_def align_up_def alignment_def sizeof_heap_tag_def sizeof_heap_node_def max_def word_le_nat_alt)
  then show ?thesis
    by (simp add: reserve_def free_list_init_def find_free_node_def RB_REMOVE_def sizeof_heap_node_def sizeof_heap_tag_def)
qed

end
