(* ===== verification/Memory_Pool.thy ===== *)
theory Memory_Pool
  imports Prelude
begin

text \<open>
  The pool allocator, \<^verbatim>\<open>src/framework/memory/allocator/pool.cpp\<close> and \<^verbatim>\<open>pool.hpp\<close>: a range cut into
  items of a power of two, the free ones linked into an intrusive stack. The stack is the list of
  the addresses of its nodes, the first being the head.
\<close>

unbundle bit_operations_syntax

definition power_of_two :: "u64 \<Rightarrow> bool" where
  "power_of_two x \<longleftrightarrow> x AND (x - 1) = 0"

definition next_power_of_two :: "u64 \<Rightarrow> u64" where
  "next_power_of_two x =
     (if power_of_two x then x
      else
        let x = x OR drop_bit 1 x;
            x = x OR drop_bit 2 x;
            x = x OR drop_bit 4 x;
            x = x OR drop_bit 8 x;
            x = x OR drop_bit 16 x;
            x = x OR drop_bit 32 x in
          x + 1)"

record pool =
  pool_stack :: "nat list"
  pool_lower :: nat
  pool_upper :: nat
  pool_item :: nat

definition sizeof_node :: u64 where "sizeof_node = 8"

text \<open>The constructor's loop, from an offset on; \<open>m_size\<close> is at least the size of a node.\<close>

function push_items :: "nat \<Rightarrow> nat \<Rightarrow> nat \<Rightarrow> nat \<Rightarrow> nat list \<Rightarrow> nat list" where
  "push_items base pool_size m_size offset stack =
     (if 0 < m_size \<and> offset + m_size < pool_size
      then push_items base pool_size m_size (offset + m_size) ((base + offset) # stack) else stack)"
  by pat_completeness auto
termination
  by (relation "measure (\<lambda>(base, pool_size, m_size, offset, stack). pool_size - offset)") auto

declare push_items.simps [simp del]

definition pool_init :: "nat \<Rightarrow> nat \<Rightarrow> u64 \<Rightarrow> cpp_error + pool" where
  "pool_init base pool_size item_size =
     (let m_size = unat (next_power_of_two (max item_size sizeof_node)) in
        if pool_size < m_size then Inl (Runtime_error ''pool_size is too small for item_size'')
        else Inr \<lparr>pool_stack = push_items base pool_size m_size 0 [], pool_lower = base, pool_upper = base + pool_size,
          pool_item = m_size\<rparr>)"

definition pool_acquire :: "pool \<Rightarrow> nat option \<times> pool" where
  "pool_acquire p = (case pool_stack p of [] \<Rightarrow> (None, p) | n # ns \<Rightarrow> (Some n, p\<lparr>pool_stack := ns\<rparr>))"

definition pool_release :: "nat \<Rightarrow> pool \<Rightarrow> cpp_error + pool" where
  "pool_release ptr p =
     (if ptr < pool_lower p \<or> ptr > pool_upper p - pool_item p then Inl (Runtime_error ''ptr is out of range'')
      else Inr (p\<lparr>pool_stack := ptr # pool_stack p\<rparr>))"

definition pool_size :: "pool \<Rightarrow> nat" where
  "pool_size p = pool_upper p - pool_lower p"

subsection \<open>The next power of two\<close>

text \<open>Each step of the shift cascade doubles the distance over which the bits of \<open>x\<close> are smeared downwards.\<close>

definition smeared :: "nat \<Rightarrow> u64 \<Rightarrow> u64 \<Rightarrow> bool" where
  "smeared n x y \<longleftrightarrow> (\<forall>i. bit y i \<longleftrightarrow> (\<exists>j. i \<le> j \<and> j < i + n \<and> bit x j))"

lemma smeared_step: "smeared n x y \<Longrightarrow> smeared (2 * n) x (y OR drop_bit n y)"
proof -
  assume y: "smeared n x y"
  have "bit (y OR drop_bit n y) i \<longleftrightarrow> (\<exists>j. i \<le> j \<and> j < i + 2 * n \<and> bit x j)" for i
  proof
    assume "bit (y OR drop_bit n y) i"
    then consider "bit y i" | "bit y (n + i)" by (auto simp: bit_simps)
    then obtain j where "i \<le> j \<and> j < i + 2 * n \<and> bit x j"
    proof cases
      case 1
      then obtain j where "i \<le> j \<and> j < i + n \<and> bit x j" using y unfolding smeared_def by blast
      then show ?thesis using that [of j] by simp
    next
      case 2
      then obtain j where "n + i \<le> j \<and> j < n + i + n \<and> bit x j" using y unfolding smeared_def by blast
      then show ?thesis using that [of j] by simp
    qed
    then show "\<exists>j. i \<le> j \<and> j < i + 2 * n \<and> bit x j" by blast
  next
    assume "\<exists>j. i \<le> j \<and> j < i + 2 * n \<and> bit x j"
    then obtain j where j: "i \<le> j" "j < i + 2 * n" "bit x j" by blast
    then have "bit y i \<or> bit y (n + i)"
      using y j unfolding smeared_def by (cases "j < i + n") (auto intro!: exI [of _ j])
    then show "bit (y OR drop_bit n y) i" by (auto simp: bit_simps)
  qed
  then show ?thesis by (simp add: smeared_def)
qed

lemma smeared_64:
  assumes "smeared 64 x y" "bit x h" "\<forall>j. bit x j \<longrightarrow> j \<le> h"
  shows "y = mask (h + 1)"
proof (rule bit_word_eqI)
  fix i :: nat assume "i < LENGTH(64)"
  moreover have "h < 64" using bit_imp_le_length [OF assms(2)] by simp
  ultimately show "bit y i \<longleftrightarrow> bit (mask (h + 1) :: u64) i"
    using assms by (auto simp: smeared_def bit_simps intro: le_trans exI [of _ h])
qed

lemma highest_bit:
  assumes "(x :: u64) \<noteq> 0"
  obtains h where "bit x h" "\<forall>j. bit x j \<longrightarrow> j \<le> h" "2 ^ h \<le> unat x" "unat x < 2 ^ (h + 1)" "h < 64"
proof -
  obtain i where i: "bit x i" using assms bit_eq_iff [of x 0] by auto
  define h where "h = Max {j. bit x j}"
  have "{j. bit x j} \<subseteq> {..<64}" using bit_imp_le_length [of x] by auto
  then have fin: "finite {j. bit x j}" by (rule finite_subset) simp
  have h: "bit x h" "\<forall>j. bit x j \<longrightarrow> j \<le> h"
    using Max_in [OF fin] Max_ge [OF fin] i by (auto simp: h_def)
  have "bit (unat x) h" using h(1) bit_imp_le_length [OF h(1)] by (simp add: bit_simps)
  then have "unat x div 2 ^ h \<noteq> 0" unfolding bit_iff_odd by (metis even_zero)
  then have "2 ^ h \<le> unat x" by (meson div_less not_less)
  moreover have "take_bit (h + 1) (unat x) = unat x"
    using h(2) by (intro bit_eqI) (auto simp: bit_simps less_Suc_eq_le)
  then have "unat x < 2 ^ (h + 1)" using take_bit_nat_less_exp [of "h + 1" "unat x"] by simp
  ultimately show ?thesis using that h bit_imp_le_length [OF h(1)] by simp
qed

lemma unat_exp: "k < 64 \<Longrightarrow> unat (2 ^ k :: u64) = 2 ^ k"
proof -
  assume "k < 64"
  then have "(2 :: nat) ^ k < 2 ^ LENGTH(64)" using power_strict_increasing [of k 64 "2 :: nat"] by simp
  then have "unat (of_nat (2 ^ k) :: u64) = 2 ^ k" by (rule unat_of_nat_small)
  then show ?thesis by simp
qed

lemma bit_high:
  assumes "2 ^ h \<le> unat (x :: u64)" "unat x < 2 ^ (h + 1)" "h < 64"
  shows "bit x h"
proof -
  have "unat x div 2 ^ h = 1" using assms(1,2) by (intro div_nat_eqI) simp_all
  then have "bit (unat x) h" by (simp add: bit_iff_odd)
  then show ?thesis using assms(3) by (simp add: bit_simps)
qed

lemma power_of_two_iff:
  assumes "x \<noteq> 0" "2 ^ h \<le> unat x" "unat x < 2 ^ (h + 1)" "h < 64"
  shows "power_of_two x \<longleftrightarrow> unat x = 2 ^ h"
proof
  assume p: "power_of_two x"
  show "unat x = 2 ^ h"
  proof (rule ccontr)
    assume ne: "unat x \<noteq> 2 ^ h"
    have "unat (x - 1) = unat x - 1" using assms(1) by (metis unat_minus_one)
    then have "bit (x - 1) h" using assms ne by (intro bit_high) auto
    then have "bit (x AND (x - 1)) h" using bit_high [OF assms(2-4)] by (simp add: bit_simps)
    then show False using p by (simp add: power_of_two_def)
  qed
next
  assume "unat x = 2 ^ h"
  then have "unat x = unat (2 ^ h :: u64)" using assms(4) by (simp add: unat_exp)
  then have x: "x = 2 ^ h" by (rule unsigned_word_eqI)
  have "x - 1 = mask h" by (simp add: x mask_eq_exp_minus_1)
  then show "power_of_two x" unfolding power_of_two_def x by (intro bit_word_eqI) (auto simp: bit_simps)
qed

text \<open>
  The item size of a pool is the requested size rounded up to a power of two: the shift cascade
  computes the least power of two that is not below its argument, for every argument up to \<open>2 ^ 63\<close>.
\<close>

theorem next_power_of_two_correct:
  assumes "0 < x" and "unat x \<le> 2 ^ 63"
  shows "\<exists>k. unat (next_power_of_two x) = 2 ^ k \<and> unat x \<le> 2 ^ k \<and> 2 ^ k < 2 * unat x"
proof -
  have x: "x \<noteq> 0" using assms(1) by simp
  obtain h where h: "bit x h" "\<forall>j. bit x j \<longrightarrow> j \<le> h" "2 ^ h \<le> unat x" "unat x < 2 ^ (h + 1)" "h < 64"
    using highest_bit [OF x] .
  show ?thesis
  proof (cases "power_of_two x")
    case True
    then have "unat x = 2 ^ h" using power_of_two_iff [OF x h(3-5)] by simp
    then show ?thesis using True by (auto simp: next_power_of_two_def intro!: exI [of _ h])
  next
    case False
    then have ne: "unat x \<noteq> 2 ^ h" using power_of_two_iff [OF x h(3-5)] by simp
    then have "(2 :: nat) ^ h < 2 ^ 63" using h(3) assms(2) by linarith
    then have "h < 63" by (rule power_less_imp_less_exp [rotated]) simp
    then have small: "h + 1 < 64" by simp
    have "smeared 1 x x" by (auto simp: smeared_def less_Suc_eq_le)
    then have "smeared 2 x (x OR drop_bit 1 x)" using smeared_step [of 1] by simp
    note smeared_step [OF this, simplified]
    note smeared_step [OF this, simplified]
    note smeared_step [OF this, simplified]
    note smeared_step [OF this, simplified]
    note smeared_step [OF this, simplified]
    from smeared_64 [OF this h(1,2)] have "next_power_of_two x = mask (h + 1) + 1"
      using False by (simp add: next_power_of_two_def Let_def)
    then have "next_power_of_two x = 2 ^ (h + 1)" by (simp add: mask_eq_exp_minus_1)
    moreover have "unat (2 ^ (h + 1) :: u64) = 2 ^ (h + 1)" using small by (rule unat_exp)
    ultimately show ?thesis using h(3,4) ne by (intro exI [of _ "h + 1"]) simp
  qed
qed

theorem next_power_of_two_correct_witness:
  "\<exists>k. unat (next_power_of_two 100) = 2 ^ k \<and> 100 \<le> (2 :: nat) ^ k \<and> (2 :: nat) ^ k < 200"
  using next_power_of_two_correct [of 100] by simp

subsection \<open>Items\<close>

definition item_at :: "nat \<Rightarrow> nat \<Rightarrow> nat \<Rightarrow> nat" where
  "item_at base m i = base + i * m"

lemma push_items_eq:
  assumes "0 < m"
  shows "push_items base n m (k * m) stack = rev (map (item_at base m) [k..<(n - 1) div m]) @ stack"
proof (induction "n - k * m" arbitrary: k stack rule: less_induct)
  case less
  show ?case
  proof (cases "k * m + m < n")
    case True
    then have "Suc k * m \<le> n - 1" by simp
    then have k: "k < (n - 1) div m" using assms by (simp add: Suc_le_eq [symmetric] less_eq_div_iff_mult_less_eq)
    have "push_items base n m (k * m) stack = push_items base n m (Suc k * m) ((base + k * m) # stack)"
      using True assms by (subst push_items.simps) (simp add: add.commute)
    also have "\<dots> = rev (map (item_at base m) [Suc k..<(n - 1) div m]) @ (base + k * m) # stack"
      by (rule less) (use True assms in auto)
    finally show ?thesis using k by (simp add: upt_conv_Cons item_at_def)
  next
    case False
    then have "n - 1 < Suc k * m" using assms by (cases n) auto
    then have "(n - 1) div m \<le> k" by (simp add: less_mult_imp_div_less less_Suc_eq_le [symmetric])
    then show ?thesis using False by (subst push_items.simps) simp
  qed
qed

text \<open>
  What a client of a pool can do: acquire, and release what it holds. \<open>out\<close> are the items it holds.
\<close>

inductive pool_run :: "nat \<Rightarrow> nat \<Rightarrow> u64 \<Rightarrow> pool \<Rightarrow> nat set \<Rightarrow> bool" for base n item_size where
  init: "pool_init base n item_size = Inr p \<Longrightarrow> pool_run base n item_size p {}"
| acquire: "pool_run base n item_size p out \<Longrightarrow> pool_acquire p = (Some a, p') \<Longrightarrow> pool_run base n item_size p' (insert a out)"
| release: "pool_run base n item_size p out \<Longrightarrow> a \<in> out \<Longrightarrow> pool_release a p = Inr p' \<Longrightarrow> pool_run base n item_size p' (out - {a})"

definition pool_items :: "pool \<Rightarrow> nat set" where
  "pool_items p = item_at (pool_lower p) (pool_item p) ` {..<(pool_size p - 1) div pool_item p}"

lemma pool_items_stack [simp]: "pool_items (p\<lparr>pool_stack := s\<rparr>) = pool_items p"
  by (simp add: pool_items_def pool_size_def)

lemma pool_init_items:
  assumes "pool_init base n item_size = Inr p" "0 < pool_item p"
  shows "set (pool_stack p) = pool_items p \<and> distinct (pool_stack p) \<and> pool_lower p = base \<and> pool_upper p = base + n"
proof -
  let ?m = "pool_item p"
  have stack: "pool_stack p = rev (map (item_at base ?m) [0..<(n - 1) div ?m])"
    using push_items_eq [OF assms(2), of base n 0 "[]"] assms(1) by (auto simp: pool_init_def Let_def split: if_splits)
  have "inj_on (item_at base ?m) X" for X using assms(2) by (auto simp: inj_on_def item_at_def)
  moreover have "pool_lower p = base" "pool_upper p = base + n"
    using assms(1) by (auto simp: pool_init_def Let_def split: if_splits)
  ultimately show ?thesis by (auto simp: stack pool_items_def pool_size_def distinct_map)
qed

text \<open>
  C33: A pool never hands out an item twice: at any time the items on its stack and the items the
  client holds are disjoint and together all its items, and releasing a held item succeeds. The items
  are \<open>(size - 1) div m_size\<close> in number, since the loop of the constructor leaves the last one out.
\<close>

theorem pool_items_conserved:
  assumes "pool_run base n item_size p out" and "0 < pool_item p"
  shows "distinct (pool_stack p) \<and> set (pool_stack p) \<inter> out = {} \<and> set (pool_stack p) \<union> out = pool_items p
    \<and> card (pool_items p) = (n - 1) div pool_item p \<and> (\<forall>a \<in> out. \<exists>p'. pool_release a p = Inr p')"
proof -
  have "pool_lower p = base \<and> pool_upper p = base + n \<and> distinct (pool_stack p) \<and> set (pool_stack p) \<inter> out = {}
    \<and> set (pool_stack p) \<union> out = pool_items p"
    using assms
  proof (induction rule: pool_run.induct)
    case (init p)
    then show ?case using pool_init_items [of base n item_size p] by simp
  next
    case (acquire p out a p')
    then show ?case by (auto simp: pool_acquire_def split: list.splits)
  next
    case (release p out a p')
    then show ?case by (auto simp: pool_release_def split: if_splits)
  qed
  moreover have "inj_on (item_at (pool_lower p) (pool_item p)) X" for X
    using assms(2) by (auto simp: inj_on_def item_at_def)
  then have "card (pool_items p) = (pool_size p - 1) div pool_item p" by (simp add: pool_items_def card_image)
  moreover have "\<exists>p'. pool_release a p = Inr p'" if "a \<in> pool_items p" for a
  proof -
    obtain i where i: "a = pool_lower p + i * pool_item p" "i < (pool_size p - 1) div pool_item p"
      using \<open>a \<in> pool_items p\<close> by (auto simp: pool_items_def item_at_def)
    then have "Suc i * pool_item p \<le> (pool_size p - 1) div pool_item p * pool_item p" by (intro mult_le_mono1) simp
    then have "Suc i * pool_item p \<le> pool_size p - 1" by (metis div_times_less_eq_dividend le_trans)
    then have "pool_item p + i * pool_item p \<le> pool_upper p - pool_lower p" by (simp add: pool_size_def)
    moreover have "0 < pool_upper p - pool_lower p" using calculation assms(2) by linarith
    ultimately have "a \<le> pool_upper p - pool_item p" using i(1) by linarith
    then show ?thesis using i(1) by (simp add: pool_release_def)
  qed
  ultimately show ?thesis by (auto simp: pool_size_def)
qed

lemma sample_pool:
  "pool_init 0x1000 0x100 64 = Inr \<lparr>pool_stack = [0x1080, 0x1040, 0x1000], pool_lower = 0x1000, pool_upper = 0x1100, pool_item = 64\<rparr>"
proof -
  have "next_power_of_two (max 64 sizeof_node) = 64"
    by (simp add: sizeof_node_def max_def next_power_of_two_def power_of_two_def)
  then show ?thesis by (simp add: pool_init_def push_items.simps)
qed

theorem pool_items_conserved_witness:
  "card (pool_items \<lparr>pool_stack = [0x1040, 0x1000], pool_lower = 0x1000, pool_upper = 0x1100, pool_item = 64\<rparr>) = 3"
proof -
  have "pool_run 0x1000 0x100 64 \<lparr>pool_stack = [0x1040, 0x1000], pool_lower = 0x1000, pool_upper = 0x1100, pool_item = 64\<rparr>
      (insert 0x1080 {})"
    by (rule pool_run.acquire [OF pool_run.init [OF sample_pool]]) (simp add: pool_acquire_def)
  from pool_items_conserved [OF this] show ?thesis by simp
qed

end
