(* ===== verification/Tx_Scheduler.thy ===== *)
theory Tx_Scheduler
  imports Prelude "HOL-Library.Multiset"
begin

text \<open>
  The transmit scheduler of a port queue, \<^verbatim>\<open>src/modules/packetio/workers/dpdk/tx_scheduler.cpp\<close> and
  \<^verbatim>\<open>tx_scheduler.hpp\<close>: a state machine, driven by a timer, that pulls bursts of packets from traffic
  sources at their deadlines and hands them to the driver.

  What the scheduler calls is the record \<open>env\<close> of functions on a world: the link status, the clock, the
  table of sources and the sources themselves, and the DPDK transmit functions. Times are nanoseconds
  since the epoch of the clock. Assertions are those of a release build, that is, absent.
\<close>

subsection \<open>Environment, states and timer\<close>

record ('w, 'p) env =
  link_down :: "'w \<Rightarrow> bool \<times> 'w"
  clock_now :: "'w \<Rightarrow> nat \<times> 'w"
  get_sources :: "'w \<Rightarrow> nat list"
  source_active :: "nat \<Rightarrow> 'w \<Rightarrow> bool"
  source_burst_size :: "nat \<Rightarrow> 'w \<Rightarrow> nat"
  next_deadline :: "nat \<Rightarrow> 'w \<Rightarrow> nat"
  source_pull :: "nat \<Rightarrow> nat \<Rightarrow> 'w \<Rightarrow> 'p list \<times> 'w"
  tx_prepare :: "'p list \<Rightarrow> 'w \<Rightarrow> nat \<times> 'w"
  tx_burst :: "'p list \<Rightarrow> 'w \<Rightarrow> nat \<times> 'w"
  packet_wait :: "nat \<Rightarrow> 'w \<Rightarrow> 'w"
  drop_packets :: "nat \<Rightarrow> 'p list \<Rightarrow> 'w \<Rightarrow> 'w"
  free_packets :: "'p list \<Rightarrow> 'w \<Rightarrow> 'w"
  drop_tx_overruns :: bool

definition block_poll :: nat where "block_poll = 100"
definition idle_poll :: nat where "idle_poll = 100000000"
definition link_poll :: nat where "link_poll = 100000"
definition min_poll :: nat where "min_poll = 1"
definition schedule_poll :: nat where "schedule_poll = idle_poll"
definition pkt_burst_size :: nat where "pkt_burst_size = 64"

text \<open>A deadline and the key of a source; the flag of \<open>Running\<close> is \<open>reschedule\<close>.\<close>

type_synonym entry = "nat \<times> nat"

datatype state = Idle | Link_check | Running bool | Blocked nat entry

datatype timer = Interval nat | Oneshot nat | Disarmed

record 'p scheduler =
  m_buffer :: "'p list"
  m_schedule :: "entry list"
  m_time_reschedule :: nat
  m_timer :: timer

text \<open>A timer value of zero disarms a kernel timer.\<close>

definition set_timer_interval :: "nat \<Rightarrow> 'p scheduler \<Rightarrow> 'p scheduler" where
  "set_timer_interval ns s = s\<lparr>m_timer := Interval ns\<rparr>"

definition set_timer_oneshot :: "nat \<Rightarrow> 'p scheduler \<Rightarrow> 'p scheduler" where
  "set_timer_oneshot ns s = s\<lparr>m_timer := (if ns = 0 then Disarmed else Oneshot ns)\<rparr>"

definition scheduler_init :: "'p scheduler" where
  "scheduler_init = \<lparr>m_buffer = [], m_schedule = [], m_time_reschedule = 0, m_timer = Interval idle_poll\<rparr>"

text \<open>The priority queue is a list with the earliest deadline first.\<close>

fun push_entry :: "entry \<Rightarrow> entry list \<Rightarrow> entry list" where
  "push_entry e [] = [e]"
| "push_entry e (x # xs) = (if fst e < fst x then e # x # xs else x # push_entry e xs)"

definition push :: "entry \<Rightarrow> 'p scheduler \<Rightarrow> 'p scheduler" where
  "push e s = s\<lparr>m_schedule := push_entry e (m_schedule s)\<rparr>"

definition have_active_sources :: "('w, 'p) env \<Rightarrow> 'w \<Rightarrow> bool" where
  "have_active_sources env w \<longleftrightarrow> (\<exists>key \<in> set (get_sources env w). source_active env key w)"

definition get_source :: "('w, 'p) env \<Rightarrow> nat \<Rightarrow> 'w \<Rightarrow> bool" where
  "get_source env key w \<longleftrightarrow> key \<in> set (get_sources env w)"

subsection \<open>Rescheduling\<close>

function catch_up :: "nat \<Rightarrow> nat \<Rightarrow> nat" where
  "catch_up t now = (if t < now then catch_up (t + schedule_poll) now else t)"
  by pat_completeness auto
termination
  by (relation "measure (\<lambda>(t, now). now - t)") (auto simp: schedule_poll_def idle_poll_def)

declare catch_up.simps [simp del]

definition reschedule_one :: "('w, 'p) env \<Rightarrow> nat \<Rightarrow> 'w \<Rightarrow> nat \<Rightarrow> 'p scheduler \<Rightarrow> 'p scheduler" where
  "reschedule_one env now w key s =
     (if source_active env key w \<and> key \<notin> set (map snd (m_schedule s))
      then push (now + next_deadline env key w, key) s else s)"

definition do_reschedule :: "('w, 'p) env \<Rightarrow> nat \<Rightarrow> 'w \<Rightarrow> 'p scheduler \<Rightarrow> 'p scheduler" where
  "do_reschedule env now w s =
     (let s = fold (reschedule_one env now w) (get_sources env w) s in
        s\<lparr>m_time_reschedule := catch_up (m_time_reschedule s) now\<rparr>)"

subsection \<open>Transmitting\<close>

definition distribute :: "nat \<Rightarrow> nat \<Rightarrow> nat \<Rightarrow> nat" where
  "distribute tot buckets n = (if n < tot mod buckets then tot div buckets + 1 else tot div buckets)"

text \<open>The bursts of \<open>do_transmit\<close>, each of a size; the result is what was sent, what was not, and the world.\<close>

fun transmit_bursts :: "('w, 'p) env \<Rightarrow> nat \<Rightarrow> nat list \<Rightarrow> nat \<Rightarrow> 'p list \<Rightarrow> 'w \<Rightarrow> nat \<times> 'p list \<times> 'w" where
  "transmit_bursts env key [] total_sent untransmitted w = (total_sent, untransmitted, w)"
| "transmit_bursts env key (loop_burst # bursts) total_sent untransmitted w =
     (let (outgoing, w) = source_pull env key loop_burst w;
          to_send = length outgoing;
          (nb_prep, w) = tx_prepare env outgoing w in
        if nb_prep \<noteq> to_send then (total_sent, untransmitted @ outgoing, w)
        else
          let (sent, w) = tx_burst env outgoing w in
            if sent < to_send then
              let w = packet_wait env (to_send - sent) w;
                  (again, w) = tx_burst env (drop sent outgoing) w;
                  sent = sent + again in
                if sent < to_send then (total_sent + sent, untransmitted @ drop sent outgoing, w)
                else transmit_bursts env key bursts (total_sent + sent) untransmitted w
            else transmit_bursts env key bursts (total_sent + sent) untransmitted w)"

definition do_transmit :: "('w, 'p) env \<Rightarrow> nat \<Rightarrow> nat \<Rightarrow> 'p list \<Rightarrow> 'w \<Rightarrow> nat \<times> 'p list \<times> 'w" where
  "do_transmit env key burst_size untransmitted w =
     (let nb_bursts = (burst_size + (pkt_burst_size - 1)) div pkt_burst_size in
        transmit_bursts env key (map (distribute burst_size nb_bursts) [0..<nb_bursts]) 0 untransmitted w)"

subsection \<open>Time outs\<close>

text \<open>
  A handler returns the next state, if any, the current state with its mutable part updated, the
  scheduler and the world.
\<close>

type_synonym ('w, 'p) handled = "state option \<times> state \<times> 'p scheduler \<times> 'w"

definition on_timeout_idle :: "('w, 'p) env \<Rightarrow> 'p scheduler \<Rightarrow> 'w \<Rightarrow> ('w, 'p) handled" where
  "on_timeout_idle env s w =
     (if \<not> have_active_sources env w then (None, Idle, s, w)
      else let (down, w) = link_down env w in (Some (if down then Link_check else Running False), Idle, s, w))"

definition on_timeout_link_check :: "('w, 'p) env \<Rightarrow> 'p scheduler \<Rightarrow> 'w \<Rightarrow> ('w, 'p) handled" where
  "on_timeout_link_check env s w =
     (let (down, w) = link_down env w in
        if down then (None, Link_check, s, w)
        else (Some (if have_active_sources env w then Running False else Idle), Link_check, s, w))"

text \<open>
  The loop of the running state; \<open>now\<close> is the local variable. It ends with the state to go to, if the
  queue blocks, and it takes fuel, since deadlines may fall due as fast as they are served.
\<close>

fun running_loop :: "nat \<Rightarrow> ('w, 'p) env \<Rightarrow> nat \<Rightarrow> 'p scheduler \<Rightarrow> 'w \<Rightarrow> (state option \<times> nat \<times> 'p scheduler \<times> 'w) option" where
  "running_loop 0 env now s w = None"
| "running_loop (Suc fuel) env now s w =
     (case m_schedule s of
        [] \<Rightarrow> Some (None, now, s, w)
      | (deadline, key) # rest \<Rightarrow>
          let (now, w) = clock_now env w in
            if \<not> deadline \<le> now then Some (None, now, s, w)
            else
              let s = s\<lparr>m_schedule := rest\<rparr> in
                if \<not> get_source env key w then running_loop fuel env now s w
                else
                  let burst_size = source_burst_size env key w;
                      (sent, buffer, w) = do_transmit env key burst_size (m_buffer s) w;
                      s = s\<lparr>m_buffer := buffer\<rparr> in
                    if buffer \<noteq> [] \<and> \<not> drop_tx_overruns env
                    then Some (Some (Blocked (burst_size - sent - length buffer) (deadline, key)), now, s, w)
                    else
                      let (s, w) = (if buffer \<noteq> [] then (s\<lparr>m_buffer := []\<rparr>, drop_packets env key buffer w) else (s, w));
                          s = (if source_active env key w then push (deadline + next_deadline env key w, key) s else s) in
                        running_loop fuel env now s w)"

text \<open>Before the loop new sources are scheduled, if so marked; after it the timer is set for the next event.\<close>

definition refresh :: "('w, 'p) env \<Rightarrow> bool \<Rightarrow> 'p scheduler \<Rightarrow> 'w \<Rightarrow> 'p scheduler \<times> 'w" where
  "refresh env reschedule s w =
     (if reschedule then (case clock_now env w of (now, w) \<Rightarrow> (do_reschedule env now w s, w)) else (s, w))"

definition set_next_event :: "nat \<Rightarrow> 'p scheduler \<Rightarrow> state option \<times> state \<times> 'p scheduler" where
  "set_next_event now s =
     (case m_schedule s of
        [] \<Rightarrow> (Some Idle, Running False, s)
      | (deadline, key) # rest \<Rightarrow>
          if m_time_reschedule s \<le> deadline
          then (None, Running True, set_timer_oneshot (max min_poll (m_time_reschedule s - now)) s)
          else (None, Running False, set_timer_oneshot (deadline - now) s))"

definition on_timeout_running :: "nat \<Rightarrow> ('w, 'p) env \<Rightarrow> bool \<Rightarrow> 'p scheduler \<Rightarrow> 'w \<Rightarrow> ('w, 'p) handled option" where
  "on_timeout_running fuel env reschedule s w =
     (let (down, w) = link_down env w in
        if down then Some (Some Link_check, Running reschedule, s, w)
        else
          let (s, w) = refresh env reschedule s w in
            (case running_loop fuel env 0 s w of
               None \<Rightarrow> None
             | Some (Some next, now, s, w) \<Rightarrow> Some (Some next, Running False, s, w)
             | Some (None, now, s, w) \<Rightarrow> (case set_next_event now s of (next, st, s) \<Rightarrow> Some (next, st, s, w))))"

definition resume_source :: "('w, 'p) env \<Rightarrow> nat \<Rightarrow> 'p scheduler \<Rightarrow> 'w \<Rightarrow> 'p scheduler \<times> 'w" where
  "resume_source env key s w =
     (if source_active env key w then (case clock_now env w of (now, w) \<Rightarrow> (push (now, key) s, w)) else (s, w))"

definition blocked_cleared :: "nat \<Rightarrow> ('w, 'p) env \<Rightarrow> state \<Rightarrow> 'p scheduler \<Rightarrow> 'w \<Rightarrow> ('w, 'p) handled option" where
  "blocked_cleared fuel env same s w =
     (if \<not> have_active_sources env w then Some (Some Idle, same, s, w)
      else case on_timeout_running fuel env False s w of
             None \<Rightarrow> None
           | Some (next, _, s, w) \<Rightarrow> Some (Some (case next of Some st \<Rightarrow> st | None \<Rightarrow> Running False), same, s, w))"

definition on_timeout_blocked :: "nat \<Rightarrow> ('w, 'p) env \<Rightarrow> nat \<Rightarrow> entry \<Rightarrow> 'p scheduler \<Rightarrow> 'w \<Rightarrow> ('w, 'p) handled option" where
  "on_timeout_blocked fuel env remaining e s w =
     (let (down, w) = link_down env w; key = snd e; same = Blocked remaining e in
        if down then Some (Some Link_check, same, s, w)
        else if \<not> get_source env key w
        then Some (Some (if have_active_sources env w then Running False else Idle), same, s\<lparr>m_buffer := []\<rparr>, w)
        else
          let to_send = length (m_buffer s);
              (nb_prep, w) = tx_prepare env (m_buffer s) w in
            if nb_prep \<noteq> to_send then Some (None, same, s, w)
            else
              let (sent, w) = tx_burst env (m_buffer s) w in
                if sent < to_send
                then Some (None, same, set_timer_oneshot block_poll (s\<lparr>m_buffer := drop sent (m_buffer s)\<rparr>), w)
                else
                  let (sent, buffer, w) = do_transmit env key remaining [] w;
                      s = s\<lparr>m_buffer := buffer\<rparr> in
                    if sent < remaining
                    then Some (None, Blocked (remaining - sent) e, set_timer_oneshot block_poll s, w)
                    else
                      let (s, w) = resume_source env key s w in blocked_cleared fuel env same s w)"

definition on_timeout :: "nat \<Rightarrow> ('w, 'p) env \<Rightarrow> state \<Rightarrow> 'p scheduler \<Rightarrow> 'w \<Rightarrow> ('w, 'p) handled option" where
  "on_timeout fuel env st s w =
     (case st of
        Idle \<Rightarrow> Some (on_timeout_idle env s w)
      | Link_check \<Rightarrow> Some (on_timeout_link_check env s w)
      | Running reschedule \<Rightarrow> on_timeout_running fuel env reschedule s w
      | Blocked remaining e \<Rightarrow> on_timeout_blocked fuel env remaining e s w)"

subsection \<open>Transitions\<close>

definition schedule_active :: "('w, 'p) env \<Rightarrow> nat \<Rightarrow> 'w \<Rightarrow> nat \<Rightarrow> 'p scheduler \<Rightarrow> 'p scheduler" where
  "schedule_active env now w key s =
     (if source_active env key w then push (now + next_deadline env key w, key) s else s)"

definition on_transition_running :: "('w, 'p) env \<Rightarrow> 'p scheduler \<Rightarrow> 'w \<Rightarrow> state \<times> 'p scheduler \<times> 'w" where
  "on_transition_running env s w =
     (let (now, w) = clock_now env w;
          s = (if m_schedule s = []
               then (fold (schedule_active env now w) (get_sources env w) s)\<lparr>m_time_reschedule := now + schedule_poll\<rparr> else s) in
        case m_schedule s of
          [] \<Rightarrow> (Running True, set_timer_oneshot (max min_poll (m_time_reschedule s - now)) s, w)
        | (deadline, key) # rest \<Rightarrow>
            if m_time_reschedule s \<le> deadline
            then (Running True, set_timer_oneshot (max min_poll (m_time_reschedule s - now)) s, w)
            else (Running False, set_timer_oneshot (max min_poll (deadline - now)) s, w))"

definition on_transition :: "('w, 'p) env \<Rightarrow> state \<Rightarrow> 'p scheduler \<Rightarrow> 'w \<Rightarrow> state \<times> 'p scheduler \<times> 'w" where
  "on_transition env st s w =
     (case st of
        Idle \<Rightarrow> (Idle, set_timer_interval idle_poll s, w)
      | Link_check \<Rightarrow>
          (Link_check, set_timer_interval link_poll (s\<lparr>m_buffer := [], m_schedule := []\<rparr>), free_packets env (m_buffer s) w)
      | Running _ \<Rightarrow> on_transition_running env s w
      | Blocked remaining e \<Rightarrow> (Blocked remaining e, set_timer_oneshot block_poll s, w))"

text \<open>One wake-up: a one-shot timer that has fired is no longer armed.\<close>

definition fire :: "timer \<Rightarrow> timer" where
  "fire t = (case t of Interval ns \<Rightarrow> Interval ns | _ \<Rightarrow> Disarmed)"

definition run_scheduler :: "nat \<Rightarrow> ('w, 'p) env \<Rightarrow> state \<times> 'p scheduler \<times> 'w \<Rightarrow> (state \<times> 'p scheduler \<times> 'w) option" where
  "run_scheduler fuel env c =
     (case c of (st, s, w) \<Rightarrow>
        (case on_timeout fuel env st (s\<lparr>m_timer := fire (m_timer s)\<rparr>) w of
           None \<Rightarrow> None
         | Some (None, st, s, w) \<Rightarrow> Some (st, s, w)
         | Some (Some st, _, s, w) \<Rightarrow> Some (on_transition env st s w)))"


subsection \<open>Bursts\<close>

lemma sum_distribute:
  assumes "0 < k"
  shows "sum_list (map (distribute t k) [0..<k]) = t"
proof -
  let ?m = "t mod k" and ?d = "t div k"
  have m: "?m < k" using assms by simp
  have split: "[0..<k] = [0..<?m] @ [?m..<k]" using m upt_add_eq_append [of 0 ?m "k - ?m"] by simp
  have "map (distribute t k) [0..<?m] = replicate ?m (?d + 1)" "map (distribute t k) [?m..<k] = replicate (k - ?m) ?d"
    by (auto simp: distribute_def intro!: replicate_eqI)
  then have "sum_list (map (distribute t k) [0..<k]) = ?m * (?d + 1) + (k - ?m) * ?d"
    by (simp only: split map_append sum_list_append sum_list_replicate) simp
  also have "\<dots> = ?m + (?m + (k - ?m)) * ?d" by (simp only: distrib_left distrib_right)
  also have "\<dots> = t" using m by simp
  finally show ?thesis .
qed

lemma distribute_le:
  assumes "t \<le> k * b" "n < k"
  shows "distribute t k n \<le> b"
proof (cases "n < t mod k")
  case True
  then have "k * (t div k) < t" using mult_div_mod_eq [of k t] by linarith
  then have "k * (t div k) < k * b" using assms(1) by linarith
  then show ?thesis using True by (simp add: distribute_def)
next
  case False
  have "t div k \<le> (k * b) div k" using assms(1) by (rule div_le_mono)
  then show ?thesis using False assms(2) by (simp add: distribute_def)
qed

definition bursts_of :: "nat \<Rightarrow> nat list" where
  "bursts_of burst_size = map (distribute burst_size ((burst_size + 63) div 64)) [0..<(burst_size + 63) div 64]"

lemma do_transmit_bursts: "do_transmit env key n u w = transmit_bursts env key (bursts_of n) 0 u w"
  by (simp add: do_transmit_def bursts_of_def pkt_burst_size_def Let_def)

lemma bursts_of_sum: "sum_list (bursts_of n) = n"
proof (cases "n = 0")
  case False
  then have "0 < (n + 63) div 64" by (simp add: div_greater_zero_iff)
  then show ?thesis unfolding bursts_of_def by (rule sum_distribute)
qed (simp add: bursts_of_def)

lemma bursts_of_le: "b \<in> set (bursts_of n) \<Longrightarrow> b \<le> 64"
proof -
  have "n \<le> (n + 63) div 64 * 64"
    using dividend_less_div_times [of 64 "n + 63"] by simp
  then show "b \<in> set (bursts_of n) \<Longrightarrow> b \<le> 64" by (auto simp: bursts_of_def intro!: distribute_le)
qed

subsection \<open>What the environment guarantees\<close>

definition env_ok :: "('w, 'p) env \<Rightarrow> bool" where
  "env_ok env \<longleftrightarrow> (\<forall>w. distinct (get_sources env w)) \<and> (\<forall>key n w. length (fst (source_pull env key n w)) \<le> n)
     \<and> (\<forall>ps w. fst (tx_burst env ps w) \<le> length ps)"

lemma env_okD:
  assumes "env_ok env"
  shows "distinct (get_sources env w)" "source_pull env key n w = (ps, w') \<Longrightarrow> length ps \<le> n"
    "tx_burst env ps w = (k, w') \<Longrightarrow> k \<le> length ps"
  using assms unfolding env_ok_def by (metis fst_conv)+

lemma transmit_bursts_cases:
  assumes "transmit_bursts env key (b # bs) t u w = (t', u', w')"
  obtains (Unprepared) ps w1 n where "source_pull env key b w = (ps, w1)" "tx_prepare env ps w1 = (n, w')" "n \<noteq> length ps"
      "t' = t" "u' = u @ ps"
  | (Full) ps w1 w2 k w3 j where "source_pull env key b w = (ps, w1)" "tx_prepare env ps w1 = (length ps, w2)"
      "tx_burst env ps w2 = (k, w3)" "tx_burst env (drop k ps) (packet_wait env (length ps - k) w3) = (j, w')"
      "k + j < length ps" "t' = t + (k + j)" "u' = u @ drop (k + j) ps"
  | (Retried) ps w1 w2 k w3 j w5 where "source_pull env key b w = (ps, w1)" "tx_prepare env ps w1 = (length ps, w2)"
      "tx_burst env ps w2 = (k, w3)" "tx_burst env (drop k ps) (packet_wait env (length ps - k) w3) = (j, w5)"
      "\<not> k + j < length ps" "transmit_bursts env key bs (t + (k + j)) u w5 = (t', u', w')"
  | (Sent) ps w1 w2 k w3 where "source_pull env key b w = (ps, w1)" "tx_prepare env ps w1 = (length ps, w2)"
      "tx_burst env ps w2 = (k, w3)" "\<not> k < length ps" "transmit_bursts env key bs (t + k) u w3 = (t', u', w')"
proof -
  obtain ps w1 where p: "source_pull env key b w = (ps, w1)" by (cases "source_pull env key b w")
  obtain n w2 where n: "tx_prepare env ps w1 = (n, w2)" by (cases "tx_prepare env ps w1")
  obtain k w3 where k: "tx_burst env ps w2 = (k, w3)" by (cases "tx_burst env ps w2")
  let ?w4 = "packet_wait env (length ps - k) w3"
  obtain j w5 where j: "tx_burst env (drop k ps) ?w4 = (j, w5)" by (cases "tx_burst env (drop k ps) ?w4")
  consider "n \<noteq> length ps" | "n = length ps" "k < length ps" "k + j < length ps" | "n = length ps" "k < length ps" "\<not> k + j < length ps"
    | "n = length ps" "\<not> k < length ps" by blast
  then show ?thesis
  proof cases
    case 1
    then show ?thesis using assms p n Unprepared by simp
  next
    case 2
    then show ?thesis using assms p n k j Full by (simp add: Let_def)
  next
    case 3
    then show ?thesis using assms p n k j Retried by (simp add: Let_def)
  next
    case 4
    then show ?thesis using assms p n k Sent by (simp add: Let_def)
  qed
qed

lemma transmit_bursts_bound:
  assumes "env_ok env"
  shows "transmit_bursts env key bs t u w = (t', u', w') \<Longrightarrow> t' + length u' \<le> t + length u + sum_list bs"
proof (induction bs arbitrary: t u w)
  case (Cons b bs)
  note ok = env_okD(2,3) [OF assms]
  from Cons.prems show ?case
  proof (cases rule: transmit_bursts_cases)
    case (Retried ps w1 w2 k w3 j w5)
    then show ?thesis using Cons.IH [OF Retried(6)] ok(1) [OF Retried(1)] ok(2) [OF Retried(3)] ok(2) [OF Retried(4)] by simp
  next
    case (Sent ps w1 w2 k w3)
    then show ?thesis using Cons.IH [OF Sent(5)] ok(1) [OF Sent(1)] ok(2) [OF Sent(3)] by simp
  qed (use ok(1) in force)+
qed simp

lemma do_transmit_bound:
  assumes "env_ok env" "do_transmit env key n u w = (t, u', w')"
  shows "t + length u' \<le> length u + n"
  using transmit_bursts_bound [OF assms(1)] assms(2) by (fastforce simp: do_transmit_bursts bursts_of_sum)


subsection \<open>The schedule\<close>

abbreviation keys :: "'p scheduler \<Rightarrow> nat list" where
  "keys s \<equiv> map snd (m_schedule s)"

definition ordered :: "'p scheduler \<Rightarrow> bool" where
  "ordered s \<longleftrightarrow> distinct (keys s) \<and> sorted (map fst (m_schedule s))"

lemma push_entry_keys: "mset (push_entry e q) = add_mset e (mset q)"
  by (induction q) auto

lemma push_entry_sorted: "sorted (map fst q) \<Longrightarrow> sorted (map fst (push_entry e q))"
proof (induction q)
  case (Cons x q)
  have "set (push_entry e q) = insert e (set q)" using push_entry_keys [of e q] by (metis set_mset_add_mset_insert set_mset_mset)
  then show ?case using Cons by auto
qed simp

lemma push_simps [simp]: "m_buffer (push e s) = m_buffer s" "m_timer (push e s) = m_timer s"
  by (simp_all add: push_def)

lemma push_keys: "mset (keys (push e s)) = add_mset (snd e) (mset (keys s))"
  using push_entry_keys [of e "m_schedule s"] by (simp add: push_def)

lemma push_set_keys [simp]: "set (keys (push e s)) = insert (snd e) (set (keys s))"
  using push_keys [of e s] by (metis set_mset_add_mset_insert set_mset_mset)

lemma push_ordered: "ordered s \<Longrightarrow> snd e \<notin> set (keys s) \<Longrightarrow> ordered (push e s)"
proof -
  assume s: "ordered s" "snd e \<notin> set (keys s)"
  have "distinct (keys (push e s))"
    using s push_keys [of e s] by (metis distinct.simps(2) mset.simps(2) mset_eq_imp_distinct_iff ordered_def)
  then show ?thesis using s(1) push_entry_sorted by (auto simp: ordered_def push_def)
qed

lemma reschedule_ordered: "ordered s \<Longrightarrow> ordered (reschedule_one env now w key s)"
  by (simp add: reschedule_one_def push_ordered)

lemma reschedule_one_buffer [simp]: "m_buffer (reschedule_one env now w key s) = m_buffer s"
  by (simp add: reschedule_one_def)

lemma do_reschedule_ordered: "ordered s \<Longrightarrow> ordered (do_reschedule env now w s)"
proof -
  have "ordered s \<Longrightarrow> ordered (fold (reschedule_one env now w) ks s)" for ks
    by (induction ks arbitrary: s) (auto simp: reschedule_ordered)
  then show "ordered s \<Longrightarrow> ordered (do_reschedule env now w s)" by (simp add: do_reschedule_def ordered_def Let_def)
qed

lemma do_reschedule_buffer [simp]: "m_buffer (do_reschedule env now w s) = m_buffer s"
proof -
  have "m_buffer (fold (reschedule_one env now w) ks s) = m_buffer s" for ks by (induction ks arbitrary: s) auto
  then show ?thesis by (simp add: do_reschedule_def Let_def)
qed

lemma schedule_active_one:
  assumes "ordered s" "k \<notin> set (keys s)"
  shows "ordered (schedule_active env now w k s)" "set (keys (schedule_active env now w k s)) \<subseteq> insert k (set (keys s))"
  using assms push_ordered [of s] push_set_keys [of "(now + next_deadline env k w, k)" s]
  by (auto simp: schedule_active_def)

lemma schedule_active_ordered:
  "ordered s \<Longrightarrow> distinct ks \<Longrightarrow> set ks \<inter> set (keys s) = {} \<Longrightarrow> ordered (fold (schedule_active env now w) ks s)"
proof (induction ks arbitrary: s)
  case (Cons k ks)
  let ?s = "schedule_active env now w k s"
  have k: "k \<notin> set (keys s)" using Cons.prems(3) by simp
  note one = schedule_active_one [OF Cons.prems(1) k, of env now w]
  then have "set ks \<inter> set (keys ?s) = {}" using Cons.prems(2,3) by auto
  then show ?case using Cons.IH [of ?s] one Cons.prems(2) by simp
qed simp

lemma schedule_active_buffer [simp]: "m_buffer (fold (schedule_active env now w) ks s) = m_buffer s"
  by (induction ks arbitrary: s) (auto simp: schedule_active_def)

definition sched_inv :: "state \<Rightarrow> 'p scheduler \<Rightarrow> bool" where
  "sched_inv st s \<longleftrightarrow> ordered s \<and> (case st of Blocked n e \<Rightarrow> snd e \<notin> set (keys s) | _ \<Rightarrow> m_buffer s = [])"

lemma running_loop_cases:
  assumes "running_loop (Suc fuel) env now s w = Some (nx, now', s', w')" "m_buffer s = []"
  obtains (Empty) "m_schedule s = []" "nx = None" "s' = s" "w' = w"
  | (Early) d k rest where "m_schedule s = (d, k) # rest" "clock_now env w = (now', w')" "now' < d" "nx = None" "s' = s"
  | (Gone) d k rest now1 w1 where "m_schedule s = (d, k) # rest" "clock_now env w = (now1, w1)" "d \<le> now1"
      "running_loop fuel env now1 (s\<lparr>m_schedule := rest\<rparr>) w1 = Some (nx, now', s', w')"
  | (Full) d k rest w1 t u n where "m_schedule s = (d, k) # rest" "clock_now env w = (now', w1)" "d \<le> now'"
      "do_transmit env k (source_burst_size env k w1) [] w1 = (t, u, w')" "u \<noteq> []" "\<not> drop_tx_overruns env"
      "nx = Some (Blocked n (d, k))" "s' = s\<lparr>m_schedule := rest, m_buffer := u\<rparr>"
  | (Served) d k rest now1 w1 t u w2 w3 s3 where "m_schedule s = (d, k) # rest" "clock_now env w = (now1, w1)" "d \<le> now1"
      "do_transmit env k (source_burst_size env k w1) [] w1 = (t, u, w2)"
      "w3 = (if u \<noteq> [] then drop_packets env k u w2 else w2)"
      "s3 = (if source_active env k w3 then push (d + next_deadline env k w3, k) (s\<lparr>m_schedule := rest\<rparr>) else s\<lparr>m_schedule := rest\<rparr>)"
      "running_loop fuel env now1 s3 w3 = Some (nx, now', s', w')"
proof (cases "m_schedule s")
  case Nil
  then show ?thesis using assms by (intro Empty) auto
next
  case (Cons d_k rest)
  obtain d k where dk: "d_k = (d, k)" by (cases d_k)
  obtain now1 w1 where c: "clock_now env w = (now1, w1)" by (cases "clock_now env w")
  let ?s = "s\<lparr>m_schedule := rest\<rparr>"
  obtain t u w2 where t: "do_transmit env k (source_burst_size env k w1) [] w1 = (t, u, w2)"
    by (cases "do_transmit env k (source_burst_size env k w1) [] w1") auto
  consider "\<not> d \<le> now1" | "d \<le> now1" "\<not> get_source env k w1" | "d \<le> now1" "get_source env k w1" "u \<noteq> [] \<and> \<not> drop_tx_overruns env"
    | "d \<le> now1" "get_source env k w1" "\<not> (u \<noteq> [] \<and> \<not> drop_tx_overruns env)" by blast
  then show ?thesis
  proof cases
    case 1
    then show ?thesis using assms(1) Cons dk c by (intro Early) auto
  next
    case 2
    then show ?thesis using assms(1) Cons dk c by (intro Gone) auto
  next
    case 3
    then show ?thesis using assms Cons dk c t by (intro Full) auto
  next
    case 4
    let ?w3 = "if u \<noteq> [] then drop_packets env k u w2 else w2"
    let ?s3 = "if source_active env k ?w3 then push (d + next_deadline env k ?w3, k) ?s else ?s"
    have s2: "s\<lparr>m_schedule := rest, m_buffer := []\<rparr> = s\<lparr>m_schedule := rest\<rparr>" using assms(2) by simp
    have "running_loop fuel env now1 ?s3 ?w3 = Some (nx, now', s', w')"
      using 4 assms Cons dk c t by (auto simp: Let_def s2 split: if_splits)
    with 4 show ?thesis using Cons dk c t by (intro Served) auto
  qed
qed

lemma running_loop_inv:
  "running_loop fuel env now s w = Some (nx, now', s', w') \<Longrightarrow> ordered s \<Longrightarrow> m_buffer s = [] \<Longrightarrow>
   ordered s' \<and> (case nx of None \<Rightarrow> m_buffer s' = [] \<and> (m_schedule s' = [] \<or> now' < fst (hd (m_schedule s')))
     | Some st \<Rightarrow> m_buffer s' \<noteq> [] \<and> (\<exists>n e. st = Blocked n e \<and> snd e \<notin> set (keys s')))"
proof (induction fuel arbitrary: now s w)
  case (Suc fuel)
  have rest: "ordered (s\<lparr>m_schedule := rest\<rparr>)" "k \<notin> snd ` set rest" if "m_schedule s = (d, k) # rest" for d k rest
    using Suc.prems(2) that by (auto simp: ordered_def)
  from Suc.prems(1,3) show ?case
  proof (cases rule: running_loop_cases)
    case (Gone d k rest now1 w1)
    then show ?thesis using Suc.IH [OF Gone(4)] Suc.prems(3) rest [OF Gone(1)] by simp
  next
    case (Full d k rest w1 t u n)
    then show ?thesis using rest [OF Full(1)] by (auto simp: ordered_def)
  next
    case (Served d k rest now1 w1 t u w2 w3 s3)
    have "ordered s3" "m_buffer s3 = []" 
      using Served(6) rest [OF Served(1)] Suc.prems(3) push_ordered [of "s\<lparr>m_schedule := rest\<rparr>" "(d + next_deadline env k w3, k)"]
      by (auto split: if_splits)
    then show ?thesis by (rule Suc.IH [OF Served(7)])
  qed (use Suc.prems in auto)
qed simp

definition handled_inv :: "('w, 'p) handled \<Rightarrow> bool" where
  "handled_inv h = (case h of (nx, st, s, w) \<Rightarrow>
     (case nx of None \<Rightarrow> sched_inv st s | Some Link_check \<Rightarrow> True | Some st \<Rightarrow> sched_inv st s))"

lemma timer_simps [simp]:
  "m_buffer (set_timer_oneshot n s) = m_buffer s" "m_schedule (set_timer_oneshot n s) = m_schedule s"
  "m_buffer (set_timer_interval n s) = m_buffer s" "m_schedule (set_timer_interval n s) = m_schedule s"
  "ordered (set_timer_oneshot n s) = ordered s" "ordered (set_timer_interval n s) = ordered s"
  "ordered (s\<lparr>m_timer := t\<rparr>) = ordered s" "ordered (s\<lparr>m_buffer := b\<rparr>) = ordered s" "ordered (s\<lparr>m_time_reschedule := t2\<rparr>) = ordered s"
  by (simp_all add: set_timer_oneshot_def set_timer_interval_def ordered_def)

lemma on_timeout_running_cases:
  assumes "on_timeout_running fuel env r s w = Some (nx, st, s', w')"
  obtains (Down) "link_down env w = (True, w')" "nx = Some Link_check" "st = Running r" "s' = s"
  | (Blocks) w1 s2 w2 now st2 where "link_down env w = (False, w1)" "refresh env r s w1 = (s2, w2)"
      "running_loop fuel env 0 s2 w2 = Some (Some st2, now, s', w')" "nx = Some st2" "st = Running False"
  | (Waits) w1 s2 w2 now s3 where "link_down env w = (False, w1)" "refresh env r s w1 = (s2, w2)"
      "running_loop fuel env 0 s2 w2 = Some (None, now, s3, w')" "set_next_event now s3 = (nx, st, s')"
proof -
  obtain down w1 where d: "link_down env w = (down, w1)" by (cases "link_down env w")
  obtain s2 w2 where r: "refresh env r s w1 = (s2, w2)" by (cases "refresh env r s w1")
  show ?thesis
  proof (cases down)
    case True
    then show ?thesis using assms d by (intro Down) (auto simp: on_timeout_running_def)
  next
    case False
    then obtain nx1 now s3 w3 where l: "running_loop fuel env 0 s2 w2 = Some (nx1, now, s3, w3)"
      using assms d r by (cases "running_loop fuel env 0 s2 w2") (auto simp: on_timeout_running_def)
    show ?thesis
    proof (cases nx1)
      case None
      then show ?thesis using assms d r l False
        by (intro Waits [of w1 s2 w2 now s3]) (auto simp: on_timeout_running_def split: prod.splits)
    next
      case (Some st2)
      then show ?thesis using assms d r l False by (intro Blocks [of w1 s2 w2 st2 now]) (auto simp: on_timeout_running_def)
    qed
  qed
qed

lemma refresh_ordered:
  assumes "refresh env r s w = (s', w')" "ordered s" "m_buffer s = []"
  shows "ordered s'" "m_buffer s' = []"
  using assms do_reschedule_ordered [OF assms(2)] by (auto simp: refresh_def split: if_splits prod.splits)

lemma set_next_event_frame:
  assumes "set_next_event now s = (nx, st, s')"
  shows "m_buffer s' = m_buffer s" "ordered s' = ordered s" "nx = None \<or> nx = Some Idle" "\<exists>b. st = Running b"
  using assms by (auto simp: set_next_event_def split: list.splits if_splits)

lemma on_timeout_running_inv:
  assumes "on_timeout_running fuel env r s w = Some (nx, st, s', w')" "ordered s" "m_buffer s = []"
  shows "handled_inv (nx, st, s', w') \<and> (\<exists>b. st = Running b)"
  using assms(1)
proof (cases rule: on_timeout_running_cases)
  case (Blocks w1 s2 w2 now st2)
  show ?thesis using running_loop_inv [OF Blocks(3) refresh_ordered [OF Blocks(2) assms(2,3)]] Blocks(4,5)
    by (auto simp: handled_inv_def sched_inv_def)
next
  case (Waits w1 s2 w2 now s3)
  show ?thesis using running_loop_inv [OF Waits(3) refresh_ordered [OF Waits(2) assms(2,3)]] set_next_event_frame [OF Waits(4)]
    by (auto simp: handled_inv_def sched_inv_def)
qed (simp add: handled_inv_def)

lemma on_timeout_blocked_cases:
  assumes "on_timeout_blocked fuel env n e s w = Some (nx, st, s', w')"
  obtains (Down) "link_down env w = (True, w')" "nx = Some Link_check" "s' = s"
  | (Gone) "link_down env w = (False, w')" "\<not> get_source env (snd e) w'" "nx = Some (Running False) \<or> nx = Some Idle"
      "s' = s\<lparr>m_buffer := []\<rparr>"
  | (Unprepared) w1 k where "link_down env w = (False, w1)" "get_source env (snd e) w1" "tx_prepare env (m_buffer s) w1 = (k, w')"
      "k \<noteq> length (m_buffer s)" "nx = None" "st = Blocked n e" "s' = s"
  | (Partial) w1 w2 k where "link_down env w = (False, w1)" "get_source env (snd e) w1"
      "tx_prepare env (m_buffer s) w1 = (length (m_buffer s), w2)" "tx_burst env (m_buffer s) w2 = (k, w')" "k < length (m_buffer s)"
      "nx = None" "st = Blocked n e" "s' = set_timer_oneshot block_poll (s\<lparr>m_buffer := drop k (m_buffer s)\<rparr>)"
  | (Again) w1 w2 k w3 t u where "link_down env w = (False, w1)" "get_source env (snd e) w1"
      "tx_prepare env (m_buffer s) w1 = (length (m_buffer s), w2)" "tx_burst env (m_buffer s) w2 = (k, w3)" "\<not> k < length (m_buffer s)"
      "do_transmit env (snd e) n [] w3 = (t, u, w')" "t < n"
      "nx = None" "st = Blocked (n - t) e" "s' = set_timer_oneshot block_poll (s\<lparr>m_buffer := u\<rparr>)"
  | (Cleared) w1 w2 k w3 t u w4 s5 w5 where "link_down env w = (False, w1)" "get_source env (snd e) w1"
      "tx_prepare env (m_buffer s) w1 = (length (m_buffer s), w2)" "tx_burst env (m_buffer s) w2 = (k, w3)" "\<not> k < length (m_buffer s)"
      "do_transmit env (snd e) n [] w3 = (t, u, w4)" "\<not> t < n"
      "resume_source env (snd e) (s\<lparr>m_buffer := u\<rparr>) w4 = (s5, w5)"
      "blocked_cleared fuel env (Blocked n e) s5 w5 = Some (nx, st, s', w')"
proof -
  obtain down w1 where d: "link_down env w = (down, w1)" by (cases "link_down env w")
  obtain p w2 where p: "tx_prepare env (m_buffer s) w1 = (p, w2)" by (cases "tx_prepare env (m_buffer s) w1")
  obtain k w3 where k: "tx_burst env (m_buffer s) w2 = (k, w3)" by (cases "tx_burst env (m_buffer s) w2")
  obtain t u w4 where t: "do_transmit env (snd e) n [] w3 = (t, u, w4)" by (cases "do_transmit env (snd e) n [] w3") auto
  obtain s5 w5 where s5: "resume_source env (snd e) (s\<lparr>m_buffer := u\<rparr>) w4 = (s5, w5)"
    by (cases "resume_source env (snd e) (s\<lparr>m_buffer := u\<rparr>) w4")
  consider down | "\<not> down" "\<not> get_source env (snd e) w1"
    | "\<not> down" "get_source env (snd e) w1" "p \<noteq> length (m_buffer s)"
    | "\<not> down" "get_source env (snd e) w1" "p = length (m_buffer s)" "k < length (m_buffer s)"
    | "\<not> down" "get_source env (snd e) w1" "p = length (m_buffer s)" "\<not> k < length (m_buffer s)" "t < n"
    | "\<not> down" "get_source env (snd e) w1" "p = length (m_buffer s)" "\<not> k < length (m_buffer s)" "\<not> t < n"
    by blast
  then show ?thesis
  proof cases
    case 1
    then show ?thesis using assms d by (intro Down) (simp_all add: on_timeout_blocked_def)
  next
    case 2
    then show ?thesis using assms d by (intro Gone) (auto simp: on_timeout_blocked_def split: if_splits)
  next
    case 3
    have "on_timeout_blocked fuel env n e s w = Some (None, Blocked n e, s, w2)"
      using 3 by (simp only: on_timeout_blocked_def d p Let_def prod.case if_False if_True not_True_eq_False simp_thms)
    then show ?thesis using 3 assms d p by (intro Unprepared) simp_all
  next
    case 4
    have "on_timeout_blocked fuel env n e s w =
        Some (None, Blocked n e, set_timer_oneshot block_poll (s\<lparr>m_buffer := drop k (m_buffer s)\<rparr>), w3)"
      using 4 by (simp only: on_timeout_blocked_def d p k Let_def prod.case if_False if_True not_True_eq_False simp_thms)
    then show ?thesis using 4 assms d p k by (intro Partial) simp_all
  next
    case 5
    have "on_timeout_blocked fuel env n e s w =
        Some (None, Blocked (n - t) e, set_timer_oneshot block_poll (s\<lparr>m_buffer := u\<rparr>), w4)"
      using 5 by (simp only: on_timeout_blocked_def d p k t Let_def prod.case if_False if_True not_True_eq_False simp_thms)
    then show ?thesis using 5 assms d p k t by (intro Again) simp_all
  next
    case 6
    have "on_timeout_blocked fuel env n e s w = blocked_cleared fuel env (Blocked n e) s5 w5"
      using 6 by (simp only: on_timeout_blocked_def d p k t s5 Let_def prod.case if_False if_True not_True_eq_False simp_thms)
    then show ?thesis using 6 assms d p k t s5 by (intro Cleared) simp_all
  qed
qed

lemma resume_source_ordered:
  assumes "ordered s" "k \<notin> set (keys s)" "resume_source env k s w = (s', w')"
  shows "ordered s'" "m_buffer s' = m_buffer s"
  using assms push_ordered [OF assms(1), of "(fst (clock_now env w), k)"]
  by (auto simp: resume_source_def split: if_splits prod.splits)

lemma blocked_cleared_inv:
  assumes "blocked_cleared fuel env st0 s w = Some (nx, st, s', w')" "ordered s" "m_buffer s = []"
  shows "handled_inv (nx, st, s', w')"
proof (cases "have_active_sources env w")
  case True
  then obtain nx0 st1 where r: "on_timeout_running fuel env False s w = Some (nx0, st1, s', w')"
      and nx: "nx = Some (case nx0 of Some st \<Rightarrow> st | None \<Rightarrow> Running False)"
    using assms(1) by (auto simp: blocked_cleared_def split: option.splits prod.splits)
  show ?thesis using on_timeout_running_inv [OF r assms(2,3)] nx
    by (auto simp: handled_inv_def sched_inv_def split: option.splits state.splits)
next
  case False
  then show ?thesis using assms by (auto simp: blocked_cleared_def handled_inv_def sched_inv_def)
qed

lemma on_timeout_blocked_inv:
  assumes "env_ok env" "on_timeout_blocked fuel env n e s w = Some (nx, st, s', w')" "sched_inv (Blocked n e) s"
  shows "handled_inv (nx, st, s', w')"
  using assms(2)
proof (cases rule: on_timeout_blocked_cases)
  case (Cleared w1 w2 k w3 t u w4 s5 w5)
  have u: "u = []" using do_transmit_bound [OF assms(1) Cleared(6)] Cleared(7) by (cases u) auto
  have "ordered s5" "m_buffer s5 = []"
    using assms(3) resume_source_ordered [OF _ _ Cleared(8)] u by (auto simp: sched_inv_def)
  then show ?thesis by (rule blocked_cleared_inv [OF Cleared(9)])
qed (use assms(3) in \<open>auto simp: handled_inv_def sched_inv_def\<close>)

lemma on_timeout_inv:
  assumes "env_ok env" "on_timeout fuel env st s w = Some h" "sched_inv st s"
  shows "handled_inv h"
proof (cases st)
  case Idle
  then show ?thesis using assms(2,3)
    by (auto simp: on_timeout_def on_timeout_idle_def handled_inv_def sched_inv_def split: prod.splits if_splits)
next
  case Link_check
  then show ?thesis using assms(2,3)
    by (auto simp: on_timeout_def on_timeout_link_check_def handled_inv_def sched_inv_def split: prod.splits if_splits)
next
  case (Running r)
  then show ?thesis using assms(2,3) on_timeout_running_inv [of fuel env r s w]
    by (cases h) (auto simp: on_timeout_def sched_inv_def)
next
  case (Blocked n e)
  then show ?thesis using assms on_timeout_blocked_inv [of env fuel n e s w] by (cases h) (auto simp: on_timeout_def)
qed

lemma on_transition_running_inv:
  assumes "distinct (get_sources env (snd (clock_now env w)))" "ordered s" "m_buffer s = []"
    and "on_transition_running env s w = (st, s', w')"
  shows "sched_inv st s'"
proof -
  obtain now w1 where c: "clock_now env w = (now, w1)" by (cases "clock_now env w")
  have "ordered (fold (schedule_active env now w1) (get_sources env w1) s)" if "m_schedule s = []"
    using assms(1,2) that c by (intro schedule_active_ordered) auto
  then show ?thesis using assms(2-4) c
    by (auto simp: on_transition_running_def sched_inv_def Let_def split: list.splits if_splits)
qed

lemma on_transition_inv:
  assumes "env_ok env" "st \<noteq> Link_check \<longrightarrow> sched_inv st s" "on_transition env st s w = (st', s', w')"
  shows "sched_inv st' s'"
proof (cases st)
  case (Running b)
  then show ?thesis using assms on_transition_running_inv [OF env_okD(1) [OF assms(1)]]
    by (auto simp: on_transition_def sched_inv_def)
qed (use assms in \<open>auto simp: on_transition_def sched_inv_def ordered_def set_timer_interval_def\<close>)

lemma run_scheduler_inv:
  assumes "env_ok env" "run_scheduler fuel env (st, s, w) = Some (st', s', w')" "sched_inv st s"
  shows "sched_inv st' s'"
proof -
  let ?s = "s\<lparr>m_timer := fire (m_timer s)\<rparr>"
  obtain nx st1 s1 w1 where h: "on_timeout fuel env st ?s w = Some (nx, st1, s1, w1)"
    using assms(2) by (auto simp: run_scheduler_def split: option.splits prod.splits)
  have "sched_inv st ?s" using assms(3) by (cases st) (auto simp: sched_inv_def)
  then have inv: "handled_inv (nx, st1, s1, w1)" by (rule on_timeout_inv [OF assms(1) h])
  show ?thesis
  proof (cases nx)
    case None
    then show ?thesis using assms(2) h inv by (auto simp: run_scheduler_def handled_inv_def)
  next
    case (Some st2)
    then have "on_transition env st2 s1 w1 = (st', s', w')" using assms(2) h by (simp add: run_scheduler_def)
    moreover have "st2 \<noteq> Link_check \<longrightarrow> sched_inv st2 s1"
      using inv Some by (auto simp: handled_inv_def split: state.splits)
    ultimately show ?thesis by (intro on_transition_inv [OF assms(1)])
  qed
qed

subsection \<open>Reachable states\<close>

text \<open>Between two wake-ups the world may change in any way: sources come, go, start and stop.\<close>

inductive reachable_scheduler :: "('w, 'p) env \<Rightarrow> state \<times> 'p scheduler \<times> 'w \<Rightarrow> bool" for env where
  boot: "reachable_scheduler env (Idle, scheduler_init, w)"
| wakeup: "reachable_scheduler env c \<Longrightarrow> run_scheduler fuel env c = Some c' \<Longrightarrow> reachable_scheduler env c'"
| change: "reachable_scheduler env (st, s, w) \<Longrightarrow> reachable_scheduler env (st, s, w')"

lemma reachable_invariant:
  assumes "env_ok env"
  shows "reachable_scheduler env c \<Longrightarrow> sched_inv (fst c) (fst (snd c))"
proof (induction rule: reachable_scheduler.induct)
  case (wakeup c fuel c')
  then show ?case using run_scheduler_inv [OF assms, of fuel "fst c" "fst (snd c)" "snd (snd c)"] by (cases c') auto
qed (auto simp: sched_inv_def scheduler_init_def ordered_def)

subsection \<open>The timer\<close>

definition armed :: "state \<Rightarrow> 'p scheduler \<Rightarrow> bool" where
  "armed st s \<longleftrightarrow> (case st of Idle \<Rightarrow> \<exists>ns. m_timer s = Interval ns | Link_check \<Rightarrow> \<exists>ns. m_timer s = Interval ns
     | _ \<Rightarrow> m_timer s \<noteq> Disarmed)"

lemma set_timer_oneshot_armed [simp]: "m_timer (set_timer_oneshot n s) = (if n = 0 then Disarmed else Oneshot n)"
  by (simp add: set_timer_oneshot_def)

lemma on_transition_armed:
  assumes "on_transition env st s w = (st', s', w')"
  shows "armed st' s'"
proof (cases st)
  case (Running b)
  then show ?thesis using assms
    by (auto simp: on_transition_def on_transition_running_def armed_def min_poll_def Let_def max_def
      split: list.splits if_splits prod.splits)
qed (use assms in \<open>auto simp: on_transition_def armed_def block_poll_def set_timer_interval_def\<close>)

lemma on_timeout_running_armed:
  assumes "on_timeout_running fuel env r s w = Some (None, st, s', w')" "ordered s" "m_buffer s = []"
  shows "armed st s'"
  using assms(1)
proof (cases rule: on_timeout_running_cases)
  case (Waits w1 s2 w2 now s3)
  show ?thesis using Waits(4) running_loop_inv [OF Waits(3) refresh_ordered [OF Waits(2) assms(2,3)]]
    by (auto simp: set_next_event_def armed_def min_poll_def max_def split: list.splits if_splits)
qed simp_all

lemma on_timeout_armed:
  assumes "\<And>ps w. fst (tx_prepare env ps w) = length ps" "sched_inv st s" "armed st s"
    and "on_timeout fuel env st (s\<lparr>m_timer := fire (m_timer s)\<rparr>) w = Some (None, st', s', w')"
  shows "armed st' s'"
proof (cases st)
  case Idle
  then show ?thesis using assms(3,4)
    by (auto simp: on_timeout_def on_timeout_idle_def armed_def fire_def split: prod.splits if_splits)
next
  case Link_check
  then show ?thesis using assms(3,4)
    by (auto simp: on_timeout_def on_timeout_link_check_def armed_def fire_def split: prod.splits if_splits)
next
  case (Running r)
  then show ?thesis using assms(2,4) on_timeout_running_armed by (fastforce simp: on_timeout_def sched_inv_def)
next
  case (Blocked n e)
  then have "on_timeout_blocked fuel env n e (s\<lparr>m_timer := fire (m_timer s)\<rparr>) w = Some (None, st', s', w')"
    using assms(4) by (simp add: on_timeout_def)
  then show ?thesis
  proof (cases rule: on_timeout_blocked_cases)
    case (Unprepared w1 k)
    then show ?thesis using assms(1) [of "m_buffer s" w1] by simp
  next
    case (Cleared w1 w2 k w3 t u w4 s5 w5)
    then show ?thesis by (auto simp: blocked_cleared_def split: if_splits option.splits)
  qed (auto simp: armed_def block_poll_def)
qed

lemma run_scheduler_armed:
  assumes "\<And>ps w. fst (tx_prepare env ps w) = length ps" "sched_inv st s" "armed st s"
    and "run_scheduler fuel env (st, s, w) = Some (st', s', w')"
  shows "armed st' s'"
proof -
  obtain nx st1 s1 w1 where h: "on_timeout fuel env st (s\<lparr>m_timer := fire (m_timer s)\<rparr>) w = Some (nx, st1, s1, w1)"
    using assms(4) by (auto simp: run_scheduler_def split: option.splits prod.splits)
  show ?thesis
  proof (cases nx)
    case None
    then show ?thesis using on_timeout_armed [OF assms(1-3)] assms(4) h by (auto simp: run_scheduler_def)
  next
    case (Some st2)
    then show ?thesis using assms(4) h by (auto simp: run_scheduler_def intro: on_transition_armed)
  qed
qed

subsection \<open>Rescheduling finds every active source\<close>

lemma catch_up_ge: "now \<le> catch_up t now"
  by (induction t now rule: catch_up.induct) (subst catch_up.simps, simp)

lemma fold_reschedule_keys:
  "set (keys (fold (reschedule_one env now w) ks s)) = set (keys s) \<union> {k \<in> set ks. source_active env k w}"
proof (induction ks arbitrary: s)
  case (Cons k ks)
  have "set (keys (reschedule_one env now w k s)) = set (keys s) \<union> {j \<in> {k}. source_active env j w}"
    using push_set_keys [of "(now + next_deadline env k w, k)" s] by (auto simp: reschedule_one_def)
  then show ?case using Cons [of "reschedule_one env now w k s"] by auto
qed simp

lemma do_reschedule_keys:
  "set (keys (do_reschedule env now w s)) = set (keys s) \<union> {k \<in> set (get_sources env w). source_active env k w}"
  using fold_reschedule_keys [of env now w "get_sources env w" s] by (simp add: do_reschedule_def Let_def)

subsection \<open>The running loop ends\<close>

text \<open>The time that the entries of the schedule may still advance before they pass \<open>T\<close>.\<close>

definition slack :: "nat \<Rightarrow> entry list \<Rightarrow> nat" where
  "slack T q = (\<Sum>e \<leftarrow> q. Suc (Suc T - fst e))"

lemma slack_push [simp]: "slack T (push_entry e q) = slack T (e # q)"
  by (induction q) (auto simp: slack_def)

lemma running_loop_ends:
  assumes "\<And>w. fst (clock_now env w) \<le> T" "\<And>key w. 0 < next_deadline env key w"
  shows "slack T (m_schedule s) < fuel \<Longrightarrow> \<exists>r. running_loop fuel env now s w = Some r"
proof (induction fuel arbitrary: now s w)
  case (Suc fuel)
  show ?case
  proof (cases "m_schedule s")
    case (Cons d_k rest)
    obtain d k where dk: "d_k = (d, k)" by (cases d_k)
    obtain now1 w1 where c: "clock_now env w = (now1, w1)" by (cases "clock_now env w")
    have T: "now1 \<le> T" using assms(1) [of w] c by simp
    obtain t u w2 where t: "do_transmit env k (source_burst_size env k w1) (m_buffer s) w1 = (t, u, w2)"
      by (cases "do_transmit env k (source_burst_size env k w1) (m_buffer s) w1") auto
    have rest: "slack T rest < fuel" using Suc.prems Cons by (simp add: slack_def)
    have again: "slack T (push_entry (d + next_deadline env k w3, k) rest) < fuel" if "d \<le> now1" for w3
      unfolding slack_push using Suc.prems Cons dk that T assms(2) [of k w3] by (simp add: slack_def)
    show ?thesis using Suc.IH rest again Cons dk c t by (auto simp: push_def Let_def)
  qed simp
qed simp

subsection \<open>Properties\<close>

text \<open>
  An example: one source, number 7, that sends three packets every 10 ns; the driver takes two packets at a time, and
  the world is the clock.
\<close>

definition sample_env :: "(nat, nat) env" where
  "sample_env =
     \<lparr>link_down = (\<lambda>w. (False, w)), clock_now = (\<lambda>w. (min w 1000, Suc w)), get_sources = (\<lambda>w. [7]),
      source_active = (\<lambda>key w. True), source_burst_size = (\<lambda>key w. 3), next_deadline = (\<lambda>key w. 10),
      source_pull = (\<lambda>key n w. (replicate n w, Suc w)), tx_prepare = (\<lambda>ps w. (length ps, w)),
      tx_burst = (\<lambda>ps w. (min (length ps) 1, w)), packet_wait = (\<lambda>n w. w), drop_packets = (\<lambda>key ps w. w),
      free_packets = (\<lambda>ps w. w), drop_tx_overruns = False\<rparr>"

lemma sample_env_ok: "env_ok sample_env"
  by (simp add: env_ok_def sample_env_def)

text \<open>Started, past the first deadline, and with the queue full.\<close>

definition sample_blocked :: "state \<times> nat scheduler \<times> nat" where
  "sample_blocked = (Blocked 0 (10, 7),
     \<lparr>m_buffer = [21], m_schedule = [], m_time_reschedule = 100000000, m_timer = Oneshot 100\<rparr>, 22)"

lemmas scheduler_code = run_scheduler_def on_timeout_def on_timeout_idle_def on_timeout_running_def on_timeout_blocked_def
  refresh_def set_next_event_def blocked_cleared_def on_transition_def on_transition_running_def schedule_active_def push_def
  set_timer_oneshot_def have_active_sources_def get_source_def do_transmit_def distribute_def pkt_burst_size_def
  scheduler_init_def fire_def min_poll_def schedule_poll_def idle_poll_def block_poll_def Let_def

lemma sample_start: "run_scheduler (Suc (Suc 0)) sample_env (Idle, scheduler_init, 0) =
    Some (Running False, \<lparr>m_buffer = [], m_schedule = [(10, 7)], m_time_reschedule = 100000000, m_timer = Oneshot 10\<rparr>, 1)"
  by (simp add: scheduler_code sample_env_def sample_blocked_def)

lemma sample_block: "run_scheduler (Suc (Suc 0)) sample_env
    (Running False, \<lparr>m_buffer = [], m_schedule = [(10, 7)], m_time_reschedule = 100000000, m_timer = Oneshot 10\<rparr>, 20) =
    Some sample_blocked"
  by (simp add: scheduler_code sample_env_def sample_blocked_def)

lemma sample_blocked_reachable: "reachable_scheduler sample_env sample_blocked"
  using wakeup [OF change [OF wakeup [OF boot sample_start]] sample_block] .

text \<open>
  C13: at every moment of a scheduler's life the schedule is ordered by deadline and holds no source twice;
  packets are buffered only in the blocked state, and the source that blocks is not in the schedule.
\<close>

theorem scheduler_invariant:
  assumes "env_ok env" "reachable_scheduler env (st, s, w)"
  shows "sorted (map fst (m_schedule s)) \<and> distinct (map snd (m_schedule s))
    \<and> (m_buffer s \<noteq> [] \<longrightarrow> (\<exists>remaining e. st = Blocked remaining e))
    \<and> (\<forall>remaining e. st = Blocked remaining e \<longrightarrow> snd e \<notin> set (map snd (m_schedule s)))"
  using reachable_invariant [OF assms] by (cases st) (force simp: sched_inv_def ordered_def)+

theorem scheduler_invariant_witness:
  "sorted (map fst (m_schedule (fst (snd sample_blocked)))) \<and> distinct (map snd (m_schedule (fst (snd sample_blocked))))
    \<and> (\<exists>remaining e. fst sample_blocked = Blocked remaining e) \<and> 7 \<notin> set (map snd (m_schedule (fst (snd sample_blocked))))"
  using scheduler_invariant [OF sample_env_ok sample_blocked_reachable [unfolded sample_blocked_def]]
  unfolding sample_blocked_def by simp

text \<open>
  C12: as long as the driver prepares the packets it is given, a scheduler never goes to sleep for good: whatever the
  sources, the link and the clock do between and during its wake-ups, its timer is armed.
\<close>

theorem scheduler_always_armed:
  assumes "env_ok env" "\<And>ps w. fst (tx_prepare env ps w) = length ps" "reachable_scheduler env c"
  shows "m_timer (fst (snd c)) \<noteq> Disarmed"
proof -
  have "armed (fst c) (fst (snd c))"
    using assms(3)
  proof (induction rule: reachable_scheduler.induct)
    case (wakeup c fuel c')
    then show ?case
      using run_scheduler_armed [OF assms(2) reachable_invariant [OF assms(1) wakeup(1)] wakeup(3), of fuel "snd (snd c)"]
      by (cases c') auto
  qed (simp_all add: armed_def scheduler_init_def)
  then show ?thesis by (cases "fst c") (auto simp: armed_def)
qed

theorem scheduler_always_armed_witness: "m_timer (fst (snd sample_blocked)) \<noteq> Disarmed"
  using scheduler_always_armed [OF sample_env_ok _ sample_blocked_reachable] by (simp add: sample_env_def)

text \<open>
  A wake-up of a running scheduler that is to reschedule leaves no active source behind: afterwards the schedule holds
  the sources it held and every active source of the table, each once and in order of deadline, and the time of
  the next rescheduling is not in the past.
\<close>

theorem reschedule_complete:
  assumes "ordered s"
  shows "set (map snd (m_schedule (do_reschedule env now w s))) =
      set (map snd (m_schedule s)) \<union> {key \<in> set (get_sources env w). source_active env key w}
    \<and> distinct (map snd (m_schedule (do_reschedule env now w s)))
    \<and> sorted (map fst (m_schedule (do_reschedule env now w s)))
    \<and> now \<le> m_time_reschedule (do_reschedule env now w s)"
  using do_reschedule_keys [of env now w s] do_reschedule_ordered [OF assms, of env now w] catch_up_ge
  by (simp add: ordered_def do_reschedule_def Let_def)

theorem reschedule_complete_witness:
  "set (map snd (m_schedule (do_reschedule sample_env 5 0 scheduler_init))) = {7}
    \<and> 5 \<le> m_time_reschedule (do_reschedule sample_env 5 0 scheduler_init)"
  using reschedule_complete [of scheduler_init sample_env 5 0] by (simp add: ordered_def scheduler_init_def sample_env_def)



text \<open>
  When the driver fails to prepare the packets of a blocked queue, the handler returns with the one-shot timer expired:
  the scheduler of a link that is up and of an active source never wakes up again.
\<close>

theorem blocked_scheduler_stalls:
  "reachable_scheduler (sample_env\<lparr>tx_prepare := \<lambda>ps w. (if w < 30 then length ps else 0, w)\<rparr>)
     (Blocked 0 (10, 7), \<lparr>m_buffer = [21], m_schedule = [], m_time_reschedule = 100000000, m_timer = Disarmed\<rparr>, 30)"
proof -
  let ?env = "sample_env\<lparr>tx_prepare := \<lambda>ps w. (if w < 30 then length ps else 0, w)\<rparr>"
  have 1: "run_scheduler (Suc (Suc 0)) ?env (Idle, scheduler_init, 0) =
      Some (Running False, \<lparr>m_buffer = [], m_schedule = [(10, 7)], m_time_reschedule = 100000000, m_timer = Oneshot 10\<rparr>, 1)"
    by (simp add: scheduler_code sample_env_def sample_blocked_def)
  have 2: "run_scheduler (Suc (Suc 0)) ?env
      (Running False, \<lparr>m_buffer = [], m_schedule = [(10, 7)], m_time_reschedule = 100000000, m_timer = Oneshot 10\<rparr>, 20) =
      Some sample_blocked" by (simp add: scheduler_code sample_env_def sample_blocked_def)
  have 3: "run_scheduler (Suc (Suc 0)) ?env (case sample_blocked of (st, s, w) \<Rightarrow> (st, s, 30)) =
      Some (Blocked 0 (10, 7), \<lparr>m_buffer = [21], m_schedule = [], m_time_reschedule = 100000000, m_timer = Disarmed\<rparr>, 30)"
    by (simp add: scheduler_code sample_env_def sample_blocked_def)
  show ?thesis
    using wakeup [OF change [OF wakeup [OF change [OF wakeup [OF boot 1]] 2, unfolded sample_blocked_def]] 3 [unfolded sample_blocked_def prod.case]] .
qed

end
