(* ===== verification/Tx_Ledger.thy ===== *)
theory Tx_Ledger
  imports Tx_Scheduler
begin

text \<open>
  What becomes of the packets that the transmit scheduler pulls from its sources: the environment is run
  beside a ledger, and every packet pulled is sent, freed, or in the buffer.
\<close>

subsection \<open>The packets\<close>

text \<open>
  A ledger of the packets that the sources handed out, that the driver took, and that were given back to
  their pool; \<open>traced\<close> runs an environment beside its ledger.
\<close>

record 'p ledger =
  pulled :: "'p list"
  sent :: "'p list"
  freed :: "'p list"

definition traced :: "('w, 'p) env \<Rightarrow> ('w \<times> 'p ledger, 'p) env" where
  "traced env =
     \<lparr>link_down = (\<lambda>(w, l). case link_down env w of (b, w) \<Rightarrow> (b, w, l)),
      clock_now = (\<lambda>(w, l). case clock_now env w of (now, w) \<Rightarrow> (now, w, l)),
      get_sources = (\<lambda>(w, l). get_sources env w),
      source_active = (\<lambda>key (w, l). source_active env key w),
      source_burst_size = (\<lambda>key (w, l). source_burst_size env key w),
      next_deadline = (\<lambda>key (w, l). next_deadline env key w),
      source_pull = (\<lambda>key n (w, l). case source_pull env key n w of (ps, w) \<Rightarrow> (ps, w, l\<lparr>pulled := pulled l @ ps\<rparr>)),
      tx_prepare = (\<lambda>ps (w, l). case tx_prepare env ps w of (n, w) \<Rightarrow> (n, w, l)),
      tx_burst = (\<lambda>ps (w, l). case tx_burst env ps w of (n, w) \<Rightarrow> (n, w, l\<lparr>sent := sent l @ take n ps\<rparr>)),
      packet_wait = (\<lambda>n (w, l). (packet_wait env n w, l)),
      drop_packets = (\<lambda>key ps (w, l). (drop_packets env key ps w, l\<lparr>freed := freed l @ ps\<rparr>)),
      free_packets = (\<lambda>ps (w, l). (free_packets env ps w, l\<lparr>freed := freed l @ ps\<rparr>)),
      drop_tx_overruns = drop_tx_overruns env\<rparr>"

lemma traced_ok: "env_ok env \<Longrightarrow> env_ok (traced env)"
  by (auto simp: env_ok_def traced_def split: prod.splits) (metis fst_conv)+

text \<open>What is pulled is sent, freed or outstanding.\<close>

definition balance :: "'p multiset \<Rightarrow> 'w \<times> 'p ledger \<Rightarrow> bool" where
  "balance M w \<longleftrightarrow> mset (pulled (snd w)) = mset (sent (snd w)) + mset (freed (snd w)) + M"

lemma traced_balance:
  "link_down (traced env) w = (b, w') \<Longrightarrow> balance M w' = balance M w"
  "clock_now (traced env) w = (now, w') \<Longrightarrow> balance M w' = balance M w"
  "tx_prepare (traced env) ps w = (n, w') \<Longrightarrow> balance M w' = balance M w"
  "balance M (packet_wait (traced env) n w) = balance M w"
  "balance M (drop_packets (traced env) key ps w) = balance (M + mset ps) w"
  "balance M (free_packets (traced env) ps w) = balance (M + mset ps) w"
  by (auto simp: traced_def balance_def split: prod.splits)

lemma traced_pull: "source_pull (traced env) key n w = (ps, w') \<Longrightarrow> balance M w \<Longrightarrow> balance (M + mset ps) w'"
  by (auto simp: traced_def balance_def split: prod.splits)

lemma mset_take_drop: "mset (take n xs) + mset (drop n xs) = mset xs"
  by (metis append_take_drop_id mset_append)

lemma traced_burst: "tx_burst (traced env) ps w = (k, w') \<Longrightarrow> balance (M + mset ps) w \<Longrightarrow> balance (M + mset (drop k ps)) w'"
  using mset_take_drop [of k ps] by (auto simp: traced_def balance_def split: prod.splits)

lemma transmit_bursts_balance:
  "transmit_bursts (traced env) key bs t u w = (t', u', w') \<Longrightarrow> balance (M + mset u) w \<Longrightarrow> balance (M + mset u') w'"
proof (induction bs arbitrary: t u w)
  case (Cons b bs)
  from Cons.prems(1) show ?case
  proof (cases rule: transmit_bursts_cases)
    case (Unprepared ps w1 n)
    then show ?thesis using traced_pull [OF Unprepared(1) Cons.prems(2)] by (simp add: traced_balance(3) add.assoc)
  next
    case (Full ps w1 w2 k w3 j)
    have "balance (M + mset u + mset ps) w2" using traced_pull [OF Full(1) Cons.prems(2)] Full(2) by (simp add: traced_balance(3))
    then have "balance (M + mset u + mset (drop k ps)) w3" by (rule traced_burst [OF Full(3)])
    then have "balance (M + mset u + mset (drop j (drop k ps))) w'" using traced_burst [OF Full(4)] by (simp add: traced_balance(4))
    then show ?thesis using Full(7) by (simp add: add.assoc add.commute)
  next
    case (Retried ps w1 w2 k w3 j w5)
    have "balance (M + mset u + mset ps) w2" using traced_pull [OF Retried(1) Cons.prems(2)] Retried(2) by (simp add: traced_balance(3))
    then have "balance (M + mset u + mset (drop k ps)) w3" by (rule traced_burst [OF Retried(3)])
    then have "balance (M + mset u + mset (drop j (drop k ps))) w5" using traced_burst [OF Retried(4)] by (simp add: traced_balance(4))
    then show ?thesis using Cons.IH [OF Retried(6)] Retried(5) by simp
  next
    case (Sent ps w1 w2 k w3)
    have "balance (M + mset u + mset ps) w2" using traced_pull [OF Sent(1) Cons.prems(2)] Sent(2) by (simp add: traced_balance(3))
    then have "balance (M + mset u + mset (drop k ps)) w3" by (rule traced_burst [OF Sent(3)])
    then show ?thesis using Cons.IH [OF Sent(5)] Sent(4) by simp
  qed
qed simp

lemma do_transmit_balance:
  "do_transmit (traced env) key n u w = (t', u', w') \<Longrightarrow> balance (M + mset u) w \<Longrightarrow> balance (M + mset u') w'"
  unfolding do_transmit_bursts by (rule transmit_bursts_balance)

lemma running_loop_balance:
  "running_loop fuel (traced env) now s w = Some (nx, now', s', w') \<Longrightarrow> m_buffer s = [] \<Longrightarrow> balance M w \<Longrightarrow>
   balance (M + mset (m_buffer s')) w'"
proof (induction fuel arbitrary: now s w)
  case (Suc fuel)
  from Suc.prems(1,2) show ?case
  proof (cases rule: running_loop_cases)
    case (Gone d k rest now1 w1)
    then show ?thesis using Suc.IH [OF Gone(4)] Suc.prems traced_balance(2) [OF Gone(2)] by simp
  next
    case (Full d k rest w1 t u n)
    then show ?thesis using do_transmit_balance [OF Full(4), of M] Suc.prems traced_balance(2) [OF Full(2)] by simp
  next
    case (Served d k rest now1 w1 t u w2 w3 s3)
    have "balance (M + mset u) w2"
      using do_transmit_balance [OF Served(4), of M] Suc.prems(3) traced_balance(2) [OF Served(2)] by simp
    then have "balance M w3" using Served(5) by (auto simp: traced_balance(5))
    moreover have "m_buffer s3 = []" using Served(6) Suc.prems(2) by simp
    ultimately show ?thesis using Suc.IH [OF Served(7)] by simp
  next
    case (Early d k rest)
    then show ?thesis using Suc.prems traced_balance(2) [OF Early(2)] by simp
  qed (use Suc.prems in auto)
qed simp

lemma refresh_balance: "refresh (traced env) r s w = (s', w') \<Longrightarrow> balance M w' = balance M w"
  by (auto simp: refresh_def traced_balance(2) split: if_splits prod.splits)

lemma on_timeout_running_balance:
  assumes "on_timeout_running fuel (traced env) r s w = Some (nx, st, s', w')" "ordered s" "m_buffer s = []" "balance M w"
  shows "balance (M + mset (m_buffer s')) w'"
  using assms(1)
proof (cases rule: on_timeout_running_cases)
  case Down
  then show ?thesis using assms traced_balance(1) [OF Down(1)] by simp
next
  case (Blocks w1 s2 w2 now st2)
  have "balance M w2" using assms(4) traced_balance(1) [OF Blocks(1)] refresh_balance [OF Blocks(2)] by simp
  then show ?thesis by (rule running_loop_balance [OF Blocks(3) refresh_ordered(2) [OF Blocks(2) assms(2,3)]])
next
  case (Waits w1 s2 w2 now s3)
  have "balance M w2" using assms(4) traced_balance(1) [OF Waits(1)] refresh_balance [OF Waits(2)] by simp
  then show ?thesis
    using running_loop_balance [OF Waits(3) refresh_ordered(2) [OF Waits(2) assms(2,3)]] set_next_event_frame(1) [OF Waits(4)] by simp
qed

lemma resume_source_balance: "resume_source (traced env) k s w = (s', w') \<Longrightarrow> balance M w' = balance M w"
  by (auto simp: resume_source_def traced_balance(2) split: if_splits prod.splits)

lemma blocked_cleared_balance:
  assumes "blocked_cleared fuel (traced env) st0 s w = Some (nx, st, s', w')" "ordered s" "m_buffer s = []" "balance M w"
  shows "balance (M + mset (m_buffer s')) w'"
proof (cases "have_active_sources (traced env) w")
  case True
  then obtain nx0 st1 where "on_timeout_running fuel (traced env) False s w = Some (nx0, st1, s', w')"
    using assms(1) by (auto simp: blocked_cleared_def split: option.splits)
  then show ?thesis using on_timeout_running_balance assms(2-4) by blast
next
  case False
  then show ?thesis using assms by (auto simp: blocked_cleared_def)
qed

text \<open>A blocked handler forgets the packets in the buffer when the source has gone.\<close>

definition source_removed :: "('w, 'p) env \<Rightarrow> state \<Rightarrow> 'w \<Rightarrow> bool" where
  "source_removed env st w =
     (case st of Blocked n e \<Rightarrow> (case link_down env w of (down, w) \<Rightarrow> \<not> down \<and> \<not> get_source env (snd e) w) | _ \<Rightarrow> False)"

definition accounted :: "bool \<Rightarrow> 'p scheduler \<Rightarrow> 'w \<times> 'p ledger \<Rightarrow> bool" where
  "accounted removed s w \<longleftrightarrow> (\<exists>L. balance (L + mset (m_buffer s)) w \<and> (L \<noteq> {#} \<longrightarrow> removed))"

lemma on_timeout_blocked_balance:
  assumes "env_ok env" "on_timeout_blocked fuel (traced env) n e s w = Some (nx, st, s', w')" "sched_inv (Blocked n e) s"
    "balance (M + mset (m_buffer s)) w"
  shows "\<exists>L. balance (M + L + mset (m_buffer s')) w' \<and> (L \<noteq> {#} \<longrightarrow> source_removed (traced env) (Blocked n e) w)"
proof -
  have kept: ?thesis if "balance (M + mset (m_buffer s')) w'" using that by (intro exI [of _ "{#}"]) simp
  note frame = traced_balance(1,3) [where M = "M + mset (m_buffer s)"] and burst = traced_burst [where M = M]
  have sent_all: "balance M w3" if "tx_prepare (traced env) (m_buffer s) w1 = (length (m_buffer s), w2)"
      "link_down (traced env) w = (False, w1)" "tx_burst (traced env) (m_buffer s) w2 = (k, w3)" "\<not> k < length (m_buffer s)"
    for w1 w2 k w3
    using assms(4) burst [OF that(3)] that(4) frame(1) [OF that(2)] frame(2) [OF that(1)] by simp
  from assms(2) show ?thesis
  proof (cases rule: on_timeout_blocked_cases)
    case Down
    then show ?thesis using assms(4) frame(1) [OF Down(1)] by (intro kept) simp
  next
    case Gone
    then show ?thesis using assms(4) frame(1) [OF Gone(1)]
      by (intro exI [of _ "mset (m_buffer s)"]) (auto simp: source_removed_def)
  next
    case (Unprepared w1 k)
    then show ?thesis using assms(4) frame(1) [OF Unprepared(1)] frame(2) [OF Unprepared(3)] by (intro kept) simp
  next
    case (Partial w1 w2 k)
    then show ?thesis using assms(4) frame(1) [OF Partial(1)] frame(2) [OF Partial(3)] burst [OF Partial(4)] by (intro kept) simp
  next
    case (Again w1 w2 k w3 t u)
    then show ?thesis using do_transmit_balance [OF Again(6), of M] sent_all [OF Again(3,1,4,5)] by (intro kept) simp
  next
    case (Cleared w1 w2 k w3 t u w4 s5 w5)
    have u: "u = []" using do_transmit_bound [OF traced_ok [OF assms(1)] Cleared(6)] Cleared(7) by (cases u) auto
    have "balance M w5"
      using do_transmit_balance [OF Cleared(6), of M] sent_all [OF Cleared(3,1,4,5)] u resume_source_balance [OF Cleared(8)] by simp
    moreover have "ordered s5" "m_buffer s5 = []"
      using assms(3) resume_source_ordered [OF _ _ Cleared(8)] u by (auto simp: sched_inv_def)
    ultimately show ?thesis using blocked_cleared_balance [OF Cleared(9)] by (intro kept)
  qed
qed

lemma on_timeout_balance:
  assumes "env_ok env" "on_timeout fuel (traced env) st s w = Some (nx, st', s', w')" "sched_inv st s"
    "balance (M + mset (m_buffer s)) w"
  shows "\<exists>L. balance (M + L + mset (m_buffer s')) w' \<and> (L \<noteq> {#} \<longrightarrow> source_removed (traced env) st w)"
proof -
  have kept: ?thesis if "balance (M + mset (m_buffer s')) w'" using that by (intro exI [of _ "{#}"]) simp
  show ?thesis
  proof (cases st)
    case Idle
    then show ?thesis using assms(2,4)
      by (intro kept) (auto simp: on_timeout_def on_timeout_idle_def traced_balance(1) split: prod.splits if_splits)
  next
    case Link_check
    then show ?thesis using assms(2,4)
      by (intro kept) (auto simp: on_timeout_def on_timeout_link_check_def traced_balance(1) split: prod.splits if_splits)
  next
    case (Running r)
    then show ?thesis using assms(2-4) on_timeout_running_balance [of fuel env r s w nx st' s' w' M]
      by (intro kept) (auto simp: on_timeout_def sched_inv_def)
  next
    case (Blocked n e)
    then show ?thesis using on_timeout_blocked_balance [OF assms(1)] assms(2-4) by (simp add: on_timeout_def)
  qed
qed

lemma on_transition_running_frame:
  assumes "on_transition_running env s w = (st, s', w')"
  shows "m_buffer s' = m_buffer s" "w' = snd (clock_now env w)"
  using assms by (cases "clock_now env w"; auto simp: on_transition_running_def Let_def split: list.splits if_splits)+

lemma on_transition_balance:
  assumes "on_transition (traced env) st s w = (st', s', w')" "balance (M + mset (m_buffer s)) w"
  shows "balance (M + mset (m_buffer s')) w'"
proof (cases st)
  case (Running b)
  then have r: "on_transition_running (traced env) s w = (st', s', w')" using assms(1) by (simp add: on_transition_def)
  show ?thesis using assms(2) on_transition_running_frame [OF r] traced_balance(2) [OF surjective_pairing, of "M + mset (m_buffer s)" env w] by simp
next
  case Link_check
  then show ?thesis using assms by (auto simp: on_transition_def traced_balance(6))
qed (use assms in \<open>auto simp: on_transition_def\<close>)

lemma run_scheduler_accounted:
  assumes "env_ok env" "run_scheduler fuel (traced env) (st, s, w) = Some (st', s', w')" "sched_inv st s" "accounted r s w"
  shows "accounted (r \<or> source_removed (traced env) st w) s' w'"
proof -
  let ?s = "s\<lparr>m_timer := fire (m_timer s)\<rparr>"
  obtain M where M: "balance (M + mset (m_buffer ?s)) w" "M \<noteq> {#} \<longrightarrow> r" using assms(4) by (auto simp: accounted_def)
  obtain nx st1 s1 w1 where h: "on_timeout fuel (traced env) st ?s w = Some (nx, st1, s1, w1)"
    using assms(2) by (auto simp: run_scheduler_def split: option.splits prod.splits)
  have "sched_inv st ?s" using assms(3) by (cases st) (auto simp: sched_inv_def)
  then obtain L where L: "balance (M + L + mset (m_buffer s1)) w1" "L \<noteq> {#} \<longrightarrow> source_removed (traced env) st w"
    using on_timeout_balance [OF assms(1) h _ M(1)] by blast
  have "balance (M + L + mset (m_buffer s')) w'"
  proof (cases nx)
    case None
    then show ?thesis using assms(2) h L(1) by (simp add: run_scheduler_def)
  next
    case (Some st2)
    then show ?thesis using assms(2) h on_transition_balance [OF _ L(1)] by (simp add: run_scheduler_def)
  qed
  then show ?thesis using M(2) L(2) unfolding accounted_def by (intro exI [of _ "M + L"]) auto
qed

inductive accounted_run :: "('w, 'p) env \<Rightarrow> bool \<Rightarrow> state \<times> 'p scheduler \<times> 'w \<times> 'p ledger \<Rightarrow> bool" for env where
  boot: "accounted_run env False (Idle, scheduler_init, w, \<lparr>pulled = [], sent = [], freed = []\<rparr>)"
| wakeup: "accounted_run env removed (st, s, w) \<Longrightarrow> run_scheduler fuel (traced env) (st, s, w) = Some c \<Longrightarrow>
    accounted_run env (removed \<or> source_removed (traced env) st w) c"
| change: "accounted_run env removed (st, s, w, l) \<Longrightarrow> accounted_run env removed (st, s, w', l)"

lemma accounted_run_inv:
  assumes "env_ok env"
  shows "accounted_run env removed c \<Longrightarrow> sched_inv (fst c) (fst (snd c)) \<and> accounted removed (fst (snd c)) (snd (snd c))"
proof (induction rule: accounted_run.induct)
  case (boot w)
  show ?case by (auto simp: sched_inv_def ordered_def scheduler_init_def accounted_def balance_def)
next
  case (wakeup removed st s w fuel c)
  then show ?case using run_scheduler_inv [OF traced_ok [OF assms], of fuel st s w] run_scheduler_accounted [OF assms, of fuel st s w]
    by (cases c) auto
next
  case (change removed st s w l w')
  then show ?case by (simp add: accounted_def balance_def)
qed

subsection \<open>Properties\<close>

lemmas scheduler_trace = scheduler_code traced_def

lemma traced_start: "run_scheduler (Suc (Suc 0)) (traced sample_env) (Idle, scheduler_init, 0, \<lparr>pulled = [], sent = [], freed = []\<rparr>) =
    Some (Running False, \<lparr>m_buffer = [], m_schedule = [(10, 7)], m_time_reschedule = 100000000, m_timer = Oneshot 10\<rparr>, 1,
      \<lparr>pulled = [], sent = [], freed = []\<rparr>)"
  by (simp add: scheduler_trace sample_env_def)

lemma traced_block: "run_scheduler (Suc (Suc 0)) (traced sample_env)
    (Running False, \<lparr>m_buffer = [], m_schedule = [(10, 7)], m_time_reschedule = 100000000, m_timer = Oneshot 10\<rparr>, 20,
      \<lparr>pulled = [], sent = [], freed = []\<rparr>) =
    Some (Blocked 0 (10, 7), \<lparr>m_buffer = [21], m_schedule = [], m_time_reschedule = 100000000, m_timer = Oneshot 100\<rparr>, 22,
      \<lparr>pulled = [21, 21, 21], sent = [21, 21], freed = []\<rparr>)"
  by (simp add: scheduler_trace sample_env_def) (simp add: numeral_3_eq_3)

lemma traced_reachable: "accounted_run sample_env False
    (Blocked 0 (10, 7), \<lparr>m_buffer = [21], m_schedule = [], m_time_reschedule = 100000000, m_timer = Oneshot 100\<rparr>, 22,
      \<lparr>pulled = [21, 21, 21], sent = [21, 21], freed = []\<rparr>)"
  using wakeup [OF change [OF wakeup [OF boot traced_start]] traced_block] by (simp add: source_removed_def)

text \<open>
  C8: no packet is sent twice, sent after it was freed, or freed twice: what the driver took, what was given back and what
  is buffered is, as a multiset, part of what the sources handed out. Nothing is lost either, unless the source
  of a blocked queue was removed.
\<close>

theorem packets_accounted:
  assumes "env_ok env" "accounted_run env removed (st, s, w, l)"
  shows "mset (sent l) + mset (freed l) + mset (m_buffer s) \<subseteq># mset (pulled l)
    \<and> (\<not> removed \<longrightarrow> mset (pulled l) = mset (sent l) + mset (freed l) + mset (m_buffer s))"
proof -
  obtain L where "balance (L + mset (m_buffer s)) (w, l)" "L \<noteq> {#} \<longrightarrow> removed"
    using accounted_run_inv [OF assms] by (auto simp: accounted_def)
  then show ?thesis by (auto simp: balance_def ac_simps)
qed

theorem packets_accounted_witness:
  "mset (sent \<lparr>pulled = [21, 21, 21], sent = [21, 21], freed = []\<rparr>) + {#21#} \<subseteq># {#21, 21, 21 :: nat#}"
  using packets_accounted [OF sample_env_ok traced_reachable] by simp

text \<open>
  A source of bursts of 65 packets that is active before time 30; the world is the clock and the room that the driver's queue has
  at each transmit.
\<close>

definition overrun_env :: "(nat \<times> nat list, nat) env" where
  "overrun_env =
     \<lparr>link_down = (\<lambda>w. (False, w)), clock_now = (\<lambda>w. (fst w, w)), get_sources = (\<lambda>w. [7]),
      source_active = (\<lambda>key w. fst w < 30), source_burst_size = (\<lambda>key w. 65), next_deadline = (\<lambda>key w. 1000),
      source_pull = (\<lambda>key n w. (replicate n key, w)), tx_prepare = (\<lambda>ps w. (length ps, w)),
      tx_burst = (\<lambda>ps w. (min (length ps) (hd (snd w)), fst w, tl (snd w))), packet_wait = (\<lambda>n w. w),
      drop_packets = (\<lambda>key ps w. w), free_packets = (\<lambda>ps w. w), drop_tx_overruns = False\<rparr>"

definition wake :: "nat \<Rightarrow> nat list \<Rightarrow> state \<times> nat scheduler \<times> (nat \<times> nat list) \<times> nat ledger \<Rightarrow>
    (state \<times> nat scheduler \<times> (nat \<times> nat list) \<times> nat ledger) option" where
  "wake now room c = (case c of (st, s, w, l) \<Rightarrow> run_scheduler (Suc (Suc 0)) (traced overrun_env) (st, s, (now, room), l))"

lemma wake_first: "wake 10 [1, 0] (Running False,
      \<lparr>m_buffer = [], m_schedule = [(10, 7)], m_time_reschedule = 100000000, m_timer = Oneshot 10\<rparr>, w,
      \<lparr>pulled = [], sent = [], freed = []\<rparr>) =
    Some (Blocked 32 (10, 7), \<lparr>m_buffer = replicate 32 7, m_schedule = [], m_time_reschedule = 100000000, m_timer = Oneshot 100\<rparr>,
      (10, []), \<lparr>pulled = replicate 33 7, sent = [7], freed = []\<rparr>)"
  by (simp add: wake_def scheduler_trace overrun_env_def upt_rec)

lemma wake_second: "wake 20 [32, 1, 0] (Blocked 32 (10, 7),
      \<lparr>m_buffer = replicate 32 7, m_schedule = [], m_time_reschedule = 100000000, m_timer = Oneshot 100\<rparr>,
      (10, []), \<lparr>pulled = replicate 33 7, sent = [7], freed = []\<rparr>) =
    Some (Blocked 31 (10, 7), \<lparr>m_buffer = replicate 31 7, m_schedule = [], m_time_reschedule = 100000000, m_timer = Oneshot 100\<rparr>,
      (20, []), \<lparr>pulled = replicate 65 7, sent = replicate 34 7, freed = []\<rparr>)"
  by (simp add: wake_def scheduler_trace overrun_env_def upt_rec replicate_add [symmetric] replicate_append_same flip: replicate_Suc)

lemma wake_third: "wake 30 [31, 31] (Blocked 31 (10, 7),
      \<lparr>m_buffer = replicate 31 7, m_schedule = [], m_time_reschedule = 100000000, m_timer = Oneshot 100\<rparr>,
      (20, []), \<lparr>pulled = replicate 65 7, sent = replicate 34 7, freed = []\<rparr>) =
    Some (Idle, \<lparr>m_buffer = [], m_schedule = [], m_time_reschedule = 100000000, m_timer = Interval idle_poll\<rparr>,
      (30, []), \<lparr>pulled = replicate 96 7, sent = replicate 96 7, freed = []\<rparr>)"
  by (simp add: wake_def scheduler_trace overrun_env_def upt_rec resume_source_def set_timer_interval_def flip: replicate_add)

text \<open>
  Packets put in the buffer by the blocked handler are not taken off what remains of the burst. A source that is scheduled
  once, with a burst of 65 packets, is made to send 96 when the queue fills up twice.
\<close>

theorem blocked_burst_overrun:
  "Option.bind (Option.bind (wake 10 [1, 0] (Running False,
       \<lparr>m_buffer = [], m_schedule = [(10, 7)], m_time_reschedule = 100000000, m_timer = Oneshot 10\<rparr>, (0, []),
       \<lparr>pulled = [], sent = [], freed = []\<rparr>))
     (wake 20 [32, 1, 0])) (wake 30 [31, 31]) =
   Some (Idle, \<lparr>m_buffer = [], m_schedule = [], m_time_reschedule = 100000000, m_timer = Interval idle_poll\<rparr>, (30, []),
     \<lparr>pulled = replicate 96 7, sent = replicate 96 7, freed = []\<rparr>)
   \<and> source_burst_size overrun_env 7 (0, []) = 65"
  unfolding wake_first bind.bind_lunit wake_second wake_third by (simp add: overrun_env_def)

end
