(* ===== verification/Circular_Buffer.thy ===== *)
theory Circular_Buffer
  imports Prelude
begin

text \<open>
  The byte ring that a socket client and the stack share, \<^verbatim>\<open>src/modules/socket/circular_buffer_producer.tcc\<close>
  and \<^verbatim>\<open>circular_buffer_consumer.tcc\<close>. The indices run up to twice the length of the buffer, so that a full ring and
  an empty one differ; they are natural numbers, and \<open>size_sub\<close> is the subtraction of \<open>size_t\<close> where it can
  wrap. Copies to and from the buffer check that they stay inside it: leaving it is \<open>Out_of_bounds\<close>.
\<close>

unbundle bit_operations_syntax

datatype access_error = Out_of_bounds

definition size_sub :: "nat \<Rightarrow> nat \<Rightarrow> nat" where
  "size_sub a b = unat (of_nat a - of_nat b :: u64)"

record ring =
  base :: "u8 list"
  read_idx :: nat
  write_idx :: nat

abbreviation len :: "ring \<Rightarrow> nat" where
  "len r \<equiv> length (base r)"

definition mask_idx :: "ring \<Rightarrow> nat \<Rightarrow> nat" where
  "mask_idx r i = (if i < len r then i else i - len r)"

definition memcpy_in :: "nat \<Rightarrow> u8 list \<Rightarrow> ring \<Rightarrow> access_error + ring" where
  "memcpy_in offset bs r =
     (if offset + length bs \<le> len r then Inr (r\<lparr>base := write_at offset bs (base r)\<rparr>) else Inl Out_of_bounds)"

definition memcpy_out :: "ring \<Rightarrow> nat \<Rightarrow> nat \<Rightarrow> access_error + u8 list" where
  "memcpy_out r offset n = (if offset + n \<le> len r then Inr (take n (drop offset (base r))) else Inl Out_of_bounds)"

subsection \<open>The producer\<close>

definition store_write :: "nat \<Rightarrow> ring \<Rightarrow> ring" where
  "store_write i r = r\<lparr>write_idx := if i < 2 * len r then i else i - 2 * len r\<rparr>"

definition writable_alignment :: u64 where "writable_alignment = 0x1F"

text \<open>The first difference is \<open>len - write + read\<close>, whose first step may wrap but whose result does not.\<close>

definition writable :: "ring \<Rightarrow> nat" where
  "writable r =
     (let available = (if read_idx r \<le> write_idx r then len r + read_idx r - write_idx r
                       else size_sub (size_sub (read_idx r) (write_idx r)) (len r)) in
        unat (of_nat available AND NOT writable_alignment))"

definition write_chunk1 :: "ring \<Rightarrow> nat \<Rightarrow> nat" where
  "write_chunk1 r to_write = min to_write (size_sub (len r) (mask_idx r (write_idx r)))"

text \<open>The two copies of \<open>write\<close>, before and after the wrap of the buffer.\<close>

definition write_copy1 :: "u8 list \<Rightarrow> nat \<Rightarrow> ring \<Rightarrow> access_error + ring" where
  "write_copy1 ptr to_write r = memcpy_in (mask_idx r (write_idx r)) (take (write_chunk1 r to_write) ptr) r"

definition write_copy2 :: "u8 list \<Rightarrow> nat \<Rightarrow> ring \<Rightarrow> access_error + ring" where
  "write_copy2 ptr to_write r =
     memcpy_in 0 (take (to_write - write_chunk1 r to_write) (drop (write_chunk1 r to_write) ptr)) r"

definition write_bytes :: "u8 list \<Rightarrow> ring \<Rightarrow> access_error + (nat \<times> ring)" where
  "write_bytes ptr r =
     (let to_write = min (writable r) (length ptr) in
        if to_write = 0 then Inr (0, r)
        else
          bind_result (write_copy1 ptr to_write r) (\<lambda>r.
          bind_result (write_copy2 ptr to_write r) (\<lambda>r.
            Inr (to_write, store_write (write_idx r + to_write) r))))"

text \<open>Full vectors are copied while they fit into \<open>limit\<close> bytes behind \<open>start\<close>.\<close>

fun write_full :: "nat \<Rightarrow> nat \<Rightarrow> nat \<Rightarrow> u8 list list \<Rightarrow> ring \<Rightarrow> access_error + (nat \<times> u8 list list \<times> ring)" where
  "write_full start limit written [] r = Inr (written, [], r)"
| "write_full start limit written (v # vs) r =
     (if written + length v \<le> limit
      then bind_result (memcpy_in (start + written) v r) (\<lambda>r. write_full start limit (written + length v) vs r)
      else Inr (written, v # vs, r))"

definition write_iov :: "u8 list list \<Rightarrow> ring \<Rightarrow> access_error + (nat \<times> ring)" where
  "write_iov iov r =
     (let to_write = min (writable r) (sum_list (map length iov)) in
        if to_write = 0 then Inr (0, r)
        else
          let cursor = write_idx r;
              chunk1 = write_chunk1 r to_write;
              chunk2 = to_write - chunk1 in
            bind_result (write_full (mask_idx r cursor) chunk1 0 iov r) (\<lambda>(written1, rest, r).
              if chunk1 = to_write then Inr (written1, store_write (cursor + written1) r)
              else
                case rest of
                  [] \<Rightarrow> Inl Out_of_bounds
                | v # vs \<Rightarrow>
                    let piece1 = chunk1 - written1;
                        piece2 = length v - piece1 in
                      if chunk2 < piece2 then Inr (written1, store_write (cursor + written1) r)
                      else
                        bind_result (memcpy_in (mask_idx r cursor + written1) (take piece1 v) r) (\<lambda>r.
                        bind_result (memcpy_in 0 (drop piece1 v) r) (\<lambda>r.
                        bind_result (write_full 0 chunk2 piece2 vs r) (\<lambda>(written2, rest, r).
                          Inr (written1 + piece1 + written2, store_write (cursor + (written1 + piece1) + written2) r))))))"

definition write_and_notify :: "u8 list \<Rightarrow> (ring \<Rightarrow> ring) \<Rightarrow> ring \<Rightarrow> access_error + (nat \<times> ring)" where
  "write_and_notify ptr notify r =
     (let available = writable r;
          hiwat = size_sub available (len r div 2);
          to_write = min available (length ptr) in
        if to_write = 0 then Inr (0, r)
        else
          let chunk1 = min to_write hiwat;
              chunk2 = to_write - chunk1 in
            bind_result (write_bytes (take chunk1 ptr) r) (\<lambda>(written, r).
            bind_result (write_bytes (take chunk2 (drop chunk1 ptr)) (notify r)) (\<lambda>(more, r).
              Inr (written + more, r))))"

subsection \<open>The consumer\<close>

definition store_read :: "nat \<Rightarrow> ring \<Rightarrow> ring" where
  "store_read i r = r\<lparr>read_idx := if i < 2 * len r then i else i - 2 * len r\<rparr>"

definition readable :: "ring \<Rightarrow> nat" where
  "readable r =
     (if read_idx r \<le> write_idx r then write_idx r - read_idx r else 2 * len r + write_idx r - read_idx r)"

text \<open>Two vectors, each an offset into the buffer and a length.\<close>

definition peek :: "ring \<Rightarrow> (nat \<times> nat) list" where
  "peek r =
     (let to_read = readable r in
        if to_read = 0 then [(0, 0), (0, 0)]
        else
          let cursor = read_idx r;
              chunk1 = min to_read (size_sub (len r) (mask_idx r cursor));
              chunk2 = to_read - chunk1 in
            [(mask_idx r cursor, chunk1), (0, chunk2)])"

definition drop_bytes :: "nat \<Rightarrow> ring \<Rightarrow> nat \<times> ring" where
  "drop_bytes n r =
     (let to_drop = min (readable r) n in
        if to_drop = 0 then (0, r) else (to_drop, store_read (read_idx r + to_drop) r))"

definition read_chunk1 :: "ring \<Rightarrow> nat \<Rightarrow> nat \<Rightarrow> nat" where
  "read_chunk1 r offset to_read = min to_read (size_sub (len r) (mask_idx r (read_idx r + offset)))"

definition read_copy1 :: "ring \<Rightarrow> nat \<Rightarrow> nat \<Rightarrow> access_error + u8 list" where
  "read_copy1 r offset to_read = memcpy_out r (mask_idx r (read_idx r + offset)) (read_chunk1 r offset to_read)"

definition read_copy2 :: "ring \<Rightarrow> nat \<Rightarrow> nat \<Rightarrow> access_error + u8 list" where
  "read_copy2 r offset to_read = memcpy_out r 0 (to_read - read_chunk1 r offset to_read)"

text \<open>The bytes read; their number is the function's result.\<close>

definition pread :: "nat \<Rightarrow> nat \<Rightarrow> ring \<Rightarrow> access_error + u8 list" where
  "pread n offset r =
     (let can_read = readable r;
          to_read = min (if can_read > offset then can_read - offset else 0) n in
        if to_read = 0 then Inr []
        else
          bind_result (read_copy1 r offset to_read) (\<lambda>bs1.
          bind_result (read_copy2 r offset to_read) (\<lambda>bs2.
            Inr (bs1 @ bs2))))"

definition read_bytes :: "nat \<Rightarrow> ring \<Rightarrow> access_error + (u8 list \<times> ring)" where
  "read_bytes n r = bind_result (pread n 0 r) (\<lambda>bs. case drop_bytes (length bs) r of (k, r) \<Rightarrow> Inr (take k bs, r))"

text \<open>\<open>lowat\<close> is a static variable: \<open>None\<close> before its first use, then the value computed there.\<close>

definition read_and_notify :: "nat \<Rightarrow> (ring \<Rightarrow> ring) \<Rightarrow> nat option \<Rightarrow> ring \<Rightarrow> access_error + (u8 list \<times> nat \<times> ring)" where
  "read_and_notify n notify static_lowat r =
     (let available = readable r;
          lowat = (case static_lowat of Some l \<Rightarrow> l | None \<Rightarrow> size_sub available (len r div 2));
          to_read = min available n in
        if to_read = 0 then Inr ([], lowat, r)
        else
          let chunk1 = min to_read lowat;
              chunk2 = to_read - chunk1 in
            bind_result (read_bytes chunk1 r) (\<lambda>(bs1, r).
            bind_result (read_bytes chunk2 (notify r)) (\<lambda>(bs2, r).
              Inr (bs1 @ bs2, lowat, r))))"

subsection \<open>The ring seen from the write index\<close>

definition ring_ok :: "ring \<Rightarrow> bool" where
  "ring_ok r \<longleftrightarrow> 0 < len r \<and> len r < 2 ^ 62 \<and> read_idx r < 2 * len r \<and> write_idx r < 2 * len r \<and> readable r \<le> len r"

definition contents :: "ring \<Rightarrow> u8 list" where
  "contents r = map (\<lambda>i. base r ! ((read_idx r + i) mod len r)) [0..<readable r]"

text \<open>The byte \<open>i\<close> places behind the write index.\<close>

definition view :: "ring \<Rightarrow> nat \<Rightarrow> u8" where
  "view r i = base r ! ((write_idx r + i) mod len r)"

lemma length_contents [simp]: "length (contents r) = readable r"
  by (simp add: contents_def)

lemma size_sub_le: "b \<le> a \<Longrightarrow> a < 2 ^ 64 \<Longrightarrow> size_sub a b = a - b"
  by (simp add: size_sub_def unat_sub_if' unat_of_nat_small word_le_nat_alt)

lemma mask_idx_mod: "i < 2 * len r \<Longrightarrow> mask_idx r i = i mod len r"
  by (simp add: mask_idx_def mod_if)

lemma mod_add_cases:
  assumes "(c :: nat) \<le> n - s mod n" "0 < n"
  shows "i < c \<Longrightarrow> (s + i) mod n = s mod n + i"
    and "c = n - s mod n \<Longrightarrow> c \<le> i \<Longrightarrow> i \<le> n \<Longrightarrow> (s + i) mod n = i - c"
proof -
  have m: "(s + i) mod n = (s mod n + i) mod n" for i by presburger
  have s: "s mod n < n" using assms(2) by simp
  show "(s + i) mod n = s mod n + i" if "i < c" using that assms(1) m by simp
  show "(s + i) mod n = i - c" if "c = n - s mod n" "c \<le> i" "i \<le> n"
  proof -
    have "s mod n + i = (i - c) + n" "i - c < n" using that s by auto
    then show ?thesis using m by simp
  qed
qed

lemma unat_aligned: "n < 2 ^ 64 \<Longrightarrow> unat (of_nat n AND NOT writable_alignment) = 32 * (n div 32)"
  using unat_and_not_mask [of "of_nat n :: u64" 5] by (simp add: writable_alignment_def mask_eq_exp_minus_1 unat_of_nat_small)

lemma ring_okD:
  assumes "ring_ok r"
  shows "0 < len r" "len r < 2 ^ 62" "read_idx r < 2 * len r" "write_idx r < 2 * len r" "readable r \<le> len r"
  using assms by (simp_all add: ring_ok_def)

lemma write_pos:
  assumes "ring_ok r"
  shows "(write_idx r + i) mod len r = (read_idx r + readable r + i) mod len r"
proof (cases "read_idx r \<le> write_idx r")
  case False
  then have "read_idx r + readable r + i = write_idx r + i + len r * 2" using assms by (simp add: ring_ok_def readable_def)
  then show ?thesis by (simp only: mod_mult_self2)
qed (simp add: readable_def)

lemma writable_eq:
  assumes "ring_ok r"
  shows "writable r = 32 * ((len r - readable r) div 32)"
proof -
  have "(if read_idx r \<le> write_idx r then len r + read_idx r - write_idx r
      else size_sub (size_sub (read_idx r) (write_idx r)) (len r)) = len r - readable r"
  proof (cases "read_idx r \<le> write_idx r")
    case False
    then have "len r \<le> read_idx r - write_idx r" using ring_okD(3,5) [OF assms] by (simp add: readable_def)
    moreover have "read_idx r < 2 ^ 64" using ring_okD(2,3) [OF assms] by simp
    ultimately show ?thesis using False ring_okD [OF assms] by (simp add: readable_def size_sub_le)
  qed (use assms in \<open>simp add: ring_ok_def readable_def\<close>)
  moreover have "len r - readable r < 2 ^ 64" using ring_okD(2) [OF assms] by simp
  ultimately show ?thesis using unat_aligned by (simp only: writable_def Let_def)
qed

lemma writable_le: "ring_ok r \<Longrightarrow> writable r + readable r \<le> len r"
  using writable_eq [of r] times_div_less_eq_dividend [of 32 "len r - readable r"] ring_okD(5) [of r] by linarith

lemma write_chunk1_eq: "ring_ok r \<Longrightarrow> write_chunk1 r n = min n (len r - write_idx r mod len r)"
  by (simp add: write_chunk1_def ring_ok_def mask_idx_mod size_sub_le less_imp_le)

text \<open>What copying \<open>bs\<close> to an offset does to the bytes behind the write index.\<close>

lemma view_memcpy_in:
  assumes "memcpy_in off bs r = Inr r'" "0 < len r"
  shows "read_idx r' = read_idx r" "write_idx r' = write_idx r" "len r' = len r"
    "view r' i = (let k = (write_idx r + i) mod len r in if off \<le> k \<and> k < off + length bs then bs ! (k - off) else view r i)"
  using assms nth_write_at [of off bs "base r"] by (auto simp: memcpy_in_def view_def Let_def split: if_splits)

lemma write_offsets:
  assumes "ring_ok r"
  shows "i < len r - write_idx r mod len r \<Longrightarrow> (write_idx r + i) mod len r = write_idx r mod len r + i"
    and "len r - write_idx r mod len r \<le> i \<Longrightarrow> i < len r \<Longrightarrow> (write_idx r + i) mod len r = i - (len r - write_idx r mod len r)"
  using mod_add_cases(1) [OF order_refl ring_okD(1) [OF assms]] mod_add_cases(2) [OF order_refl ring_okD(1) [OF assms] refl] less_imp_le
  by blast+

definition same_indices :: "ring \<Rightarrow> ring \<Rightarrow> bool" where
  "same_indices r r' \<longleftrightarrow> read_idx r' = read_idx r \<and> write_idx r' = write_idx r \<and> len r' = len r"

lemma write_copy1_view:
  assumes "ring_ok r" "n \<le> length d"
  shows "\<exists>r'. write_copy1 d n r = Inr r' \<and> same_indices r r'
      \<and> (\<forall>i < len r. view r' i = (if i < write_chunk1 r n then d ! i else view r i))"
proof -
  let ?c = "write_chunk1 r n" and ?w = "write_idx r mod len r"
  have ok: "0 < len r" "write_idx r < 2 * len r" "?w < len r" using assms(1) by (auto simp: ring_ok_def)
  have c: "?c \<le> n" "?c \<le> len r - ?w" using write_chunk1_eq [OF assms(1)] by auto
  obtain bs where bs: "bs = take ?c d" "length bs = ?c" "\<And>i. i < ?c \<Longrightarrow> bs ! i = d ! i" using c assms(2) by auto
  have 1: "write_copy1 d n r = memcpy_in ?w bs r" by (simp add: write_copy1_def mask_idx_mod ok bs(1))
  obtain r1 where r1: "memcpy_in ?w bs r = Inr r1" using c ok(3) bs(2) by (fastforce simp: memcpy_in_def)
  note v = view_memcpy_in(4) [OF r1 ok(1), unfolded Let_def bs(2)]
  have "view r1 i = (if i < ?c then d ! i else view r i)" if i: "i < len r" for i
  proof (cases "i < len r - ?w")
    case True
    then show ?thesis using v [of i] write_offsets(1) [OF assms(1) True] bs(3) [of i] by auto
  next
    case False
    then have "(write_idx r + i) mod len r = i - (len r - ?w)" using write_offsets(2) [OF assms(1)] i by simp
    moreover have "\<not> ?w \<le> i - (len r - ?w)" "\<not> i < ?c" using False i ok(3) c by linarith+
    ultimately show ?thesis using v [of i] by simp
  qed
  then show ?thesis using view_memcpy_in(1-3) [OF r1 ok(1)] 1 r1 by (auto simp: same_indices_def)
qed

lemma write_copy2_view:
  assumes "ring_ok r" "n \<le> length d" "n \<le> len r"
  shows "\<exists>r'. write_copy2 d n r = Inr r' \<and> same_indices r r'
      \<and> (\<forall>i < len r. view r' i = (if write_chunk1 r n \<le> i \<and> i < n then d ! i else view r i))"
proof -
  let ?c = "write_chunk1 r n" and ?w = "write_idx r mod len r"
  have ok: "0 < len r" "write_idx r < 2 * len r" "?w < len r" using assms(1) by (auto simp: ring_ok_def)
  have c: "?c = min n (len r - ?w)" using write_chunk1_eq [OF assms(1)] .
  obtain bs where bs: "bs = take (n - ?c) (drop ?c d)" "length bs = n - ?c" "\<And>i. i < n - ?c \<Longrightarrow> bs ! i = d ! (?c + i)"
    using c assms(2) by auto
  obtain r1 where r1: "memcpy_in 0 bs r = Inr r1" using assms(3) bs(2) by (fastforce simp: memcpy_in_def)
  note v = view_memcpy_in(4) [OF r1 ok(1), unfolded Let_def bs(2)]
  have "view r1 i = (if ?c \<le> i \<and> i < n then d ! i else view r i)" if i: "i < len r" for i
  proof (cases "i < len r - ?w")
    case True
    then have "\<not> ?w + i < n - ?c" "\<not> (?c \<le> i \<and> i < n)" using c ok(3) assms(3) by linarith+
    then show ?thesis using v [of i] write_offsets(1) [OF assms(1) True] by auto
  next
    case False
    then have k: "(write_idx r + i) mod len r = i - (len r - ?w)" using write_offsets(2) [OF assms(1)] i by simp
    show ?thesis
    proof (cases "i < n")
      case True
      then have "?c = len r - ?w" "?c \<le> i" "i - ?c < n - ?c" using False c by linarith+
      then show ?thesis using v [of i] k True bs(3) [of "i - ?c"] by simp
    next
      case False
      then have "\<not> i - (len r - ?w) < n - ?c" using c i ok(3) assms(3) by linarith
      then show ?thesis using v [of i] k False by simp
    qed
  qed
  then show ?thesis using view_memcpy_in(1-3) [OF r1 ok(1)] r1 bs(1) by (auto simp: same_indices_def write_copy2_def)
qed

text \<open>Contents depend on the bytes from \<open>len - readable\<close> places behind the write index on.\<close>

lemma contents_view:
  assumes "ring_ok r"
  shows "contents r = map (\<lambda>i. view r (len r - readable r + i)) [0..<readable r]"
proof -
  have "(write_idx r + (len r - readable r + i)) mod len r = (read_idx r + i) mod len r" for i
  proof -
    have "read_idx r + readable r + (len r - readable r + i) = read_idx r + i + len r" using ring_okD(5) [OF assms] by simp
    then show ?thesis using write_pos [OF assms, of "len r - readable r + i"] by (simp only: mod_add_self2)
  qed
  then show ?thesis by (simp add: contents_def view_def)
qed

lemma same_indices_ok: "same_indices r r' \<Longrightarrow> ring_ok r \<Longrightarrow> ring_ok r' \<and> readable r' = readable r"
  by (auto simp: same_indices_def ring_ok_def readable_def)

lemma contents_frame:
  assumes "ring_ok r" "same_indices r r'" "\<And>i. len r - readable r \<le> i \<Longrightarrow> i < len r \<Longrightarrow> view r' i = view r i"
  shows "contents r' = contents r"
proof -
  have r': "ring_ok r'" "readable r' = readable r" "len r' = len r"
    using same_indices_ok [OF assms(2,1)] assms(2) by (auto simp: same_indices_def)
  have "view r' (len r - readable r + i) = view r (len r - readable r + i)" if "i < readable r" for i
    using that ring_okD(5) [OF assms(1)] by (intro assms(3)) linarith+
  then show ?thesis using r' assms(1) by (simp add: contents_view)
qed

lemma store_write_contents:
  assumes "ring_ok r" "readable r + n \<le> len r"
  shows "ring_ok (store_write (write_idx r + n) r)" "readable (store_write (write_idx r + n) r) = readable r + n"
    "contents (store_write (write_idx r + n) r) = contents r @ map (view r) [0..<n]"
proof -
  let ?r = "store_write (write_idx r + n) r"
  note ok = ring_okD [OF assms(1)]
  show n: "readable ?r = readable r + n" using ok assms(2) by (auto simp: store_write_def readable_def split: if_splits)
  then show "ring_ok ?r" using ok assms(2) by (auto simp: ring_ok_def store_write_def)
  have "contents ?r = map (\<lambda>i. base r ! ((read_idx r + i) mod len r)) [0..<readable r + n]"
    by (simp add: contents_def n) (simp add: store_write_def)
  moreover have "view r (i - readable r) = base r ! ((read_idx r + i) mod len r)" if "readable r \<le> i" for i
    using write_pos [OF assms(1), of "i - readable r"] that by (simp add: view_def)
  ultimately show "contents ?r = contents r @ map (view r) [0..<n]"
    by (intro nth_equalityI) (auto simp: nth_append contents_def [of r])
qed

lemma store_read_contents:
  assumes "ring_ok r" "n \<le> readable r"
  shows "ring_ok (store_read (read_idx r + n) r)" "readable (store_read (read_idx r + n) r) = readable r - n"
    "contents (store_read (read_idx r + n) r) = drop n (contents r)"
proof -
  let ?r = "store_read (read_idx r + n) r"
  note ok = ring_okD [OF assms(1)]
  show n: "readable ?r = readable r - n" using ok assms(2) by (auto simp: store_read_def readable_def split: if_splits)
  then show "ring_ok ?r" using ok assms(2) by (auto simp: ring_ok_def store_read_def)
  have "(read_idx ?r + i) mod len r = (read_idx r + n + i) mod len r" for i
  proof (cases "read_idx r + n < 2 * len r")
    case False
    then have "read_idx r + n + i = read_idx ?r + i + len r * 2" by (simp add: store_read_def)
    then show ?thesis by (simp only: mod_mult_self2)
  qed (simp add: store_read_def)
  moreover have "base ?r = base r" by (simp add: store_read_def)
  ultimately show "contents ?r = drop n (contents r)"
    using assms(2) by (intro nth_equalityI) (auto simp: contents_def n add.assoc less_diff_conv)
qed

subsection \<open>What the operations do to the contents\<close>

lemma read_chunk1_eq:
  assumes "ring_ok r" "read_idx r + offset < 2 * len r"
  shows "read_chunk1 r offset n = min n (len r - (read_idx r + offset) mod len r)"
  using ring_okD [OF assms(1)] assms(2) by (simp add: read_chunk1_def mask_idx_mod size_sub_le less_imp_le)

lemma ring_slices:
  assumes b: "length b = n" and n: "0 < n" and k: "k \<le> n" and c: "c = min k (n - s mod n)"
  shows "take c (drop (s mod n) b) @ take (k - c) b = map (\<lambda>i. b ! ((s + i) mod n)) [0..<k]"
proof -
  define m where "m = s mod n"
  have m: "m < n" "\<And>i. (s + i) mod n = (m + i) mod n" using n by (auto simp: m_def mod_add_left_eq)
  show ?thesis unfolding m_def [symmetric] m(2)
  proof (cases "k \<le> n - m")
    case True
    then have "c = k" "m + k \<le> n" using c m(1) by (simp_all add: m_def)
    then show "take c (drop m b) @ take (k - c) b = map (\<lambda>i. b ! ((m + i) mod n)) [0..<k]"
      using b by (intro nth_equalityI) simp_all
  next
    case False
    obtain e where e: "n = m + e" using m(1) less_imp_add_positive by blast
    have "e \<le> k" using False e by simp
    then obtain f where f: "k = e + f" using le_Suc_ex by blast
    have "c = min k (n - m)" using c by (simp only: m_def)
    then have ce: "c = e" using e f by simp
    have fm: "f \<le> m" using k e f by simp
    have 1: "take c (drop m b) = map (\<lambda>i. b ! ((m + i) mod n)) [0..<e]"
      using b e ce by (intro nth_equalityI) simp_all
    have 2: "take f b = map (\<lambda>i. b ! ((m + i) mod n)) [e..<e + f]"
    proof (rule nth_equalityI)
      show "length (take f b) = length (map (\<lambda>i. b ! ((m + i) mod n)) [e..<e + f])" using b e fm by simp
      fix i assume "i < length (take f b)"
      then have i: "i < f" by simp
      have "(m + (e + i)) mod n = (n + i) mod n" using e by (simp add: add.assoc)
      also have "\<dots> = i" using i fm m(1) by simp
      finally show "take f b ! i = map (\<lambda>i. b ! ((m + i) mod n)) [e..<e + f] ! i" using i by simp
    qed
    have "[0..<k] = [0..<e] @ [e..<e + f]" unfolding f by (rule upt_add_eq_append) simp
    moreover have "k - c = f" using f ce by simp
    ultimately show "take c (drop m b) @ take (k - c) b = map (\<lambda>i. b ! ((m + i) mod n)) [0..<k]"
      using 1 2 by simp
  qed
qed

lemma read_copies:
  assumes "ring_ok r" "read_idx r + offset \<le> 2 * len r" "n \<le> len r"
  shows "\<exists>bs1 bs2. read_copy1 r offset n = Inr bs1 \<and> read_copy2 r offset n = Inr bs2 \<and> length bs1 = read_chunk1 r offset n
    \<and> bs1 @ bs2 = map (\<lambda>i. base r ! ((read_idx r + offset + i) mod len r)) [0..<n]"
proof (cases "read_idx r + offset < 2 * len r")
  case True
  let ?s = "read_idx r + offset"
  let ?m = "?s mod len r" and ?c = "read_chunk1 r offset n"
  have ok: "0 < len r" "?m < len r" using ring_okD(1) [OF assms(1)] by auto
  have c: "?c = min n (len r - ?m)" by (rule read_chunk1_eq [OF assms(1) True])
  let ?b1 = "take ?c (drop ?m (base r))" and ?b2 = "take (n - ?c) (base r)"
  have "?m + ?c \<le> len r" using c ok(2) by linarith
  then have "read_copy1 r offset n = Inr ?b1" using True by (simp add: read_copy1_def memcpy_out_def mask_idx_mod)
  moreover have "read_copy2 r offset n = Inr ?b2" using assms(3) by (simp add: read_copy2_def memcpy_out_def)
  moreover have l: "length ?b1 = ?c" "length ?b2 = n - ?c" using c ok(2) assms(3) by auto
  moreover have "?b1 @ ?b2 = map (\<lambda>i. base r ! ((?s + i) mod len r)) [0..<n]"
    by (rule ring_slices [OF _ ok(1) assms(3) c]) simp
  ultimately show ?thesis by blast
next
  case False
  then have s: "read_idx r + offset = 2 * len r" using assms(2) by simp
  have m: "mask_idx r (2 * len r) = len r" by (simp add: mask_idx_def)
  have c: "read_chunk1 r offset n = 0" using s m by (simp add: read_chunk1_def size_sub_def)
  have "take n (base r) = map (\<lambda>i. base r ! ((2 * len r + i) mod len r)) [0..<n]"
    using assms(3) by (intro nth_equalityI) auto
  then show ?thesis using s m c assms(3) by (simp add: read_copy1_def read_copy2_def memcpy_out_def)
qed

lemma pread_contents:
  assumes "ring_ok r" "read_idx r + offset \<le> 2 * len r"
  shows "pread n offset r = Inr (take n (drop offset (contents r)))"
proof -
  define k where "k = min (if readable r > offset then readable r - offset else 0) n"
  have k: "k \<le> len r" using ring_okD(5) [OF assms(1)] by (auto simp: k_def)
  obtain b1 b2 where b: "read_copy1 r offset k = Inr b1" "read_copy2 r offset k = Inr b2"
      "b1 @ b2 = map (\<lambda>i. base r ! ((read_idx r + offset + i) mod len r)) [0..<k]"
    using read_copies [OF assms k] by blast
  have "drop offset (contents r) ! i = base r ! ((read_idx r + offset + i) mod len r)" if "i < k" for i
    using that by (auto simp: k_def contents_def add.assoc split: if_splits)
  then have "b1 @ b2 = take n (drop offset (contents r))"
    unfolding b(3) by (intro nth_equalityI) (auto simp: k_def)
  then show ?thesis using b by (auto simp: pread_def k_def [symmetric] Let_def)
qed

lemma drop_bytes_contents:
  assumes "ring_ok r" "drop_bytes n r = (k, r')"
  shows "k = min (readable r) n \<and> ring_ok r' \<and> len r' = len r \<and> contents r' = drop n (contents r)"
proof (cases "min (readable r) n = 0")
  case True
  moreover have "contents r = []" if "readable r = 0" using that by (simp add: contents_def)
  ultimately show ?thesis using assms by (auto simp: drop_bytes_def min_def split: if_splits)
next
  case False
  let ?k = "min (readable r) n"
  have "r' = store_read (read_idx r + ?k) r" "k = ?k" using assms(2) False by (auto simp: drop_bytes_def Let_def)
  moreover have "drop ?k (contents r) = drop n (contents r)" by (simp add: min_def)
  moreover have "len (store_read (read_idx r + ?k) r) = len r" by (simp add: store_read_def)
  ultimately show ?thesis using store_read_contents [OF assms(1), of ?k] by simp
qed

lemma read_bytes_contents:
  assumes "ring_ok r"
  shows "\<exists>r'. read_bytes n r = Inr (take n (contents r), r') \<and> ring_ok r' \<and> len r' = len r \<and> contents r' = drop n (contents r)"
proof -
  let ?bs = "take n (contents r)"
  have p: "pread n 0 r = Inr ?bs" using pread_contents [OF assms, of 0] ring_okD(3) [OF assms] by simp
  obtain k r' where d: "drop_bytes (length ?bs) r = (k, r')" by (cases "drop_bytes (length ?bs) r")
  have "read_bytes n r = Inr (take k ?bs, r')" using p d by (simp add: read_bytes_def)
  moreover have "take k ?bs = ?bs" using drop_bytes_contents [OF assms d] by (simp add: min_def)
  moreover have "drop (length ?bs) (contents r) = drop n (contents r)" by (simp add: min_def)
  ultimately show ?thesis using drop_bytes_contents [OF assms d] by auto
qed

text \<open>The two copies and the store that end a write.\<close>

definition commit :: "u8 list \<Rightarrow> nat \<Rightarrow> ring \<Rightarrow> access_error + (nat \<times> ring)" where
  "commit d n r =
     bind_result (write_copy1 d n r) (\<lambda>r. bind_result (write_copy2 d n r) (\<lambda>r. Inr (n, store_write (write_idx r + n) r)))"

lemma commit_contents:
  assumes "ring_ok r" "n \<le> length d" "readable r + n \<le> len r"
  shows "\<exists>r'. commit d n r = Inr (n, r') \<and> ring_ok r' \<and> len r' = len r \<and> contents r' = contents r @ take n d"
proof -
  obtain r1 where r1: "write_copy1 d n r = Inr r1" "same_indices r r1"
      "\<And>i. i < len r \<Longrightarrow> view r1 i = (if i < write_chunk1 r n then d ! i else view r i)"
    using write_copy1_view [OF assms(1,2)] by blast
  have ok1: "ring_ok r1" "readable r1 = readable r" "len r1 = len r" "write_chunk1 r1 n = write_chunk1 r n"
    using same_indices_ok [OF r1(2) assms(1)] r1(2) by (auto simp: same_indices_def write_chunk1_def mask_idx_def)
  obtain r2 where r2: "write_copy2 d n r1 = Inr r2" "same_indices r1 r2"
      "\<And>i. i < len r \<Longrightarrow> view r2 i = (if write_chunk1 r n \<le> i \<and> i < n then d ! i else view r1 i)"
    using write_copy2_view [OF ok1(1) assms(2)] assms(3) ok1 by (metis add_leD2)
  have ok2: "ring_ok r2" "readable r2 = readable r" "same_indices r r2"
    using same_indices_ok [OF r2(2) ok1(1)] ok1 r1(2) r2(2) by (auto simp: same_indices_def)
  have c: "write_chunk1 r n \<le> n" by (simp add: write_chunk1_def)
  have v: "view r2 i = (if i < n then d ! i else view r i)" if "i < len r" for i
    using r1(3) [OF that] r2(3) [OF that] c by auto
  have "contents r2 = contents r" using v assms(3) by (intro contents_frame [OF assms(1) ok2(3)]) auto
  moreover have "map (view r2) [0..<n] = take n d" using v assms(2,3) by (intro nth_equalityI) auto
  moreover have "len (store_write (write_idx r2 + n) r2) = len r" using ok2(3) by (simp add: store_write_def same_indices_def)
  ultimately show ?thesis
    using store_write_contents [OF ok2(1), of n] assms(3) ok2(2,3) r1(1) r2(1) by (simp add: commit_def same_indices_def)
qed

lemma write_bytes_contents:
  assumes "ring_ok r" and "n = min (writable r) (length d)"
  shows "\<exists>r'. write_bytes d r = Inr (n, r') \<and> ring_ok r' \<and> len r' = len r \<and> contents r' = contents r @ take n d"
proof (cases "n = 0")
  case False
  then have "write_bytes d r = commit d n r" by (simp add: write_bytes_def commit_def assms(2) [symmetric] Let_def)
  then show ?thesis using commit_contents [OF assms(1), of n d] writable_le [OF assms(1)] assms(2) by simp
qed (use assms in \<open>auto simp: write_bytes_def Let_def\<close>)

subsection \<open>Vectors\<close>

text \<open>The vectors that fit into a limit as a whole, up to the first that does not.\<close>

fun fitting :: "nat \<Rightarrow> u8 list list \<Rightarrow> u8 list list" where
  "fitting limit [] = []"
| "fitting limit (v # vs) = (if length v \<le> limit then v # fitting (limit - length v) vs else [])"

lemma fitting_le: "length (concat (fitting limit vs)) \<le> limit"
  by (induction limit vs rule: fitting.induct) auto

lemma write_at_append:
  "k + length xs + length ys \<le> length b \<Longrightarrow> write_at (k + length xs) ys (write_at k xs b) = write_at k (xs @ ys) b"
  by (intro nth_equalityI) (auto simp: nth_write_at nth_append)

lemma memcpy_in_append:
  "k + length xs + length ys \<le> len r \<Longrightarrow>
   bind_result (memcpy_in k xs r) (memcpy_in (k + length xs) ys) = memcpy_in k (xs @ ys) r"
  by (simp add: memcpy_in_def write_at_append add.assoc)

lemma memcpy_in_Nil: "k \<le> len r \<Longrightarrow> memcpy_in k [] r = Inr r"
  by (simp add: memcpy_in_def write_at_def)

lemma write_full_memcpy:
  assumes "start + limit \<le> len r" "written \<le> limit" "f = fitting (limit - written) vs"
  shows "write_full start limit written vs r =
    bind_result (memcpy_in (start + written) (concat f) r) (\<lambda>r. Inr (written + length (concat f), drop (length f) vs, r))"
  using assms
proof (induction vs arbitrary: written r f)
  case (Cons v vs)
  show ?case
  proof (cases "written + length v \<le> limit")
    case True
    let ?f = "fitting (limit - (written + length v)) vs"
    have f: "f = v # ?f" using Cons.prems(3) True by (simp add: diff_diff_add)
    have le: "start + written + length v \<le> len r" using Cons.prems True by simp
    then obtain r1 where r1: "memcpy_in (start + written) v r = Inr r1" "len r1 = len r"
      by (auto simp: memcpy_in_def)
    have "start + written + length v + length (concat ?f) \<le> len r"
      using fitting_le [of "limit - (written + length v)" vs] Cons.prems True by linarith
    then have "memcpy_in (start + written + length v) (concat ?f) r1 = memcpy_in (start + written) (concat f) r"
      using memcpy_in_append [of "start + written" v "concat ?f" r] r1 f by simp
    moreover have "write_full start limit (written + length v) vs r1 =
        bind_result (memcpy_in (start + written + length v) (concat ?f) r1)
          (\<lambda>r. Inr (written + length v + length (concat ?f), drop (length ?f) vs, r))"
      using Cons.IH [of r1 "written + length v" ?f] Cons.prems(1) True r1(2) by (simp only: add.assoc)
    ultimately show ?thesis using True r1(1) f by (simp add: add.assoc)
  next
    case False
    then have "f = []" using Cons.prems by simp
    then show ?thesis using False Cons.prems(1,2) by (simp add: memcpy_in_Nil)
  qed
qed (simp add: memcpy_in_Nil)

lemma fitting_split:
  "c \<le> limit \<Longrightarrow> fitting limit vs = fitting c vs @ fitting (limit - length (concat (fitting c vs))) (drop (length (fitting c vs)) vs)"
proof (induction c vs arbitrary: limit rule: fitting.induct)
  case (2 c v vs)
  show ?case
  proof (cases "length v \<le> c")
    case True
    then show ?thesis using 2(1) [OF True, of "limit - length v"] 2(2) by simp
  qed simp
qed simp

lemma fitting_rest:
  "fitting c vs \<noteq> vs \<Longrightarrow> \<exists>v ws. drop (length (fitting c vs)) vs = v # ws \<and> c < length (concat (fitting c vs)) + length v"
proof (induction c vs rule: fitting.induct)
  case (2 c v vs)
  then show ?case by (cases "length v \<le> c") auto
qed simp

lemma fitting_all: "sum_list (map length vs) \<le> c \<Longrightarrow> fitting c vs = vs"
  by (induction c vs rule: fitting.induct) auto

lemma memcpy_in_indices:
  assumes "memcpy_in k xs r = Inr r'" "ring_ok r"
  shows "write_idx r' = write_idx r" "len r' = len r" "write_chunk1 r' n = write_chunk1 r n" "mask_idx r' i = mask_idx r i"
  using view_memcpy_in(1-3) [OF assms(1) ring_okD(1) [OF assms(2)]] by (simp_all add: write_chunk1_def mask_idx_def)

lemma commit_low:
  assumes "ring_ok r" "length d \<le> len r - write_idx r mod len r"
  shows "commit d (length d) r = bind_result (memcpy_in (mask_idx r (write_idx r)) d r)
    (\<lambda>r'. Inr (length d, store_write (write_idx r + length d) r'))"
proof -
  have c: "write_chunk1 r (length d) = length d" using write_chunk1_eq [OF assms(1)] assms(2) by simp
  have 1: "write_copy1 d (length d) r = memcpy_in (mask_idx r (write_idx r)) d r" using c by (simp add: write_copy1_def)
  show ?thesis
  proof (cases "memcpy_in (mask_idx r (write_idx r)) d r")
    case (Inr r1)
    note i = memcpy_in_indices [OF Inr assms(1)]
    have "write_copy2 d (length d) r1 = Inr r1" using c i(3) by (simp add: write_copy2_def memcpy_in_Nil)
    then show ?thesis using 1 Inr i(1) by (simp add: commit_def)
  qed (simp add: commit_def 1)
qed

lemma commit_wrap:
  assumes "ring_ok r" "c = len r - write_idx r mod len r" "c \<le> length d"
  shows "commit d (length d) r = bind_result (memcpy_in (mask_idx r (write_idx r)) (take c d) r)
    (\<lambda>r1. bind_result (memcpy_in 0 (drop c d) r1) (\<lambda>r2. Inr (length d, store_write (write_idx r + length d) r2)))"
proof -
  have c: "write_chunk1 r (length d) = c" using write_chunk1_eq [OF assms(1)] assms(2,3) by simp
  have 1: "write_copy1 d (length d) r = memcpy_in (mask_idx r (write_idx r)) (take c d) r" using c by (simp add: write_copy1_def)
  show ?thesis
  proof (cases "memcpy_in (mask_idx r (write_idx r)) (take c d) r")
    case (Inr r1)
    note i = memcpy_in_indices [OF Inr assms(1)]
    have 2: "write_copy2 d (length d) r1 = memcpy_in 0 (drop c d) r1" using c i(3) by (simp add: write_copy2_def)
    show ?thesis
    proof (cases "memcpy_in 0 (drop c d) r1")
      case (Inr r2)
      have "write_idx r2 = write_idx r" using Inr i(1) by (auto simp: memcpy_in_def split: if_splits)
      then show ?thesis using 1 2 Inr \<open>memcpy_in _ (take c d) r = Inr r1\<close> by (simp add: commit_def)
    qed (use 1 2 Inr in \<open>simp add: commit_def\<close>)
  qed (simp add: commit_def 1)
qed

lemma write_iov_commit:
  assumes ok: "ring_ok r" and L: "L = min (writable r) (sum_list (map length iov))" "L \<noteq> 0" and d: "d = concat (fitting L iov)"
  shows "write_iov iov r = commit d (length d) r"
proof -
  let ?w = "write_idx r mod len r" and ?F1 = "fitting (write_chunk1 r L) iov"
  let ?c = "write_chunk1 r L" and ?n1 = "length (concat ?F1)"
  have w: "mask_idx r (write_idx r) = ?w" "?w < len r" using ring_okD [OF ok] by (simp_all add: mask_idx_mod)
  have c: "?c = min L (len r - ?w)" by (rule write_chunk1_eq [OF ok])
  have len: "?w + ?c \<le> len r" "L \<le> len r" using c w(2) writable_le [OF ok] L(1) by linarith+
  have n1: "?n1 \<le> ?c" by (rule fitting_le)
  obtain r1 where r1: "memcpy_in ?w (concat ?F1) r = Inr r1" using len n1 by (fastforce simp: memcpy_in_def)
  note i1 = memcpy_in_indices [OF r1 ok]
  have full: "write_full ?w ?c 0 iov r = Inr (?n1, drop (length ?F1) iov, r1)"
    using write_full_memcpy [of ?w ?c r 0 ?F1 iov] len r1 by simp
  have split: "fitting L iov = ?F1 @ fitting (L - ?n1) (drop (length ?F1) iov)" using fitting_split [of ?c L iov] c by simp
  note iov = write_iov_def [of iov r, unfolded L(1) [symmetric] Let_def w(1)]
  show ?thesis
  proof (cases "?c = L")
    case True
    then have "d = concat ?F1" using d by simp
    then show ?thesis using True full L(2) r1 commit_low [OF ok, of d] n1 c w(1) by (simp add: iov)
  next
    case False
    then have cL: "?c < L" "?c = len r - ?w" using c by linarith+
    then have "fitting ?c iov \<noteq> iov" using L(1) n1 by (auto simp: length_concat)
    then obtain v vs where v: "drop (length ?F1) iov = v # vs" "?c < ?n1 + length v" using fitting_rest by blast
    let ?p1 = "?c - ?n1" and ?p2 = "length v - (?c - ?n1)"
    show ?thesis
    proof (cases "L - ?c < ?p2")
      case True
      then have "\<not> length v \<le> L - ?n1" using n1 v(2) cL(1) by linarith
      then have dF: "d = concat ?F1" using d split v(1) by simp
      then have "length d \<le> len r - ?w" using n1 cL(2) by simp
      from commit_low [OF ok this] show ?thesis unfolding iov using True full L(2) r1 dF w(1) v(1) cL(1) by simp
    next
      case fits: False
      let ?F2 = "fitting (L - ?c - ?p2) vs"
      have vL: "length v \<le> L - ?n1" "L - ?n1 - length v = L - ?c - ?p2" using fits n1 v(2) cL(1) by linarith+
      have dd: "d = concat ?F1 @ v @ concat ?F2" using d split v(1) vL by simp
      have tk: "take ?c d = concat ?F1 @ take ?p1 v" "drop ?c d = drop ?p1 v @ concat ?F2" using n1 v(2) by (simp_all add: dd)
      have "?w + length (concat ?F1 @ take ?p1 v) \<le> len r" using len(1) n1 v(2) by simp
      then obtain r2 where r2: "memcpy_in ?w (concat ?F1 @ take ?p1 v) r = Inr r2" by (fastforce simp: memcpy_in_def)
      have m2: "memcpy_in (?w + ?n1) (take ?p1 v) r1 = Inr r2"
        using memcpy_in_append [of ?w "concat ?F1" "take ?p1 v" r] r1 r2 len(1) n1 v(2) by simp
      have l2: "len r2 = len r" using memcpy_in_indices(2) [OF r2 ok] .
      have F2: "?p2 + length (concat ?F2) \<le> len r" using fitting_le [of "L - ?c - ?p2" vs] fits len(2) by linarith
      then obtain r3 where r3: "memcpy_in 0 (drop ?p1 v) r2 = Inr r3" "len r3 = len r" using l2 by (auto simp: memcpy_in_def)
      have m3: "memcpy_in ?p2 (concat ?F2) r3 = memcpy_in 0 (drop ?p1 v @ concat ?F2) r2"
        using memcpy_in_append [of 0 "drop ?p1 v" "concat ?F2" r2] F2
        by (simp only: r3(1) l2 bind_result_simps length_drop add_0_left)
      have f3: "write_full 0 (L - ?c) ?p2 vs r3 =
          bind_result (memcpy_in ?p2 (concat ?F2) r3) (\<lambda>r. Inr (?p2 + length (concat ?F2), drop (length ?F2) vs, r))"
        using write_full_memcpy [of 0 "L - ?c" r3 ?p2 ?F2 vs] fits r3(2) len(2) by simp
      have guards: "(L = 0) = False" "(?c = L) = False" "(L - ?c < ?p2) = False" using L(2) cL(1) fits by simp_all
      have ld: "length d = ?n1 + ?p1 + (?p2 + length (concat ?F2))" "?c \<le> length d" using v(2) n1 by (simp_all add: dd)
      show ?thesis
        unfolding commit_wrap [OF ok cL(2) ld(2)] iov tk w(1)
        by (cases "memcpy_in 0 (drop ?p1 v @ concat ?F2) r2")
          (simp_all only: guards full bind_result_simps prod.case if_False list.case m2 m3 f3 r2 r3(1) v(1)
            i1(4) w(1) ld(1) add.assoc)
    qed
  qed
qed

lemma write_iov_contents:
  assumes "ring_ok r" and "d = concat (fitting (writable r) iov)"
  shows "\<exists>r'. write_iov iov r = Inr (length d, r') \<and> ring_ok r' \<and> len r' = len r \<and> contents r' = contents r @ d"
proof -
  define L where L: "L = min (writable r) (sum_list (map length iov))"
  have d: "d = concat (fitting L iov)"
    using assms(2) fitting_all [of iov "writable r"] fitting_all [of iov "sum_list (map length iov)"] by (auto simp: L min_def)
  show ?thesis
  proof (cases "L = 0")
    case True
    then have "d = []" using d fitting_le [of L iov] by auto
    then show ?thesis using True L assms(1) by (simp add: write_iov_def)
  next
    case False
    have "length d \<le> L" using d fitting_le by simp
    then have "readable r + length d \<le> len r" using writable_le [OF assms(1)] L by simp
    then show ?thesis
      using commit_contents [OF assms(1) order_refl, of d] write_iov_commit [OF assms(1) L False d] by simp
  qed
qed

lemma write_iov_all:
  assumes "ring_ok r" "sum_list (map length iov) \<le> writable r"
  shows "\<exists>r'. write_iov iov r = Inr (length (concat iov), r') \<and> ring_ok r' \<and> len r' = len r \<and> contents r' = contents r @ concat iov"
  using write_iov_contents [OF assms(1) refl, of iov] fitting_all [OF assms(2)] by simp

lemma size_sub_wrap: "a < b \<Longrightarrow> b < 2 ^ 64 \<Longrightarrow> size_sub a b = 2 ^ 64 - (b - a)"
  by (simp add: size_sub_def unat_sub_if' unat_of_nat_small)

lemma pread_wraps:
  assumes "ring_ok r" "2 * len r < read_idx r + offset" "offset < readable r" "0 < n"
  shows "pread n offset r = Inl Out_of_bounds"
proof -
  define k where "k = min (readable r - offset) n"
  define m where "m = read_idx r + offset - len r"
  note ok = ring_okD [OF assms(1)]
  have m: "mask_idx r (read_idx r + offset) = m" "len r < m" "m < 3 * len r"
    using assms(2,3) ok by (auto simp: mask_idx_def m_def)
  have k: "k \<le> len r" "0 < k" using ok(5) assms(3,4) by (auto simp: k_def)
  have "size_sub (len r) m = 2 ^ 64 - (m - len r)" using m(2,3) ok(2) by (intro size_sub_wrap) auto
  then have "k \<le> size_sub (len r) m" using k(1) m(3) ok(2) by simp
  then have "read_chunk1 r offset k = k" by (simp add: read_chunk1_def m(1) min_absorb1)
  then have "read_copy1 r offset k = Inl Out_of_bounds" using m by (simp add: read_copy1_def memcpy_out_def)
  then show ?thesis using assms(3) k(2) by (simp add: pread_def Let_def k_def)
qed

end
