(* ===== verification/Shared_Ring.thy ===== *)
theory Shared_Ring
  imports Circular_Buffer
begin

text \<open>
  The circular buffer as its users see it: a bounded queue of bytes. First the contract of such a queue and what
  follows for a stream of writes and reads, then producer and consumer running at the same time, their
  loads, copies and stores interleaved in any way, as the client process and the stack do.
\<close>

subsection \<open>A queue of bytes\<close>

datatype fifo_op = Put "u8 list" | Get nat

text \<open>The bytes accepted and the bytes delivered by a sequence of calls.\<close>

fun fifo_run :: "(u8 list \<Rightarrow> 'r \<Rightarrow> 'e + (nat \<times> 'r)) \<Rightarrow> (nat \<Rightarrow> 'r \<Rightarrow> 'e + (u8 list \<times> 'r)) \<Rightarrow> fifo_op list \<Rightarrow> 'r \<Rightarrow>
    'e + (u8 list \<times> u8 list \<times> 'r)" where
  "fifo_run put get [] r = Inr ([], [], r)"
| "fifo_run put get (Put d # ops) r =
     bind_result (put d r) (\<lambda>(n, r). bind_result (fifo_run put get ops r) (\<lambda>(ins, outs, r). Inr (take n d @ ins, outs, r)))"
| "fifo_run put get (Get n # ops) r =
     bind_result (get n r) (\<lambda>(bs, r). bind_result (fifo_run put get ops r) (\<lambda>(ins, outs, r). Inr (ins, bs @ outs, r)))"

locale byte_fifo =
  fixes ok :: "'r \<Rightarrow> bool" and queue :: "'r \<Rightarrow> u8 list" and room :: "'r \<Rightarrow> nat"
    and put :: "u8 list \<Rightarrow> 'r \<Rightarrow> 'e + (nat \<times> 'r)" and get :: "nat \<Rightarrow> 'r \<Rightarrow> 'e + (u8 list \<times> 'r)"
  assumes put: "ok r \<Longrightarrow> \<exists>r'. put d r = Inr (min (room r) (length d), r') \<and> ok r' \<and> queue r' = queue r @ take (min (room r) (length d)) d"
    and get: "ok r \<Longrightarrow> \<exists>r'. get n r = Inr (take n (queue r), r') \<and> ok r' \<and> queue r' = drop n (queue r)"
begin

lemma stream: "ok r \<Longrightarrow> \<exists>ins outs r'. fifo_run put get ops r = Inr (ins, outs, r') \<and> ok r' \<and> queue r @ ins = outs @ queue r'"
proof (induction ops arbitrary: r)
  case (Cons x ops)
  show ?case
  proof (cases x)
    case (Put d)
    obtain r1 where r1: "put d r = Inr (min (room r) (length d), r1)" "ok r1" "queue r1 = queue r @ take (min (room r) (length d)) d"
      using put [OF Cons.prems] by blast
    then show ?thesis using Put Cons.IH [OF r1(2)] by auto
  next
    case (Get n)
    obtain r1 where r1: "get n r = Inr (take n (queue r), r1)" "ok r1" "queue r1 = drop n (queue r)" using get [OF Cons.prems] by blast
    obtain ins outs r' where r': "fifo_run put get ops r1 = Inr (ins, outs, r')" "ok r'" "queue r1 @ ins = outs @ queue r'"
      using Cons.IH [OF r1(2)] by blast
    have "queue r @ ins = (take n (queue r) @ outs) @ queue r'" using r1(3) r'(3) by (metis append_assoc append_take_drop_id)
    then show ?thesis using Get r1(1) r'(1,2) by auto
  qed
qed simp

end

interpretation ring_fifo: byte_fifo ring_ok contents writable write_bytes read_bytes
proof
  show "\<exists>r'. write_bytes d r = Inr (min (writable r) (length d), r') \<and> ring_ok r' \<and> contents r' = contents r @ take (min (writable r) (length d)) d"
    if "ring_ok r" for r d using write_bytes_contents [OF that refl] by blast
  show "\<exists>r'. read_bytes n r = Inr (take n (contents r), r') \<and> ring_ok r' \<and> contents r' = drop n (contents r)" if "ring_ok r" for r n
    using read_bytes_contents [OF that] by blast
qed

text \<open>The ring refines a queue with a capacity, which takes bytes in multiples of 32.\<close>

definition bounded_put :: "u8 list \<Rightarrow> nat \<times> u8 list \<Rightarrow> access_error + (nat \<times> nat \<times> u8 list)" where
  "bounded_put d q =
     (let n = min (32 * ((fst q - length (snd q)) div 32)) (length d) in Inr (n, fst q, snd q @ take n d))"

definition bounded_get :: "nat \<Rightarrow> nat \<times> u8 list \<Rightarrow> access_error + (u8 list \<times> nat \<times> u8 list)" where
  "bounded_get n q = Inr (take n (snd q), fst q, drop n (snd q))"

interpretation bounded_fifo: byte_fifo "\<lambda>q. True" snd "\<lambda>q. 32 * ((fst q - length (snd q)) div 32)" bounded_put bounded_get
  by unfold_locales (simp_all add: bounded_put_def bounded_get_def Let_def)

lemma ring_refines:
  "ring_ok r \<Longrightarrow> \<exists>ins outs r'. fifo_run write_bytes read_bytes ops r = Inr (ins, outs, r') \<and> ring_ok r'
     \<and> fifo_run bounded_put bounded_get ops (len r, contents r) = Inr (ins, outs, len r', contents r')"
proof (induction ops arbitrary: r)
  case (Cons x ops)
  show ?case
  proof (cases x)
    case (Put d)
    define n where "n = min (writable r) (length d)"
    obtain r1 where r1: "write_bytes d r = Inr (n, r1)" "ring_ok r1" "len r1 = len r" "contents r1 = contents r @ take n d"
      using write_bytes_contents [OF Cons.prems n_def] by blast
    have "bounded_put d (len r, contents r) = Inr (n, len r1, contents r1)"
      using r1(3,4) writable_eq [OF Cons.prems] by (simp add: bounded_put_def n_def Let_def)
    then show ?thesis using Put Cons.IH [OF r1(2)] r1(1) by auto
  next
    case (Get n)
    obtain r1 where r1: "read_bytes n r = Inr (take n (contents r), r1)" "ring_ok r1" "len r1 = len r" "contents r1 = drop n (contents r)"
      using read_bytes_contents [OF Cons.prems] by blast
    then show ?thesis using Get Cons.IH [OF r1(2)] by (auto simp: bounded_get_def)
  qed
qed simp

text \<open>Where a read is split by the notification does not matter, however stale the static low-water mark is.\<close>

lemma read_and_notify_bytes:
  assumes "ring_ok r" and notify: "\<And>r. ring_ok r \<Longrightarrow> ring_ok (notify r) \<and> (\<exists>bs. contents (notify r) = contents r @ bs)"
  shows "\<exists>l r'. read_and_notify n notify lowat r = Inr (take n (contents r), l, r')"
proof -
  define l where "l = (case lowat of Some l \<Rightarrow> l | None \<Rightarrow> size_sub (readable r) (len r div 2))"
  define k where "k = min (readable r) n"
  define c where "c = min k l"
  obtain r1 where r1: "read_bytes c r = Inr (take c (contents r), r1)" "ring_ok r1" "contents r1 = drop c (contents r)"
    using read_bytes_contents [OF assms(1)] by blast
  obtain bs where bs: "ring_ok (notify r1)" "contents (notify r1) = contents r1 @ bs" using notify [OF r1(2)] by blast
  obtain r2 where r2: "read_bytes (k - c) (notify r1) = Inr (take (k - c) (contents (notify r1)), r2)"
    using read_bytes_contents [OF bs(1)] by blast
  have "c \<le> k" "k \<le> readable r" unfolding c_def k_def by linarith+
  then have "take (k - c) (contents (notify r1)) = take (k - c) (drop c (contents r))" using bs(2) r1(3) by simp
  moreover have "take c (contents r) @ take (k - c) (drop c (contents r)) = take k (contents r)"
    using \<open>c \<le> k\<close> take_add [of c "k - c" "contents r"] by simp
  moreover have "take k (contents r) = take n (contents r)" by (simp add: k_def min_def)
  ultimately show ?thesis
    using r1(1) r2 by (cases "k = 0") (auto simp: read_and_notify_def l_def [symmetric] k_def [symmetric] c_def [symmetric] Let_def)
qed

subsection \<open>Producer and consumer at the same time\<close>

text \<open>Where a call of \<open>write\<close> and a call of \<open>read\<close> are: before each copy, and before the store that publishes it.\<close>

datatype producer = P_idle | P_copy1 "u8 list" nat | P_copy2 "u8 list" nat | P_store "u8 list" nat

datatype consumer = C_idle | C_copy1 nat | C_copy2 nat "u8 list" | C_drop "u8 list"

record channel =
  ring_of :: ring
  producer_at :: producer
  consumer_at :: consumer
  accepted :: "u8 list"
  delivered :: "u8 list"

inductive channel_step :: "channel \<Rightarrow> channel \<Rightarrow> bool" where
  p_load: "producer_at c = P_idle \<Longrightarrow> n = min (writable (ring_of c)) (length d) \<Longrightarrow> n \<noteq> 0 \<Longrightarrow>
    channel_step c (c\<lparr>producer_at := P_copy1 d n\<rparr>)"
| p_copy1: "producer_at c = P_copy1 d n \<Longrightarrow> write_copy1 d n (ring_of c) = Inr r \<Longrightarrow>
    channel_step c (c\<lparr>ring_of := r, producer_at := P_copy2 d n\<rparr>)"
| p_copy2: "producer_at c = P_copy2 d n \<Longrightarrow> write_copy2 d n (ring_of c) = Inr r \<Longrightarrow>
    channel_step c (c\<lparr>ring_of := r, producer_at := P_store d n\<rparr>)"
| p_store: "producer_at c = P_store d n \<Longrightarrow>
    channel_step c (c\<lparr>ring_of := store_write (write_idx (ring_of c) + n) (ring_of c), producer_at := P_idle,
      accepted := accepted c @ take n d\<rparr>)"
| c_load: "consumer_at c = C_idle \<Longrightarrow> k = min (readable (ring_of c)) n \<Longrightarrow> k \<noteq> 0 \<Longrightarrow>
    channel_step c (c\<lparr>consumer_at := C_copy1 k\<rparr>)"
| c_copy1: "consumer_at c = C_copy1 k \<Longrightarrow> read_copy1 (ring_of c) 0 k = Inr bs \<Longrightarrow>
    channel_step c (c\<lparr>consumer_at := C_copy2 k bs\<rparr>)"
| c_copy2: "consumer_at c = C_copy2 k bs \<Longrightarrow> read_copy2 (ring_of c) 0 k = Inr bs' \<Longrightarrow>
    channel_step c (c\<lparr>consumer_at := C_drop (bs @ bs')\<rparr>)"
| c_drop: "consumer_at c = C_drop bs \<Longrightarrow> drop_bytes (length bs) (ring_of c) = (k, r) \<Longrightarrow>
    channel_step c (c\<lparr>ring_of := r, consumer_at := C_idle, delivered := delivered c @ take k bs\<rparr>)"

inductive_cases channel_stepE: "channel_step c c'"

inductive reachable_channel :: "ring \<Rightarrow> channel \<Rightarrow> bool" for r where
  start: "contents r = [] \<Longrightarrow> reachable_channel r \<lparr>ring_of = r, producer_at = P_idle, consumer_at = C_idle, accepted = [], delivered = []\<rparr>"
| step: "reachable_channel r c \<Longrightarrow> channel_step c c' \<Longrightarrow> reachable_channel r c'"

text \<open>What each side knows about the ring while it works on it.\<close>

definition producer_inv :: "producer \<Rightarrow> ring \<Rightarrow> bool" where
  "producer_inv p r =
     (case p of
        P_idle \<Rightarrow> True
      | P_copy1 d n \<Rightarrow> n \<le> length d \<and> readable r + n \<le> len r
      | P_copy2 d n \<Rightarrow> n \<le> length d \<and> readable r + n \<le> len r \<and> (\<forall>i < write_chunk1 r n. view r i = d ! i)
      | P_store d n \<Rightarrow> n \<le> length d \<and> readable r + n \<le> len r \<and> (\<forall>i < n. view r i = d ! i))"

definition consumer_inv :: "consumer \<Rightarrow> ring \<Rightarrow> bool" where
  "consumer_inv q r =
     (case q of
        C_idle \<Rightarrow> True
      | C_copy1 k \<Rightarrow> k \<le> readable r
      | C_copy2 k bs \<Rightarrow> k \<le> readable r \<and> bs = take (read_chunk1 r 0 k) (contents r)
      | C_drop bs \<Rightarrow> length bs \<le> readable r \<and> bs = take (length bs) (contents r))"

definition channel_inv :: "channel \<Rightarrow> bool" where
  "channel_inv c \<longleftrightarrow> ring_ok (ring_of c) \<and> producer_inv (producer_at c) (ring_of c) \<and> consumer_inv (consumer_at c) (ring_of c)
     \<and> accepted c = delivered c @ contents (ring_of c)"

lemma consumer_copies:
  assumes "ring_ok r" "k \<le> readable r"
  shows "\<exists>bs1 bs2. read_copy1 r 0 k = Inr bs1 \<and> read_copy2 r 0 k = Inr bs2 \<and> length bs1 = read_chunk1 r 0 k \<and> bs1 @ bs2 = take k (contents r)"
proof -
  have "map (\<lambda>i. base r ! ((read_idx r + 0 + i) mod len r)) [0..<k] = take k (contents r)"
    using assms(2) by (simp add: contents_def take_map)
  then show ?thesis using read_copies [OF assms(1), of 0 k] ring_okD(3,5) [OF assms(1)] assms(2) by simp
qed

lemma consumer_inv_frame:
  assumes "same_indices r r'" "contents r' = contents r"
  shows "consumer_inv q r' = consumer_inv q r"
  using assms by (auto simp: consumer_inv_def same_indices_def readable_def read_chunk1_def mask_idx_def split: consumer.split)

lemma consumer_inv_grow:
  assumes "contents r' = contents r @ bs" "read_idx r' = read_idx r" "len r' = len r" "consumer_inv q r"
  shows "consumer_inv q r'"
proof -
  have "readable r' = readable r + length bs" using arg_cong [OF assms(1), of length] by simp
  moreover have "take k (contents r') = take k (contents r)" if "k \<le> readable r" for k using that assms(1) by simp
  moreover have "take (read_chunk1 r 0 k) (contents r') = take (read_chunk1 r 0 k) (contents r)" if "k \<le> readable r" for k
    using that assms(1) by (simp add: read_chunk1_def)
  moreover have "read_chunk1 r' 0 k = read_chunk1 r 0 k" "read_chunk1 r 0 k \<le> k" for k
    using assms(2,3) by (simp_all add: read_chunk1_def mask_idx_def)
  ultimately show ?thesis using assms(4) by (auto simp: consumer_inv_def split: consumer.splits)
qed

lemma producer_inv_drained:
  assumes "base r' = base r" "write_idx r' = write_idx r" "readable r' \<le> readable r" "producer_inv p r"
  shows "producer_inv p r'"
  using assms by (auto simp: producer_inv_def view_def write_chunk1_def mask_idx_def split: producer.splits)

lemma channel_step_inv:
  assumes "channel_step c c'" "channel_inv c"
  shows "channel_inv c'"
  using assms(1)
proof cases
  case (p_copy1 d n r)
  let ?r = "ring_of c"
  have inv: "ring_ok ?r" "n \<le> length d" "readable ?r + n \<le> len ?r" "consumer_inv (consumer_at c) ?r"
    using assms(2) p_copy1 by (auto simp: channel_inv_def producer_inv_def)
  then have r: "same_indices ?r r" "\<And>i. i < len ?r \<Longrightarrow> view r i = (if i < write_chunk1 ?r n then d ! i else view ?r i)"
    using write_copy1_view [OF inv(1,2)] p_copy1 by auto
  have chunk: "write_chunk1 r n = write_chunk1 ?r n" "write_chunk1 ?r n \<le> n"
    using r(1) by (auto simp: same_indices_def write_chunk1_def mask_idx_def)
  then have con: "contents r = contents ?r" using r(2) inv(3) by (intro contents_frame [OF inv(1) r(1)]) auto
  have ok: "ring_ok r" "readable r = readable ?r" "len r = len ?r" using same_indices_ok [OF r(1) inv(1)] r(1) by (auto simp: same_indices_def)
  then have "producer_inv (P_copy2 d n) r" using inv(2,3) chunk r(2) by (auto simp: producer_inv_def)
  then show ?thesis using assms(2) p_copy1 con ok consumer_inv_frame [OF r(1) con] by (auto simp: channel_inv_def)
next
  case (p_copy2 d n r)
  let ?r = "ring_of c"
  have inv: "ring_ok ?r" "n \<le> length d" "readable ?r + n \<le> len ?r" "\<forall>i < write_chunk1 ?r n. view ?r i = d ! i"
    using assms(2) p_copy2 by (auto simp: channel_inv_def producer_inv_def)
  then have r: "same_indices ?r r" "\<And>i. i < len ?r \<Longrightarrow> view r i = (if write_chunk1 ?r n \<le> i \<and> i < n then d ! i else view ?r i)"
    using write_copy2_view [OF inv(1,2)] p_copy2 by auto
  then have con: "contents r = contents ?r" using inv(3) by (intro contents_frame [OF inv(1) r(1)]) auto
  have ok: "ring_ok r" "readable r = readable ?r" "len r = len ?r" using same_indices_ok [OF r(1) inv(1)] r(1) by (auto simp: same_indices_def)
  have "view r i = d ! i" if "i < n" for i using r(2) [of i] inv(3,4) that by (cases "i < write_chunk1 ?r n") auto
  then have "producer_inv (P_store d n) r" using inv(2,3) ok by (auto simp: producer_inv_def)
  then show ?thesis using assms(2) p_copy2 con ok consumer_inv_frame [OF r(1) con] by (auto simp: channel_inv_def)
next
  case (p_store d n)
  let ?r = "ring_of c"
  let ?s = "store_write (write_idx ?r + n) ?r"
  have inv: "ring_ok ?r" "n \<le> length d" "readable ?r + n \<le> len ?r" "\<forall>i < n. view ?r i = d ! i" "consumer_inv (consumer_at c) ?r"
    using assms(2) p_store by (auto simp: channel_inv_def producer_inv_def)
  have "map (view ?r) [0..<n] = take n d" using inv(2,4) by (intro nth_equalityI) auto
  then have s: "ring_ok ?s" "contents ?s = contents ?r @ take n d" using store_write_contents [OF inv(1,3)] by simp_all
  have "consumer_inv (consumer_at c) ?s" by (rule consumer_inv_grow [OF s(2) _ _ inv(5)]) (simp_all add: store_write_def)
  then show ?thesis using assms(2) p_store s by (auto simp: channel_inv_def producer_inv_def)
next
  case (c_copy1 k bs)
  have "ring_ok (ring_of c)" "k \<le> readable (ring_of c)" using assms(2) c_copy1 by (auto simp: channel_inv_def consumer_inv_def)
  from consumer_copies [OF this] have "bs = take (read_chunk1 (ring_of c) 0 k) (take k (contents (ring_of c)))"
    using c_copy1 by (metis Inr_inject append_eq_conv_conj)
  then have "bs = take (read_chunk1 (ring_of c) 0 k) (contents (ring_of c))" by (simp add: read_chunk1_def min.commute min.left_commute)
  then show ?thesis using assms(2) c_copy1 by (auto simp: channel_inv_def consumer_inv_def)
next
  case (c_copy2 k bs bs')
  let ?r = "ring_of c"
  have inv: "ring_ok ?r" "k \<le> readable ?r" "bs = take (read_chunk1 ?r 0 k) (contents ?r)"
    using assms(2) c_copy2 by (auto simp: channel_inv_def consumer_inv_def)
  obtain bs1 where bs1: "length bs1 = read_chunk1 ?r 0 k" "bs1 @ bs' = take k (contents ?r)"
    using consumer_copies [OF inv(1,2)] c_copy2 by auto
  have "read_chunk1 ?r 0 k \<le> k" by (simp add: read_chunk1_def)
  then have "bs = bs1" using inv(3) bs1 by (metis append_eq_conv_conj min.absorb1 take_take)
  then have "bs @ bs' = take k (contents ?r)" "length (bs @ bs') = k" using bs1(2) inv(2) by auto
  then show ?thesis using assms(2) c_copy2 inv by (auto simp: channel_inv_def consumer_inv_def)
next
  case (c_drop bs k r)
  let ?r = "ring_of c"
  have inv: "ring_ok ?r" "length bs \<le> readable ?r" "bs = take (length bs) (contents ?r)" "producer_inv (producer_at c) ?r"
    using assms(2) c_drop by (auto simp: channel_inv_def consumer_inv_def)
  have d: "k = length bs" "ring_ok r" "contents r = drop (length bs) (contents ?r)"
    using drop_bytes_contents [OF inv(1) c_drop(3)] inv(2) by auto
  have "readable r \<le> readable ?r" using arg_cong [OF d(3), of length] by simp
  then have "producer_inv (producer_at c) r"
    using c_drop by (intro producer_inv_drained [OF _ _ _ inv(4)]) (auto simp: drop_bytes_def store_read_def Let_def split: if_splits)
  moreover have "contents ?r = bs @ contents r" using inv(3) d(3) by (metis append_take_drop_id)
  ultimately show ?thesis using assms(2) c_drop d by (auto simp: channel_inv_def consumer_inv_def)
qed (use assms(2) writable_le [of "ring_of c"] in \<open>auto simp: channel_inv_def producer_inv_def consumer_inv_def\<close>)

lemma reachable_channel_inv:
  assumes "ring_ok r" "reachable_channel r c"
  shows "channel_inv c"
  using assms(2)
proof (induction rule: reachable_channel.induct)
  case start
  then show ?case using assms(1) by (simp add: channel_inv_def producer_inv_def consumer_inv_def)
next
  case (step c c')
  then show ?case using channel_step_inv by blast
qed

subsection \<open>Properties\<close>

text \<open>
  C4: the ring is a bounded queue of bytes: any sequence of writes and reads accepts and returns exactly the bytes that a
  queue of the same capacity does, wherever in the buffer it starts and however often it wraps.
\<close>

theorem ring_refines_queue:
  assumes "ring_ok r"
  shows "\<exists>ins outs r'. fifo_run write_bytes read_bytes ops r = Inr (ins, outs, r')
     \<and> fifo_run bounded_put bounded_get ops (len r, contents r) = Inr (ins, outs, len r', contents r')
     \<and> contents r @ ins = outs @ contents r'"
proof -
  obtain ins outs r' where run: "fifo_run write_bytes read_bytes ops r = Inr (ins, outs, r')"
      "fifo_run bounded_put bounded_get ops (len r, contents r) = Inr (ins, outs, len r', contents r')"
    using ring_refines [OF assms] by blast
  moreover have "contents r @ ins = outs @ contents r'" using ring_fifo.stream [OF assms, of ops] run(1) by auto
  ultimately show ?thesis by blast
qed

definition sample_ring :: ring where
  "sample_ring = \<lparr>base = replicate 64 0, read_idx = 100, write_idx = 100\<rparr>"

lemma sample_ring_ok: "ring_ok sample_ring" "contents sample_ring = []"
  by (simp_all add: ring_ok_def sample_ring_def readable_def contents_def)

theorem ring_refines_queue_witness:
  "\<exists>r'. fifo_run write_bytes read_bytes [Put (replicate 40 1), Get 30, Put (replicate 60 2), Get 60] sample_ring =
     Inr (replicate 40 1 @ replicate 32 2, replicate 40 1 @ replicate 32 2, r')"
proof -
  have "fifo_run bounded_put bounded_get [Put (replicate 40 1), Get 30, Put (replicate 60 2), Get 60] (len sample_ring, contents sample_ring) =
      Inr (replicate 40 1 @ replicate 32 2, replicate 40 1 @ replicate 32 2, 64, [])"
    unfolding sample_ring_ok
    by (simp add: sample_ring_def bounded_put_def bounded_get_def Let_def flip: replicate_add append_assoc)
  then show ?thesis
    using ring_refines_queue [OF sample_ring_ok(1), of "[Put (replicate 40 1), Get 30, Put (replicate 60 2), Get 60]"] by auto
qed

text \<open>
  C3: producer and consumer need no lock: whatever the order in which their loads, copies and stores happen, the bytes
  accepted so far are the bytes delivered so far followed by the contents of the ring, and no copy leaves the
  buffer or fails.
\<close>

theorem shared_ring_safe:
  assumes "ring_ok r" "reachable_channel r c"
  shows "accepted c = delivered c @ contents (ring_of c)
    \<and> (case producer_at c of P_copy1 d n \<Rightarrow> \<exists>r'. write_copy1 d n (ring_of c) = Inr r'
        | P_copy2 d n \<Rightarrow> \<exists>r'. write_copy2 d n (ring_of c) = Inr r' | _ \<Rightarrow> True)
    \<and> (case consumer_at c of C_copy1 k \<Rightarrow> \<exists>bs. read_copy1 (ring_of c) 0 k = Inr bs
        | C_copy2 k bs \<Rightarrow> \<exists>bs'. read_copy2 (ring_of c) 0 k = Inr bs' | _ \<Rightarrow> True)"
proof -
  have inv: "channel_inv c" by (rule reachable_channel_inv [OF assms])
  then have ok: "ring_ok (ring_of c)" by (simp add: channel_inv_def)
  have "case producer_at c of P_copy1 d n \<Rightarrow> \<exists>r'. write_copy1 d n (ring_of c) = Inr r'
      | P_copy2 d n \<Rightarrow> \<exists>r'. write_copy2 d n (ring_of c) = Inr r' | _ \<Rightarrow> True"
    using inv write_copy1_view [OF ok] write_copy2_view [OF ok]
    by (fastforce simp: channel_inv_def producer_inv_def split: producer.splits)
  moreover have "case consumer_at c of C_copy1 k \<Rightarrow> \<exists>bs. read_copy1 (ring_of c) 0 k = Inr bs
      | C_copy2 k bs \<Rightarrow> \<exists>bs'. read_copy2 (ring_of c) 0 k = Inr bs' | _ \<Rightarrow> True"
    using inv consumer_copies [OF ok] by (fastforce simp: channel_inv_def consumer_inv_def split: consumer.splits)
  ultimately show ?thesis using inv by (simp add: channel_inv_def)
qed

theorem shared_ring_safe_witness:
  "\<exists>r'. write_copy1 (replicate 40 1) 40 sample_ring = Inr r'"
proof -
  have "writable sample_ring = 64" using writable_eq [OF sample_ring_ok(1)] by (simp add: sample_ring_def readable_def)
  then have "reachable_channel sample_ring \<lparr>ring_of = sample_ring, producer_at = P_copy1 (replicate 40 1) 40, consumer_at = C_idle,
      accepted = [], delivered = []\<rparr>"
    using step [OF start [OF sample_ring_ok(2)] p_load, of 40 "replicate 40 1"] by simp
  from shared_ring_safe [OF sample_ring_ok(1) this] show ?thesis by simp
qed

text \<open>
  C34: a vectored write appends whole vectors: those that fit into the room there is, up to the first that does not, also when
  one of them wraps around the end of the buffer. The result is the number of bytes appended.
\<close>

theorem write_iov_whole_vectors:
  assumes "ring_ok r"
  shows "\<exists>r'. write_iov iov r = Inr (length (concat (fitting (writable r) iov)), r') \<and> ring_ok r'
    \<and> contents r' = contents r @ concat (fitting (writable r) iov)"
  using write_iov_contents [OF assms refl] by blast

theorem write_iov_whole_vectors_witness:
  "\<exists>r'. write_iov [replicate 30 1, replicate 30 2, replicate 30 3] sample_ring = Inr (60, r')
    \<and> contents r' = replicate 30 1 @ replicate 30 2"
proof -
  have "writable sample_ring = 64" using writable_eq [OF sample_ring_ok(1)] by (simp add: sample_ring_def readable_def)
  then show ?thesis
    using write_iov_whole_vectors [OF sample_ring_ok(1), of "[replicate 30 1, replicate 30 2, replicate 30 3]"] by (auto simp: sample_ring_ok(2))
qed

text \<open>
  Reading at an offset returns the bytes at that offset if the read index plus the offset is at most twice the length of
  the buffer. Behind that the index is reduced once only, and the copy starts outside the buffer.
\<close>

theorem pread_offset:
  assumes "ring_ok r" "offset < readable r" "0 < n"
  shows "pread n offset r =
    (if read_idx r + offset \<le> 2 * len r then Inr (take n (drop offset (contents r))) else Inl Out_of_bounds)"
  using pread_contents [OF assms(1)] pread_wraps [OF assms(1) _ assms(2,3)] by simp

definition wrapped_ring :: ring where
  "wrapped_ring = \<lparr>base = replicate 64 0, read_idx = 100, write_idx = 20\<rparr>"

theorem pread_offset_witness: "pread 4 20 wrapped_ring = Inr (take 4 (drop 20 (contents wrapped_ring))) \<and> pread 4 40 wrapped_ring = Inl Out_of_bounds"
proof -
  have "ring_ok wrapped_ring" "readable wrapped_ring = 48" by (simp_all add: ring_ok_def wrapped_ring_def readable_def)
  then show ?thesis using pread_offset [of wrapped_ring 20 4] pread_offset [of wrapped_ring 40 4] by (simp add: wrapped_ring_def)
qed

end
