(* ===== verification/Dgram_Channel.thy ===== *)
theory Dgram_Channel
  imports Shared_Ring
begin

text \<open>
  Datagrams over the shared ring, \<^verbatim>\<open>src/modules/socket/client/dgram_channel.cpp\<close> and
  \<^verbatim>\<open>src/modules/socket/server/dgram_channel.cpp\<close>: each datagram is a descriptor, written as it is in memory,
  followed by its payload. An optional address takes 36 bytes of the descriptor, kept here as bytes; the
  descriptor has 48 bytes with its padding. The eventfd traffic that wakes the other side up does not touch the
  ring and is left out; waiting for room is the argument \<open>block\<close>, which ends in an error number or, after
  the other side has run, in a ring.
\<close>

datatype dgram_error = Errno nat | Access access_error

definition EAGAIN :: nat where "EAGAIN = 11"
definition EMSGSIZE :: nat where "EMSGSIZE = 90"

definition access :: "access_error + 'a \<Rightarrow> dgram_error + 'a" where
  "access m = (case m of Inl e \<Rightarrow> Inl (Access e) | Inr x \<Rightarrow> Inr x)"

definition descriptor_tag :: u64 where "descriptor_tag = 0xABCCDDDEEEEE"

record dgram_channel_descriptor =
  tag :: u64
  address :: "u8 list"
  payload_length :: u16

definition sizeof_descriptor :: nat where "sizeof_descriptor = 48"

definition descriptor_bytes :: "dgram_channel_descriptor \<Rightarrow> u8 list" where
  "descriptor_bytes d = le_store 8 (tag d) @ address d @ le_store 2 (payload_length d) @ [0, 0]"

definition descriptor_of :: "u8 list \<Rightarrow> dgram_channel_descriptor" where
  "descriptor_of bs = \<lparr>tag = le_load (take 8 bs), address = take 36 (drop 8 bs), payload_length = le_load (take 2 (drop 44 bs))\<rparr>"

definition buffer_required :: "nat \<Rightarrow> nat" where
  "buffer_required n = sizeof_descriptor + n"

subsection \<open>The client\<close>

fun await_room :: "nat \<Rightarrow> (ring \<Rightarrow> nat + ring) \<Rightarrow> nat \<Rightarrow> ring \<Rightarrow> (nat + ring) option" where
  "await_room 0 block n r = None"
| "await_room (Suc fuel) block n r =
     (if writable r < n then (case block r of Inl e \<Rightarrow> Some (Inl e) | Inr r \<Rightarrow> await_room fuel block n r) else Some (Inr r))"

definition client_send :: "nat \<Rightarrow> (ring \<Rightarrow> nat + ring) \<Rightarrow> u8 list list \<Rightarrow> u8 list \<Rightarrow> ring \<Rightarrow> (dgram_error + (nat \<times> ring)) option" where
  "client_send fuel block iov addr r =
     (let iov_length = sum_list (map length iov) in
        if iov_length = 0 then Some (Inr (0, r))
        else if len r < buffer_required iov_length then Some (Inl (Errno EMSGSIZE))
        else case await_room fuel block (buffer_required iov_length) r of
               None \<Rightarrow> None
             | Some (Inl e) \<Rightarrow> Some (Inl (Errno e))
             | Some (Inr r) \<Rightarrow>
                 let desc = \<lparr>tag = descriptor_tag, address = addr, payload_length = of_nat iov_length\<rparr> in
                   Some (access (bind_result (write_bytes (descriptor_bytes desc) r) (\<lambda>(_, r). write_iov iov r))))"

definition iovec_bytes :: "ring \<Rightarrow> nat \<times> nat \<Rightarrow> u8 list" where
  "iovec_bytes r v = take (snd v) (drop (fst v) (base r))"

definition to_dgram_descriptor :: "ring \<Rightarrow> dgram_channel_descriptor option" where
  "to_dgram_descriptor r =
     (let p0 = peek r ! 0; p1 = peek r ! 1; available = snd p0 + snd p1 in
        if available < sizeof_descriptor then None
        else
          let desc = (if snd p0 < sizeof_descriptor
                      then descriptor_of (iovec_bytes r p0 @ take (sizeof_descriptor - snd p0) (iovec_bytes r p1))
                      else descriptor_of (take sizeof_descriptor (iovec_bytes r p0))) in
            if available < buffer_required (unat (payload_length desc)) then None else Some desc)"

text \<open>The loop over the vectors of the caller, given by their lengths; the result has the bytes put in each.\<close>

fun recv_loop :: "nat \<Rightarrow> nat list \<Rightarrow> nat \<Rightarrow> nat \<Rightarrow> ring \<Rightarrow> access_error + u8 list list" where
  "recv_loop n [] offset read_size r = Inr []"
| "recv_loop n (l # ls) offset read_size r =
     (if read_size < n
      then bind_result (pread (min (n - read_size) l) offset r) (\<lambda>bs.
             let read_size = read_size + length bs in
               bind_result (recv_loop n ls (offset + read_size) read_size r) (\<lambda>out. Inr (bs # out)))
      else Inr [])"

definition client_recv :: "bool \<Rightarrow> nat list \<Rightarrow> ring \<Rightarrow> dgram_error + (u8 list list \<times> u8 list \<times> ring)" where
  "client_recv msg_peek iov r =
     (case to_dgram_descriptor r of
        None \<Rightarrow> Inl (Errno EAGAIN)
      | Some desc \<Rightarrow>
          bind_result (access (recv_loop (unat (payload_length desc)) iov sizeof_descriptor 0 r)) (\<lambda>out.
            Inr (out, address desc, if msg_peek then r else snd (drop_bytes (buffer_required (unat (payload_length desc))) r))))"

subsection \<open>The server\<close>

definition channel_send :: "u8 list \<Rightarrow> u8 list \<Rightarrow> ring \<Rightarrow> access_error + (bool \<times> ring)" where
  "channel_send p addr r =
     (if writable r < buffer_required (length p) then Inr (False, r)
      else
        let desc = \<lparr>tag = descriptor_tag, address = addr, payload_length = of_nat (length p)\<rparr> in
          bind_result (write_iov [descriptor_bytes desc, p] r) (\<lambda>(written, r). Inr (True, r)))"

text \<open>The chain of buffers is given by the lengths of its parts.\<close>

fun unload :: "nat \<Rightarrow> nat list \<Rightarrow> nat \<Rightarrow> ring \<Rightarrow> access_error + u8 list list" where
  "unload n [] copied r = Inr []"
| "unload n (l # ls) copied r =
     (if copied < n
      then bind_result (pread l (sizeof_descriptor + copied) r) (\<lambda>bs.
             bind_result (unload n ls (copied + length bs) r) (\<lambda>out. Inr (bs # out)))
      else Inr [])"

definition channel_recv :: "(nat \<Rightarrow> nat list) \<Rightarrow> ring \<Rightarrow> access_error + ((u8 list list \<times> u8 list) option \<times> ring)" where
  "channel_recv pbuf_alloc r =
     (case to_dgram_descriptor r of
        None \<Rightarrow> Inr (None, r)
      | Some desc \<Rightarrow>
          let n = unat (payload_length desc) in
            bind_result (unload n (pbuf_alloc n) 0 r) (\<lambda>out. Inr (Some (out, address desc), snd (drop_bytes (buffer_required n) r))))"

subsection \<open>Frames\<close>

definition frame :: "u8 list \<Rightarrow> u8 list \<Rightarrow> u8 list" where
  "frame addr p = descriptor_bytes \<lparr>tag = descriptor_tag, address = addr, payload_length = of_nat (length p)\<rparr> @ p"

lemma length_descriptor_bytes: "length (address d) = 36 \<Longrightarrow> length (descriptor_bytes d) = sizeof_descriptor"
  by (simp add: descriptor_bytes_def sizeof_descriptor_def)

lemma descriptor_round_trip:
  assumes "length (address d) = 36"
  shows "descriptor_of (descriptor_bytes d @ p) = d"
proof -
  have "le_load (le_store 8 (tag d)) = tag d" "le_load (le_store 2 (payload_length d)) = payload_length d"
    using le_load_le_store [of "tag d"] le_load_le_store [of "payload_length d"] by simp_all
  then show ?thesis using assms by (simp add: descriptor_of_def descriptor_bytes_def)
qed

lemma peek_contents:
  assumes "ring_ok r"
  shows "iovec_bytes r (peek r ! 0) @ iovec_bytes r (peek r ! 1) = contents r" "length (iovec_bytes r (peek r ! 0)) = snd (peek r ! 0)"
    "length (iovec_bytes r (peek r ! 1)) = snd (peek r ! 1)"
proof -
  obtain bs1 bs2 where bs: "read_copy1 r 0 (readable r) = Inr bs1" "read_copy2 r 0 (readable r) = Inr bs2"
      "length bs1 = read_chunk1 r 0 (readable r)" "bs1 @ bs2 = contents r"
    using consumer_copies [OF assms order_refl] by auto
  have "readable r = length bs1 + length bs2" using arg_cong [OF bs(4), of length] by simp
  moreover have "iovec_bytes r (peek r ! 0) = bs1" "iovec_bytes r (peek r ! 1) = bs2"
      "snd (peek r ! 0) = read_chunk1 r 0 (readable r)" "snd (peek r ! 1) = readable r - read_chunk1 r 0 (readable r)"
    using bs by (auto simp: peek_def iovec_bytes_def read_copy1_def read_copy2_def read_chunk1_def memcpy_out_def Let_def split: if_splits)
  ultimately show "iovec_bytes r (peek r ! 0) @ iovec_bytes r (peek r ! 1) = contents r"
      "length (iovec_bytes r (peek r ! 0)) = snd (peek r ! 0)" "length (iovec_bytes r (peek r ! 1)) = snd (peek r ! 1)"
    using bs by auto
qed

lemma to_dgram_descriptor_contents:
  assumes "ring_ok r"
  shows "to_dgram_descriptor r =
    (let desc = descriptor_of (take sizeof_descriptor (contents r)) in
       if readable r < sizeof_descriptor \<or> readable r < buffer_required (unat (payload_length desc)) then None else Some desc)"
proof -
  let ?b0 = "iovec_bytes r (peek r ! 0)" and ?b1 = "iovec_bytes r (peek r ! 1)"
  note p = peek_contents [OF assms]
  have "readable r = snd (peek r ! 0) + snd (peek r ! 1)" using arg_cong [OF p(1), of length] p(2,3) by simp
  moreover have "take sizeof_descriptor (contents r) =
      (if snd (peek r ! 0) < sizeof_descriptor then ?b0 @ take (sizeof_descriptor - snd (peek r ! 0)) ?b1 else take sizeof_descriptor ?b0)"
    unfolding p(1) [symmetric] using p(2) by auto
  ultimately show ?thesis by (simp add: to_dgram_descriptor_def Let_def)
qed

lemma frame_descriptor:
  assumes "ring_ok r" "contents r = frame addr p @ rest" "length addr = 36" "length p < 2 ^ 16"
  shows "to_dgram_descriptor r = Some \<lparr>tag = descriptor_tag, address = addr, payload_length = of_nat (length p)\<rparr>"
proof -
  let ?d = "\<lparr>tag = descriptor_tag, address = addr, payload_length = of_nat (length p)\<rparr>"
  have l: "length (descriptor_bytes ?d) = sizeof_descriptor" using assms(3) by (simp add: length_descriptor_bytes)
  then have "take sizeof_descriptor (contents r) = descriptor_bytes ?d" using assms(2) by (simp add: frame_def)
  then have "descriptor_of (take sizeof_descriptor (contents r)) = ?d" using descriptor_round_trip [of ?d "[]"] assms(3) by simp
  moreover have "readable r = sizeof_descriptor + length p + length rest" using arg_cong [OF assms(2), of length] l by (simp add: frame_def)
  ultimately show ?thesis
    using assms(4) by (simp add: to_dgram_descriptor_contents [OF assms(1)] buffer_required_def unat_of_nat_small Let_def)
qed

lemma channel_send_frame:
  assumes "ring_ok r" "length addr = 36" "buffer_required (length p) \<le> writable r"
  shows "\<exists>r'. channel_send p addr r = Inr (True, r') \<and> ring_ok r' \<and> len r' = len r \<and> contents r' = contents r @ frame addr p"
proof -
  let ?d = "\<lparr>tag = descriptor_tag, address = addr, payload_length = of_nat (length p)\<rparr>"
  have "length (descriptor_bytes ?d) = sizeof_descriptor" using assms(2) by (simp add: length_descriptor_bytes)
  then show ?thesis
    using write_iov_all [OF assms(1), of "[descriptor_bytes ?d, p]"] assms(3)
    by (auto simp: channel_send_def buffer_required_def frame_def Let_def)
qed

lemma frame_payload:
  assumes "contents r = frame addr p @ rest" "length addr = 36"
  shows "take k (drop (sizeof_descriptor + j) (contents r)) = take k (drop j (p @ rest))"
    "drop (buffer_required (length p)) (contents r) = rest"
  using assms length_descriptor_bytes [of "\<lparr>tag = descriptor_tag, address = addr, payload_length = of_nat (length p)\<rparr>"]
  by (simp_all add: frame_def buffer_required_def)

subsection \<open>Receiving\<close>

text \<open>A payload cut into parts of the given lengths, until nothing is left.\<close>

fun parts :: "nat list \<Rightarrow> u8 list \<Rightarrow> u8 list list" where
  "parts [] p = []"
| "parts (l # ls) p = (if p = [] then [] else take l p # parts ls (drop l p))"

lemma frame_pread:
  assumes "ring_ok r" "contents r = frame addr p @ rest" "length addr = 36" "read_idx r + buffer_required (length p) \<le> 2 * len r"
    and "j \<le> length p"
  shows "pread k (sizeof_descriptor + j) r = Inr (take k (drop j p @ rest))"
  using pread_contents [OF assms(1), of "sizeof_descriptor + j" k] frame_payload(1) [OF assms(2,3), of k j] assms(4,5)
  by (simp add: buffer_required_def)

lemma unload_parts:
  assumes "ring_ok r" "contents r = frame addr p @ rest" "length addr = 36" "read_idx r + buffer_required (length p) \<le> 2 * len r"
  shows "copied + sum_list ls = length p \<Longrightarrow> unload (length p) ls copied r = Inr (parts ls (drop copied p))"
proof (induction ls arbitrary: copied)
  case (Cons l ls)
  show ?case
  proof (cases "copied < length p")
    case True
    let ?bs = "take l (drop copied p)"
    have "pread l (sizeof_descriptor + copied) r = Inr ?bs" using frame_pread [OF assms, of copied l] Cons.prems by simp
    moreover have "length ?bs = l" using Cons.prems by simp
    ultimately show ?thesis using True Cons.IH [of "copied + l"] Cons.prems by (simp add: add.commute)
  qed simp
qed simp

lemma recv_loop_two:
  assumes "ring_ok r" "contents r = frame addr p @ rest" "length addr = 36" "read_idx r + buffer_required (length p) \<le> 2 * len r"
  shows "recv_loop (length p) [a, b] sizeof_descriptor 0 r = Inr (parts [a, b] p)"
proof (cases "p = []")
  case False
  have 1: "pread (min (length p) a) sizeof_descriptor r = Inr (take a p)"
    using frame_pread [OF assms, of 0 "min (length p) a"] by (simp add: min_def)
  show ?thesis
  proof (cases "a < length p")
    case True
    have "pread (min (length p - a) b) (sizeof_descriptor + a) r = Inr (take b (drop a p))"
      using frame_pread [OF assms, of a "min (length p - a) b"] True by (simp add: min_def)
    then show ?thesis using 1 False True by (simp add: min_absorb2 less_imp_le)
  next
    case less: False
    then show ?thesis using 1 False by simp
  qed
qed simp

lemma channel_recv_frame:
  assumes "ring_ok r" "contents r = frame addr p @ rest" "length addr = 36" "length p < 2 ^ 16"
    and "read_idx r + buffer_required (length p) \<le> 2 * len r" "sum_list (pbuf_alloc (length p)) = length p"
  shows "\<exists>r'. channel_recv pbuf_alloc r = Inr (Some (parts (pbuf_alloc (length p)) p, addr), r') \<and> contents r' = rest"
proof -
  obtain k r' where d: "drop_bytes (buffer_required (length p)) r = (k, r')" by (cases "drop_bytes (buffer_required (length p)) r")
  moreover have "contents r' = rest" using drop_bytes_contents [OF assms(1) d] frame_payload(2) [OF assms(2,3)] by simp
  ultimately show ?thesis
    using frame_descriptor [OF assms(1-4)] unload_parts [OF assms(1-3,5), of 0 "pbuf_alloc (length p)"] assms(4,6)
    by (simp add: channel_recv_def unat_of_nat_small)
qed

subsection \<open>Properties\<close>


definition sample_frame :: "u8 list" where
  "sample_frame = frame (replicate 36 0) [1, 2, 3]"

definition sample_inbox :: ring where
  "sample_inbox = \<lparr>base = sample_frame @ replicate 13 0, read_idx = 0, write_idx = 51\<rparr>"

lemma length_sample_frame: "length sample_frame = 51"
  by (simp add: sample_frame_def frame_def length_descriptor_bytes sizeof_descriptor_def)

lemma sample_inbox_ok: "ring_ok sample_inbox" "contents sample_inbox = sample_frame @ []" "len sample_inbox = 64"
  using length_sample_frame
  by (auto simp: ring_ok_def sample_inbox_def readable_def contents_def nth_append intro!: nth_equalityI)


text \<open>
  A client that sends writes the descriptor and the payload one after the other, but checks the room for both at once. The
  room is rounded down to 32 bytes each time: if it no longer holds the payload after the descriptor is written, the payload is
  skipped, and the descriptor stays in the ring without it.
\<close>

theorem client_send_result:
  assumes "ring_ok r" "length addr = 36" "p \<noteq> []" "buffer_required (length p) \<le> writable r"
  shows "\<exists>r'. contents r' = contents r @ (if length p \<le> 32 * ((len r - readable r - sizeof_descriptor) div 32) then frame addr p
        else take sizeof_descriptor (frame addr p))
    \<and> client_send (Suc fuel) block [p] addr r =
        Some (Inr (if length p \<le> 32 * ((len r - readable r - sizeof_descriptor) div 32) then length p else 0, r'))"
proof -
  let ?d = "\<lparr>tag = descriptor_tag, address = addr, payload_length = of_nat (length p)\<rparr>"
  let ?room = "32 * ((len r - readable r - sizeof_descriptor) div 32)"
  have l: "length (descriptor_bytes ?d) = sizeof_descriptor" using assms(2) by (simp add: length_descriptor_bytes)
  then have "sizeof_descriptor = min (writable r) (length (descriptor_bytes ?d))" using assms(4) by (simp add: buffer_required_def)
  from write_bytes_contents [OF assms(1) this] obtain r1 where r1: "write_bytes (descriptor_bytes ?d) r = Inr (sizeof_descriptor, r1)"
      "ring_ok r1" "len r1 = len r" "contents r1 = contents r @ descriptor_bytes ?d" using l by auto
  have "readable r1 = readable r + sizeof_descriptor" using arg_cong [OF r1(4), of length] l by simp
  then have w: "writable r1 = ?room" using writable_eq [OF r1(2)] r1(3) by simp
  obtain r2 where r2: "write_iov [p] r1 = Inr (length (concat (fitting ?room [p])), r2)" "contents r2 = contents r1 @ concat (fitting ?room [p])"
    using write_iov_contents [OF r1(2) refl, of "[p]"] w by auto
  have "take sizeof_descriptor (frame addr p) = descriptor_bytes ?d" using l by (simp add: frame_def)
  then have "contents r2 = contents r @ (if length p \<le> ?room then frame addr p else take sizeof_descriptor (frame addr p))"
    using r2(2) r1(4) by (simp add: frame_def)
  moreover have "client_send (Suc fuel) block [p] addr r = Some (Inr (if length p \<le> ?room then length p else 0, r2))"
    using assms(3,4) writable_le [OF assms(1)] r1(1) r2(1) by (simp add: client_send_def access_def Let_def)
  ultimately show ?thesis by blast
qed

theorem client_send_result_witness:
  "\<exists>r'. client_send 1 (\<lambda>r. Inl EAGAIN) [replicate 65488 7] (replicate 36 0) \<lparr>base = replicate 65536 0, read_idx = 0, write_idx = 0\<rparr> =
     Some (Inr (0, r'))"
proof -
  let ?r = "\<lparr>base = replicate 65536 0, read_idx = 0, write_idx = 0\<rparr> :: ring"
  have ok: "ring_ok ?r" by (simp add: ring_ok_def readable_def)
  have "writable ?r = 65536" using writable_eq [OF ok] by (simp add: readable_def)
  then show ?thesis
    using client_send_result [OF ok, of "replicate 36 0" "replicate 65488 7" 0 "\<lambda>r. Inl EAGAIN"]
    by (auto simp: buffer_required_def sizeof_descriptor_def readable_def)
qed

text \<open>
  The client's loop adds the total read so far to the offset after each vector. With three vectors the third is read
  from behind its place: the bytes between are skipped, and bytes of the next datagram may take their place.
\<close>

theorem client_recv_third_vector:
  assumes "ring_ok r" "contents r = frame addr p @ rest" "length addr = 36" "length p < 2 ^ 16"
    and "a + b < length p" "0 < a" "read_idx r + buffer_required (length p) + a \<le> 2 * len r"
  shows "\<exists>r'. client_recv False [a, b, c] r =
    Inr ([take a p, take b (drop a p), take (min (length p - (a + b)) c) (drop (a + (a + b)) (p @ rest))], addr, r')"
proof -
  have idx: "read_idx r + buffer_required (length p) \<le> 2 * len r" using assms(7) by simp
  note at = frame_pread [OF assms(1-3) idx]
  have 1: "pread (min (length p) a) sizeof_descriptor r = Inr (take a p)" using at [of 0] assms(5) by (simp add: min_def)
  have 2: "pread (min (length p - a) b) (sizeof_descriptor + a) r = Inr (take b (drop a p))" using at [of a] assms(5) by (simp add: min_def)
  let ?off = "sizeof_descriptor + (a + (a + b))"
  have "read_idx r + ?off \<le> 2 * len r" using assms(5,7) by (simp add: buffer_required_def)
  then have 3: "pread k ?off r = Inr (take k (drop (a + (a + b)) (p @ rest)))" for k
    using pread_contents [OF assms(1)] frame_payload(1) [OF assms(2,3)] by simp
  have "recv_loop (length p) [a, b, c] sizeof_descriptor 0 r =
      Inr [take a p, take b (drop a p), take (min (length p - (a + b)) c) (drop (a + (a + b)) (p @ rest))]"
    using 1 2 3 assms(5,6) by (auto simp: min_absorb2 add.assoc less_imp_le Let_def)
  then show ?thesis
    using frame_descriptor [OF assms(1-4)] assms(4) by (simp add: client_recv_def access_def unat_of_nat_small)
qed

theorem client_recv_third_vector_witness:
  "\<exists>r'. client_recv False [1, 1, 1] sample_inbox = Inr ([[1], [2], []], replicate 36 0, r')"
  using client_recv_third_vector [of sample_inbox "replicate 36 0" "[1, 2, 3]" "[]" 1 1 1] sample_inbox_ok
  by (simp add: sample_frame_def buffer_required_def sizeof_descriptor_def sample_inbox_def numeral_3_eq_3)

end
