(* ===== verification/Header_Container.thy ===== *)
theory Header_Container
  imports Prelude
begin

text \<open>
  The store of the headers of a packet template
  (\<open>src/modules/packet/generator/traffic/header/container.hpp\<close>) and the two types every header
  carries along: the packet type flags (\<open>packetio/packet_type.hpp\<close>) and the header lengths, a
  union of bit fields (\<open>packetio/packet_buffer.hpp\<close>).

  A container is one byte vector; the header of index \<open>i\<close> is the slice that starts at
  \<open>m_offsets[i]\<close> and has \<open>m_lengths[i]\<close> bytes. A pointer into the vector is the offset from its
  start. The lemmas show that a container returns the headers pushed to it, that every header
  starts at the alignment of the copy function, and that the 16-bit rounding of the length makes
  the assertion of \<open>push_back\<close> fail for the longest headers.
\<close>

subsection \<open>Definitions\<close>

text \<open>The instruction set the copy function is compiled for (\<open>utils/memcpy.hpp\<close>).\<close>

datatype isa = Avx512 | Avx2 | Sse | Scalar

fun memcpy_alignment_mask :: "isa \<Rightarrow> u32" where
  "memcpy_alignment_mask Avx512 = 0x3f"
| "memcpy_alignment_mask Avx2 = 0x1f"
| "memcpy_alignment_mask Sse = 0x0f"
| "memcpy_alignment_mask Scalar = 0x7"

definition memcpy_alignment :: "isa \<Rightarrow> nat" where
  "memcpy_alignment isa = unat (memcpy_alignment_mask isa) + 1"

text \<open>The argument is promoted to an \<open>int\<close>, and the result converted back to 16 bits.\<close>

definition align_up :: "isa \<Rightarrow> u16 \<Rightarrow> u16" where
  "align_up isa val =
     (let bits = memcpy_alignment_mask isa
      in ucast ((ucast val + bits) AND NOT bits))"

record container =
  m_data :: "u8 list"
  m_lengths :: "u16 list"
  m_offsets :: "nat list"

definition empty_container :: container where
  "empty_container = \<lparr>m_data = [], m_lengths = [], m_offsets = []\<rparr>"

text \<open>
  The value pushed is a pointer and a 16-bit length. \<open>None\<close> is the failed assertion.
\<close>

definition push_back :: "isa \<Rightarrow> container \<Rightarrow> u8 list \<Rightarrow> u16 \<Rightarrow> container option" where
  "push_back isa c ptr len =
     (let offset = (if m_offsets c = [] then 0
                    else last (m_offsets c) + unat (align_up isa (last (m_lengths c))))
      in if offset < length (m_data c) then None
         else Some \<lparr>m_data = m_data c @ replicate (offset - length (m_data c)) 0
                              @ take (unat len) ptr,
                    m_lengths = m_lengths c @ [len],
                    m_offsets = m_offsets c @ [offset]\<rparr>)"

definition emplace_back :: "isa \<Rightarrow> container \<Rightarrow> u8 list \<Rightarrow> nat \<Rightarrow> container option" where
  "emplace_back isa c ptr len = push_back isa c ptr (of_nat len)"

definition container_size :: "container \<Rightarrow> nat" where
  "container_size c = length (m_lengths c)"

definition container_at :: "container \<Rightarrow> nat \<Rightarrow> nat \<times> u16" where
  "container_at c idx = (m_offsets c ! idx, m_lengths c ! idx)"

text \<open>The bytes a view of a container denotes.\<close>

definition view_bytes :: "container \<Rightarrow> nat \<times> u16 \<Rightarrow> u8 list" where
  "view_bytes c v = take (unat (snd v)) (drop (fst v) (m_data c))"

text \<open>A container filled with a list of headers, each pushed with its full length.\<close>

fun push_all :: "isa \<Rightarrow> container \<Rightarrow> u8 list list \<Rightarrow> container option" where
  "push_all isa c [] = Some c"
| "push_all isa c (h # hs) =
     (case emplace_back isa c h (length h) of
        None \<Rightarrow> None
      | Some c' \<Rightarrow> push_all isa c' hs)"

text \<open>\<open>packet_type::flags\<close> and the enumerators the generator uses.\<close>

type_synonym flags = u32

definition ethernet_ether :: flags where "ethernet_ether = 0x1"
definition ethernet_vlan :: flags where "ethernet_vlan = 0x6"
definition ethernet_qinq :: flags where "ethernet_qinq = 0x7"
definition ethernet_mpls :: flags where "ethernet_mpls = 0xa"
definition ethernet_mask :: flags where "ethernet_mask = 0xf"
definition ip_ipv4 :: flags where "ip_ipv4 = 0x10"
definition ip_ipv6 :: flags where "ip_ipv6 = 0x40"
definition protocol_tcp :: flags where "protocol_tcp = 0x100"
definition protocol_udp :: flags where "protocol_udp = 0x200"

text \<open>The conversion of flags to \<open>bool\<close>.\<close>

definition flags_set :: "flags \<Rightarrow> flags \<Rightarrow> bool" where
  "flags_set fl enum \<longleftrightarrow> fl AND enum \<noteq> 0"

lemmas flag_values = ethernet_ether_def ethernet_vlan_def ethernet_qinq_def ethernet_mpls_def
  ethernet_mask_def ip_ipv4_def ip_ipv6_def protocol_tcp_def protocol_udp_def

text \<open>The bit fields have 7, 9, 8, 16 and 16 bits; assigning to one keeps its low bits.\<close>

record header_lengths =
  layer2 :: "7 word"
  layer3 :: "9 word"
  layer4 :: "8 word"
  tso_segsz :: u16
  payload :: u16

definition no_lengths :: header_lengths where
  "no_lengths = \<lparr>layer2 = 0, layer3 = 0, layer4 = 0, tso_segsz = 0, payload = 0\<rparr>"

subsection \<open>The container returns what was pushed\<close>

lemma alignment_mask_exp: "\<exists>k \<le> 6. memcpy_alignment_mask isa = mask k \<and> memcpy_alignment isa = 2 ^ k"
proof (cases isa)
  case Avx512
  then show ?thesis by (intro exI [of _ 6]) (simp add: memcpy_alignment_def mask_eq_exp_minus_1)
next
  case Avx2
  then show ?thesis by (intro exI [of _ 5]) (simp add: memcpy_alignment_def mask_eq_exp_minus_1)
next
  case Sse
  then show ?thesis by (intro exI [of _ 4]) (simp add: memcpy_alignment_def mask_eq_exp_minus_1)
next
  case Scalar
  then show ?thesis by (intro exI [of _ 3]) (simp add: memcpy_alignment_def mask_eq_exp_minus_1)
qed

lemma alignment_pos: "0 < memcpy_alignment isa"
  by (simp add: memcpy_alignment_def)

lemma unat_alignment_mask: "unat (memcpy_alignment_mask isa) = memcpy_alignment isa - 1"
  by (simp add: memcpy_alignment_def)

lemma alignment_le: "memcpy_alignment isa \<le> 64"
  by (cases isa) (simp_all add: memcpy_alignment_def)

text \<open>The rounding as arithmetic, the conversion to 16 bits included.\<close>

lemma unat_align_up:
  "unat (align_up isa v) =
     memcpy_alignment isa * ((unat v + memcpy_alignment isa - 1) div memcpy_alignment isa) mod 65536"
proof -
  obtain k where k: "k \<le> 6" "memcpy_alignment_mask isa = mask k" "memcpy_alignment isa = 2 ^ k"
    using alignment_mask_exp by blast
  have v: "unat v < 65536" using unsigned_less [of v, where ?'a = nat] by simp
  have m: "unat (memcpy_alignment_mask isa) = memcpy_alignment isa - 1" by (rule unat_alignment_mask)
  have "unat (ucast v + memcpy_alignment_mask isa :: u32) = unat v + (memcpy_alignment isa - 1)"
    using v m alignment_le [of isa]
    by (simp add: unat_word_ariths unsigned_ucast_eq take_bit_nat_eq_self)
  then show ?thesis using alignment_pos [of isa]
    unfolding align_up_def Let_def k(2)
    by (simp add: unsigned_ucast_eq unat_and_not_mask k(3) take_bit_eq_mod Suc_leI)
qed

lemma unat_align_up_small:
  assumes "unat v + memcpy_alignment isa \<le> 65536"
  shows "unat (align_up isa v) =
     memcpy_alignment isa * ((unat v + memcpy_alignment isa - 1) div memcpy_alignment isa)"
proof -
  have "memcpy_alignment isa * ((unat v + memcpy_alignment isa - 1) div memcpy_alignment isa)
      \<le> unat v + memcpy_alignment isa - 1" by simp
  then show ?thesis using assms alignment_pos [of isa] unfolding unat_align_up
    by (intro mod_less) linarith
qed

lemma align_up_ge:
  assumes "unat v + memcpy_alignment isa \<le> 65536"
  shows "unat v \<le> unat (align_up isa v)"
proof -
  define a where "a = memcpy_alignment isa"
  have a: "0 < a" using alignment_pos by (simp add: a_def)
  have "unat v + a - 1 = a * ((unat v + a - 1) div a) + (unat v + a - 1) mod a" by simp
  moreover have "(unat v + a - 1) mod a < a" using a by simp
  ultimately show ?thesis using unat_align_up_small [OF assms] a unfolding a_def [symmetric] by linarith
qed

lemma align_up_dvd:
  assumes "unat v + memcpy_alignment isa \<le> 65536"
  shows "memcpy_alignment isa dvd unat (align_up isa v)"
  using unat_align_up_small [OF assms] by simp

text \<open>For the longest lengths the rounding wraps to zero.\<close>

lemma align_up_wraps:
  assumes "65536 < unat v + memcpy_alignment isa"
  shows "align_up isa v = 0"
proof -
  obtain k where k: "k \<le> 6" "memcpy_alignment isa = 2 ^ k" using alignment_mask_exp by blast
  have v: "unat v < 65536" using unsigned_less [of v, where ?'a = nat] by simp
  have "(2::nat) ^ k dvd 2 ^ 16" using k(1) by (intro le_imp_power_dvd) simp
  then have "(2::nat) ^ k dvd 65536" by simp
  then obtain q where q: "2 ^ k * q = (65536 :: nat)" by (metis dvdE)
  define w where "w = unat v + 2 ^ k - 1"
  have p: "(0::nat) < 2 ^ k" by simp
  have w: "65536 \<le> w" "w < 65536 + 2 ^ k"
    using assms v p unfolding k(2) w_def by linarith+
  have "w div 2 ^ k = q"
  proof (rule div_nat_eqI)
    show "2 ^ k * q \<le> w" unfolding q by (rule w)
    show "w < 2 ^ k * Suc q" unfolding mult_Suc_right q using w by linarith
  qed
  then have "unat (align_up isa v) = 0"
    unfolding unat_align_up k(2) w_def [symmetric] by (simp only: q mod_self)
  then show ?thesis by (simp only: unat_eq_0)
qed

text \<open>
  The invariant: the headers are aligned slices of the data, in order and without overlap, and
  the data ends with the last of them.
\<close>

definition container_ok :: "isa \<Rightarrow> container \<Rightarrow> bool" where
  "container_ok isa c \<longleftrightarrow>
     length (m_offsets c) = length (m_lengths c) \<and>
     (\<forall>i < length (m_lengths c). memcpy_alignment isa dvd m_offsets c ! i \<and>
        m_offsets c ! i + unat (m_lengths c ! i) \<le> length (m_data c)) \<and>
     (\<forall>j < length (m_lengths c). \<forall>i < j.
        m_offsets c ! i + unat (m_lengths c ! i) \<le> m_offsets c ! j) \<and>
     length (m_data c) =
       (if m_lengths c = [] then 0 else last (m_offsets c) + unat (last (m_lengths c)))"

lemma container_okD:
  assumes "container_ok isa c"
  shows "length (m_offsets c) = length (m_lengths c)"
    "i < length (m_lengths c) \<Longrightarrow> memcpy_alignment isa dvd m_offsets c ! i"
    "i < length (m_lengths c) \<Longrightarrow> m_offsets c ! i + unat (m_lengths c ! i) \<le> length (m_data c)"
    "j < length (m_lengths c) \<Longrightarrow> i < j \<Longrightarrow> m_offsets c ! i + unat (m_lengths c ! i) \<le> m_offsets c ! j"
    "m_lengths c \<noteq> [] \<Longrightarrow> length (m_data c) = last (m_offsets c) + unat (last (m_lengths c))"
    "m_lengths c = [] \<Longrightarrow> m_data c = []"
  using assms unfolding container_ok_def by (blast, blast, blast, blast, metis, simp)

lemma container_ok_empty: "container_ok isa empty_container"
  by (simp add: container_ok_def empty_container_def)

definition fits :: "isa \<Rightarrow> nat \<Rightarrow> bool" where
  "fits isa n \<longleftrightarrow> n + memcpy_alignment isa \<le> 65536"

definition container_headers :: "container \<Rightarrow> u8 list list" where
  "container_headers c = map (\<lambda>i. view_bytes c (container_at c i)) [0..<container_size c]"

lemma fits_unat: "fits isa n \<Longrightarrow> unat (of_nat n :: u16) = n"
  using alignment_pos [of isa] by (simp add: fits_def unat_of_nat)

text \<open>The place the next header is written to.\<close>

definition next_offset :: "isa \<Rightarrow> container \<Rightarrow> nat" where
  "next_offset isa c = (if m_offsets c = [] then 0
                        else last (m_offsets c) + unat (align_up isa (last (m_lengths c))))"

lemma next_offset_aligned:
  assumes ok: "container_ok isa c" and fit: "m_lengths c \<noteq> [] \<longrightarrow> fits isa (unat (last (m_lengths c)))"
  shows "memcpy_alignment isa dvd next_offset isa c" "length (m_data c) \<le> next_offset isa c"
proof -
  have l: "length (m_offsets c) = length (m_lengths c)" using ok by (simp add: container_ok_def)
  have "memcpy_alignment isa dvd next_offset isa c \<and> length (m_data c) \<le> next_offset isa c"
  proof (cases "m_lengths c = []")
    case True
    then show ?thesis using ok l by (simp add: next_offset_def container_ok_def)
  next
    case False
    then have ne: "m_offsets c \<noteq> []" using l by auto
    have f: "unat (last (m_lengths c)) + memcpy_alignment isa \<le> 65536"
      using fit False by (simp add: fits_def)
    have "memcpy_alignment isa dvd last (m_offsets c)"
      using ok ne False l unfolding container_ok_def by (simp add: last_conv_nth)
    moreover have "length (m_data c) = last (m_offsets c) + unat (last (m_lengths c))"
      using ok False by (simp add: container_ok_def)
    ultimately show ?thesis using ne align_up_dvd [OF f] align_up_ge [OF f]
      by (simp add: next_offset_def)
  qed
  then show "memcpy_alignment isa dvd next_offset isa c" "length (m_data c) \<le> next_offset isa c"
    by auto
qed

lemma push_back_Some:
  "length (m_data c) \<le> next_offset isa c \<Longrightarrow> push_back isa c ptr len =
     Some \<lparr>m_data = m_data c @ replicate (next_offset isa c - length (m_data c)) 0 @ take (unat len) ptr,
           m_lengths = m_lengths c @ [len], m_offsets = m_offsets c @ [next_offset isa c]\<rparr>"
  by (simp add: push_back_def next_offset_def Let_def)

lemma emplace_back_ok:
  assumes ok: "container_ok isa c"
    and fit: "m_lengths c \<noteq> [] \<longrightarrow> fits isa (unat (last (m_lengths c)))" and h: "length h < 65536"
  obtains c' where "emplace_back isa c h (length h) = Some c'" "container_ok isa c'"
    "container_headers c' = container_headers c @ [h]" "last (m_lengths c') = of_nat (length h)"
    "m_lengths c' \<noteq> []"
proof -
  define off where "off = next_offset isa c"
  have a: "memcpy_alignment isa dvd off" "length (m_data c) \<le> off"
    using next_offset_aligned [OF ok fit] by (simp_all add: off_def)
  have u: "unat (of_nat (length h) :: u16) = length h" using h by (simp add: unat_of_nat)
  define c' where "c' = \<lparr>m_data = m_data c @ replicate (off - length (m_data c)) 0 @ h,
     m_lengths = m_lengths c @ [of_nat (length h)], m_offsets = m_offsets c @ [off]\<rparr>"
  have 1: "emplace_back isa c h (length h) = Some c'"
    using push_back_Some [of c isa h "of_nat (length h)"] a(2) u
    by (simp add: emplace_back_def c'_def off_def)
  note l = container_okD(1) [OF ok]
  have old: "m_offsets c ! i + unat (m_lengths c ! i) \<le> off"
    if "i < length (m_lengths c)" for i using container_okD(3) [OF ok that] a(2) by linarith
  note old' = container_okD(3) [OF ok]
  have "container_ok isa c'"
    unfolding container_ok_def c'_def
    using a old container_okD(2,4) [OF ok]
    by (auto simp: u l nth_append less_Suc_eq intro: trans_le_add1)
  moreover have "container_headers c' = container_headers c @ [h]"
  proof -
    have "view_bytes c' (container_at c' i) = view_bytes c (container_at c i)"
      if "i < length (m_lengths c)" for i
      using old' [OF that] that l
      by (simp add: view_bytes_def container_at_def c'_def nth_append)
    moreover have "view_bytes c' (container_at c' (length (m_lengths c))) = h"
      using a(2) u by (simp add: view_bytes_def container_at_def c'_def nth_append l)
    moreover have "container_size c' = Suc (container_size c)"
      by (simp add: container_size_def c'_def)
    ultimately show ?thesis by (simp add: container_headers_def container_size_def)
  qed
  ultimately show ?thesis using that 1 by (simp add: c'_def)
qed

lemma push_all_ok:
  assumes "container_ok isa c" "m_lengths c \<noteq> [] \<longrightarrow> fits isa (unat (last (m_lengths c)))"
    "\<forall>h \<in> set hs. fits isa (length h)"
  shows "\<exists>c'. push_all isa c hs = Some c' \<and> container_ok isa c' \<and>
           container_headers c' = container_headers c @ hs"
  using assms
proof (induction hs arbitrary: c)
  case Nil
  then show ?case by simp
next
  case (Cons h hs)
  have f: "fits isa (length h)" using Cons.prems(3) by simp
  then have "length h < 65536" using alignment_pos [of isa] by (simp add: fits_def)
  from emplace_back_ok [OF Cons.prems(1,2) this]
  obtain c' where c': "emplace_back isa c h (length h) = Some c'" "container_ok isa c'"
    "container_headers c' = container_headers c @ [h]" "last (m_lengths c') = of_nat (length h)"
    by blast
  have "\<exists>c''. push_all isa c' hs = Some c'' \<and> container_ok isa c'' \<and>
          container_headers c'' = container_headers c' @ hs"
    using Cons.IH [OF c'(2)] Cons.prems(3) c'(4) fits_unat [OF f] f by simp
  then show ?case using c'(1,3) by simp
qed

lemma container_headers_empty [simp]: "container_headers empty_container = []"
  by (simp add: container_headers_def container_size_def empty_container_def)

lemma push_all_headers:
  assumes "\<forall>h \<in> set hs. fits isa (length h)"
  obtains c where "push_all isa empty_container hs = Some c" "container_ok isa c"
    "container_headers c = hs"
  using push_all_ok [OF container_ok_empty, of isa hs] assms
  by (auto simp: empty_container_def [THEN arg_cong [where f = m_lengths]])

lemma length_container_headers [simp]: "length (container_headers c) = container_size c"
  by (simp add: container_headers_def)

lemma container_headers_nth:
  "i < container_size c \<Longrightarrow> container_headers c ! i = view_bytes c (container_at c i)"
  by (simp add: container_headers_def)

text \<open>A header whose padded length needs 17 bits makes the next push fail its assertion.\<close>

lemma push_back_assertion:
  assumes "container_ok isa c" "m_lengths c \<noteq> []" "\<not> fits isa (unat (last (m_lengths c)))"
  shows "push_back isa c ptr len = None"
proof -
  have ne: "m_offsets c \<noteq> []" using assms by (auto simp: container_ok_def)
  have "align_up isa (last (m_lengths c)) = 0"
    by (rule align_up_wraps) (use assms(3) in \<open>simp add: fits_def\<close>)
  moreover have "0 < unat (last (m_lengths c))"
    using assms(3) alignment_le [of isa] by (simp add: fits_def)
  moreover have "length (m_data c) = last (m_offsets c) + unat (last (m_lengths c))"
    using assms by (simp add: container_ok_def)
  ultimately show ?thesis using ne by (simp add: push_back_def Let_def)
qed

end
