(* ===== verification/Packet_Template.thy ===== *)
theory Packet_Template
  imports Header_Container
begin

text \<open>
  Packet templates (\<open>src/modules/packet/generator/traffic/packet_template.cpp\<close>).
\<close>

record packet_template =
  m_headers :: container
  m_hdr_lens :: header_lengths
  m_flags :: flags

definition template_size :: "packet_template \<Rightarrow> nat" where
  "template_size t = container_size (m_headers t)"

definition template_at :: "packet_template \<Rightarrow> nat \<Rightarrow> nat" where
  "template_at t idx = fst (container_at (m_headers t) idx)"

end
