(* ===== verification/Traffic_Sequence.thy ===== *)
theory Traffic_Sequence
  imports Packet_Template
begin

text \<open>
  Packet sequences (\<open>src/modules/packet/generator/traffic/sequence.cpp\<close>): the order in which a
  traffic generator sends the packets of its weighted definitions, in round robin or one
  definition after the other, and the length of every packet.

  Values of type \<open>size_t\<close> are natural numbers; the 32-bit scalars and the 16-bit index pairs are
  words, so that the wrap-around of the weight sums and the truncation of the indexes are those of
  the code. A pointer to a header is the index of its template and the offset into the template's
  container. \<open>None\<close> is a division by zero or an access to the last element of an empty vector.
\<close>

subsection \<open>Definitions\<close>

datatype signature_fill =
  No_Fill | Const_Fill u16 | Decr_Fill u8 | Incr_Fill u8 | Prbs_Fill

record signature_config =
  stream_id :: u32
  sig_flags :: u32
  sig_fill :: signature_fill

type_synonym length_template = "u16 list"

record traffic_def =
  def_packets :: packet_template
  def_lengths :: length_template
  def_weight :: u32
  def_signature :: "signature_config option"

type_synonym index_pair = "u16 \<times> u16"

text \<open>\<open>std::partial_sum\<close> over 32-bit numbers, and \<open>std::upper_bound\<close>.\<close>

fun partial_sum :: "u32 \<Rightarrow> u32 list \<Rightarrow> u32 list" where
  "partial_sum acc [] = []"
| "partial_sum acc (x # xs) = (acc + x) # partial_sum (acc + x) xs"

definition upper_bound :: "nat list \<Rightarrow> nat \<Rightarrow> nat" where
  "upper_bound xs v = length (takeWhile (\<lambda>x. x \<le> v) xs)"

text \<open>\<open>sequence_generator\<close>: the sizes of the packet templates and the weights.\<close>

definition template_sizes :: "traffic_def list \<Rightarrow> u32 list" where
  "template_sizes defs = map (\<lambda>d. of_nat (template_size (def_packets d))) defs"

definition template_scalars :: "traffic_def list \<Rightarrow> u32 list" where
  "template_scalars defs = map def_weight defs"

definition lcm_sizes :: "u32 list \<Rightarrow> nat" where
  "lcm_sizes sizes = foldl (\<lambda>l r. lcm l (unat r)) 1 sizes"

text \<open>\<open>round_robin\<close>.\<close>

definition weight_sums :: "traffic_def list \<Rightarrow> u32 list" where
  "weight_sums defs = partial_sum 0 (template_scalars defs)"

definition rr_size :: "traffic_def list \<Rightarrow> nat" where
  "rr_size defs = lcm_sizes (template_sizes defs) * unat (last (weight_sums defs))"

definition rr_indexes :: "traffic_def list \<Rightarrow> nat \<Rightarrow> index_pair" where
  "rr_indexes defs idx =
     (let sums = weight_sums defs;
          sum = unat (last sums);
          quot = idx div sum;
          rem = idx mod sum;
          tmp_idx = upper_bound (map unat sums) rem;
          offset = quot * sum + (if tmp_idx = 0 then 0 else unat (sums ! (tmp_idx - 1)))
                   - quot * unat (template_scalars defs ! tmp_idx)
      in (of_nat tmp_idx, of_nat ((idx - offset) mod unat (template_sizes defs ! tmp_idx))))"

text \<open>\<open>sequential\<close>.\<close>

definition seq_lengths :: "traffic_def list \<Rightarrow> u32 list" where
  "seq_lengths defs = map2 (*) (template_scalars defs) (template_sizes defs)"

definition seq_lengths_sums :: "traffic_def list \<Rightarrow> u32 list" where
  "seq_lengths_sums defs = partial_sum 0 (seq_lengths defs)"

definition seq_size :: "traffic_def list \<Rightarrow> nat" where
  "seq_size defs = unat (last (seq_lengths_sums defs))"

definition seq_indexes :: "traffic_def list \<Rightarrow> nat \<Rightarrow> index_pair" where
  "seq_indexes defs idx =
     (let sums = seq_lengths_sums defs;
          sum = unat (last sums);
          quot = idx div sum;
          rem = idx mod sum;
          tmp_idx = upper_bound (map unat sums) rem;
          offset = quot * sum + (if tmp_idx = 0 then 0 else unat (sums ! (tmp_idx - 1)))
                   - quot * unat (seq_lengths defs ! tmp_idx)
      in (of_nat tmp_idx, of_nat ((idx - offset) mod unat (template_sizes defs ! tmp_idx))))"

text \<open>\<open>sequence::sequence\<close>.\<close>

datatype order_type = Round_Robin | Sequential

record traffic_sequence =
  m_definitions :: "traffic_def list"
  m_packet_indexes :: "index_pair list"
  m_length_indexes :: "index_pair list"
  m_flow_offsets :: "nat list"
  m_size :: nat

fun flow_offsets :: "u32 \<Rightarrow> traffic_def list \<Rightarrow> nat list" where
  "flow_offsets offset [] = []"
| "flow_offsets offset (d # ds) =
     unat offset # flow_offsets (offset + of_nat (template_size (def_packets d))) ds"

definition def_lcm :: "traffic_def \<Rightarrow> nat" where
  "def_lcm d = lcm (template_size (def_packets d)) (length (def_lengths d))"

definition flow_lcm :: "traffic_def list \<Rightarrow> nat" where
  "flow_lcm defs = foldl (\<lambda>l d. lcm l (def_lcm d)) 1 defs"

definition fancy_inner_product :: "traffic_def list \<Rightarrow> nat" where
  "fancy_inner_product defs = foldl (\<lambda>s d. s + unat (def_weight d) * def_lcm d) 0 defs"

fun length_indexes ::
  "traffic_def list \<Rightarrow> index_pair list \<Rightarrow> nat list \<Rightarrow> nat \<Rightarrow> nat \<Rightarrow> index_pair list" where
  "length_indexes defs pkts scratch i 0 = []"
| "length_indexes defs pkts scratch i (Suc n) =
     (let key = fst (pkts ! (i mod length pkts)); d = unat key
      in (key, of_nat (scratch ! d mod length (def_lengths (defs ! d))))
         # length_indexes defs pkts (scratch[d := Suc (scratch ! d)]) (Suc i) n)"

definition make_sequence :: "order_type \<Rightarrow> traffic_def list \<Rightarrow> traffic_sequence option" where
  "make_sequence order defs =
     (if defs = [] then None
      else
        let pkts = (case order of
                      Round_Robin \<Rightarrow> map (rr_indexes defs) [0..<rr_size defs]
                    | Sequential \<Rightarrow> map (seq_indexes defs) [0..<seq_size defs]);
            size = (case order of
                      Round_Robin \<Rightarrow>
                        flow_lcm defs * foldl (\<lambda>s d. s + unat (def_weight d)) 0 defs
                    | Sequential \<Rightarrow> fancy_inner_product defs)
        in if pkts = [] \<and> 0 < size then None
           else Some \<lparr>m_definitions = defs, m_packet_indexes = pkts,
             m_length_indexes = length_indexes defs pkts (replicate (length defs) 0) 0 size,
             m_flow_offsets = flow_offsets 0 defs, m_size = size\<rparr>)"

text \<open>\<open>operator[]\<close> and the accessors.\<close>

record packet_view =
  flow_index :: u32
  header_ptr :: "nat \<times> nat"
  view_lengths :: header_lengths
  view_flags :: flags
  view_signature :: "signature_config option"
  packet_length :: u16

definition to_stream_id :: "u16 \<Rightarrow> u16 \<Rightarrow> u32" where
  "to_stream_id stream flow = push_bit 16 (ucast stream) OR (ucast flow + 1)"

definition maybe_update_signature_config ::
  "signature_config option \<Rightarrow> u16 \<Rightarrow> signature_config option" where
  "maybe_update_signature_config config flow_idx =
     map_option (\<lambda>c. c\<lparr>stream_id := to_stream_id (ucast (stream_id c)) flow_idx\<rparr>) config"

definition header_fields ::
  "traffic_sequence \<Rightarrow> index_pair \<Rightarrow>
     u32 \<times> (nat \<times> nat) \<times> header_lengths \<times> flags \<times> signature_config option" where
  "header_fields s key =
     (let d = unat (fst key); h = unat (snd key); def = m_definitions s ! d
      in (of_nat (m_flow_offsets s ! d + h), (d, template_at (def_packets def) h),
          m_hdr_lens (def_packets def), m_flags (def_packets def),
          maybe_update_signature_config (def_signature def) (snd key)))"

definition length_field :: "traffic_sequence \<Rightarrow> index_pair \<Rightarrow> u16" where
  "length_field s key = def_lengths (m_definitions s ! unat (fst key)) ! unat (snd key)"

definition packet_at :: "traffic_sequence \<Rightarrow> nat \<Rightarrow> packet_view" where
  "packet_at s idx =
     (case header_fields s (m_packet_indexes s ! (idx mod length (m_packet_indexes s))) of
        (flow, ptr, lens, fl, sig) \<Rightarrow>
          \<lparr>flow_index = flow, header_ptr = ptr, view_lengths = lens, view_flags = fl,
           view_signature = sig,
           packet_length =
             length_field s (m_length_indexes s ! (idx mod length (m_length_indexes s)))\<rparr>)"

definition sequence_at :: "traffic_sequence \<Rightarrow> nat \<Rightarrow> packet_view option" where
  "sequence_at s idx =
     (if m_packet_indexes s = [] \<or> m_length_indexes s = [] then None else Some (packet_at s idx))"

text \<open>\<open>ring_transform_n\<close> and \<open>ring_accumulate_n\<close>; the cursor is an index.\<close>

fun ring_transform_loop :: "'a list \<Rightarrow> nat \<Rightarrow> nat \<Rightarrow> ('a \<Rightarrow> 'b) \<Rightarrow> 'b list" where
  "ring_transform_loop ring cursor 0 f = []"
| "ring_transform_loop ring cursor (Suc n) f =
     f (ring ! cursor)
     # ring_transform_loop ring (if Suc cursor = length ring then 0 else Suc cursor) n f"

definition ring_transform_n :: "'a list \<Rightarrow> nat \<Rightarrow> nat \<Rightarrow> ('a \<Rightarrow> 'b) \<Rightarrow> 'b list" where
  "ring_transform_n ring cursor n f =
     (if length ring = 1 then replicate n (f (ring ! cursor))
      else ring_transform_loop ring cursor n f)"

fun ring_accumulate_n :: "'a list \<Rightarrow> nat \<Rightarrow> nat \<Rightarrow> 'b \<Rightarrow> ('b \<Rightarrow> 'a \<Rightarrow> 'b) \<Rightarrow> 'b" where
  "ring_accumulate_n ring cursor 0 tot f = tot"
| "ring_accumulate_n ring cursor (Suc n) tot f =
     ring_accumulate_n ring (if Suc cursor = length ring then 0 else Suc cursor) n
       (f tot (ring ! cursor)) f"

text \<open>\<open>unpack\<close>; the results are the contents of the output arrays.\<close>

definition unpack :: "traffic_sequence \<Rightarrow> nat \<Rightarrow> u16 \<Rightarrow>
   ((u32 \<times> (nat \<times> nat) \<times> header_lengths \<times> flags \<times> signature_config option) list \<times> u16 list \<times> u16)
     option" where
  "unpack s start_idx count =
     (if m_packet_indexes s = [] \<or> m_length_indexes s = [] then None
      else Some
        (ring_transform_n (m_packet_indexes s) (start_idx mod length (m_packet_indexes s))
           (unat count) (header_fields s),
         ring_transform_n (m_length_indexes s) (start_idx mod length (m_length_indexes s))
           (unat count) (length_field s),
         count))"

text \<open>The sums and counts of the statistics.\<close>

definition add_template_length :: "traffic_sequence \<Rightarrow> nat \<Rightarrow> index_pair \<Rightarrow> nat" where
  "add_template_length s tot key =
     (let ls = def_lengths (m_definitions s ! unat (fst key))
      in tot + unat (ls ! (unat (snd key) mod length ls)))"

definition sum_packet_lengths_all :: "traffic_sequence \<Rightarrow> nat" where
  "sum_packet_lengths_all s =
     ring_accumulate_n (m_packet_indexes s) 0 (m_size s) 0 (add_template_length s)"

definition sum_packet_lengths :: "traffic_sequence \<Rightarrow> nat \<Rightarrow> nat option" where
  "sum_packet_lengths s idx =
     (if m_packet_indexes s = [] then None
      else
        let quot = idx div length (m_packet_indexes s);
            rem = idx mod length (m_packet_indexes s);
            tot = foldl (add_template_length s) 0 (take rem (m_packet_indexes s))
        in Some (if quot \<noteq> 0 then tot + quot * sum_packet_lengths_all s else tot))"

text \<open>Iterating over a sequence yields the views of the indexes below the end.\<close>

definition views :: "traffic_sequence \<Rightarrow> nat \<Rightarrow> packet_view list" where
  "views s n = map (packet_at s) [0..<n]"

definition filter_accumulate :: "u32 \<Rightarrow> packet_view list \<Rightarrow> nat" where
  "filter_accumulate flow vs =
     foldl (\<lambda>tot v. if flow_index v = flow then tot + unat (packet_length v) else tot) 0 vs"

definition sum_flow_packet_lengths_all :: "traffic_sequence \<Rightarrow> u32 \<Rightarrow> nat" where
  "sum_flow_packet_lengths_all s flow = filter_accumulate flow (views s (m_size s))"

definition sum_flow_packet_lengths :: "traffic_sequence \<Rightarrow> u32 \<Rightarrow> nat \<Rightarrow> nat option" where
  "sum_flow_packet_lengths s flow pkt_idx =
     (let quot = pkt_idx div length (m_packet_indexes s);
          rem = pkt_idx mod length (m_packet_indexes s)
      in if m_packet_indexes s = [] \<or> (m_length_indexes s = [] \<and> 0 < rem) then None
      else
        let tot = filter_accumulate flow (views s rem)
        in Some (if quot \<noteq> 0 then tot + quot * sum_flow_packet_lengths_all s flow else tot))"

definition flow_packets :: "traffic_sequence \<Rightarrow> u32 \<Rightarrow> nat" where
  "flow_packets s flow = length (filter (\<lambda>v. flow_index v = flow) (views s (m_size s)))"

definition flow_count :: "traffic_sequence \<Rightarrow> nat" where
  "flow_count s = foldl (\<lambda>n d. n + template_size (def_packets d)) 0 (m_definitions s)"

definition has_signature_config :: "traffic_sequence \<Rightarrow> bool" where
  "has_signature_config s \<longleftrightarrow> list_ex (\<lambda>d. def_signature d \<noteq> None) (m_definitions s)"

text \<open>
  The fill of a definition is read without a check that it has a signature; \<open>None\<close> is the read of
  an empty optional. \<open>any_of\<close> stops at the first fill.
\<close>

fun any_payload_fill :: "signature_config option list \<Rightarrow> bool option" where
  "any_payload_fill [] = Some False"
| "any_payload_fill (None # cs) = None"
| "any_payload_fill (Some c # cs) =
     (if sig_fill c \<noteq> No_Fill then Some True else any_payload_fill cs)"

definition has_signature_payload_fill :: "traffic_sequence \<Rightarrow> bool option" where
  "has_signature_payload_fill s = any_payload_fill (map def_signature (m_definitions s))"

text \<open>The definition of a flow is the last one whose offset is not above the flow index.\<close>

definition get_signature_stream_id :: "traffic_sequence \<Rightarrow> u32 \<Rightarrow> u32 option" where
  "get_signature_stream_id s flow_idx =
     (let def_idx = upper_bound (m_flow_offsets s) (unat flow_idx) - 1
      in map_option (\<lambda>c. to_stream_id (ucast (stream_id c))
                           (of_nat (unat flow_idx - m_flow_offsets s ! def_idx)))
           (def_signature (m_definitions s ! def_idx)))"

text \<open>\<open>max_packet_length\<close>; the maximum of an empty length template is not defined.\<close>

definition template_max_length :: "length_template \<Rightarrow> u16 option" where
  "template_max_length ls = (if ls = [] then None else Some (foldl max (hd ls) (tl ls)))"

definition max_step :: "u16 option \<Rightarrow> traffic_def \<Rightarrow> u16 option" where
  "max_step acc d = (case (acc, template_max_length (def_lengths d)) of
     (Some l, Some r) \<Rightarrow> Some (max l r) | _ \<Rightarrow> None)"

definition sequence_max_length :: "traffic_sequence \<Rightarrow> u16 option" where
  "sequence_max_length s = foldl max_step (Some 0) (m_definitions s)"

end
