(* ===== verification/Round_Robin.thy ===== *)
theory Round_Robin
  imports Main
begin

text \<open>
  The weighted round robin as a specification: which definition sends the packet of a position,
  and how many packets it has sent before, with the closed forms of both and their periodicity.
  The two orders of \<open>src/modules/packet/generator/traffic/sequence.cpp\<close> are instances.
\<close>

subsection \<open>A weighted round robin\<close>

text \<open>
  The reference: one round sends \<open>ws ! t\<close> packets of definition \<open>t\<close>, the definitions in order. The
  owner of a position is the definition that sends there, and its rank the number of packets the
  same definition has sent before.
\<close>

fun round_from :: "nat \<Rightarrow> nat list \<Rightarrow> nat list" where
  "round_from k [] = []"
| "round_from k (w # ws) = replicate w k @ round_from (Suc k) ws"

definition owner :: "nat list \<Rightarrow> nat \<Rightarrow> nat" where
  "owner ws i = round_from 0 ws ! (i mod sum_list ws)"

definition occurrences :: "nat list \<Rightarrow> nat \<Rightarrow> nat \<Rightarrow> nat" where
  "occurrences ws t i = length (filter (\<lambda>j. owner ws j = t) [0..<i])"

definition rank :: "nat list \<Rightarrow> nat \<Rightarrow> nat" where
  "rank ws i = occurrences ws (owner ws i) i"

lemma length_round_from [simp]: "length (round_from k ws) = sum_list ws"
  by (induction ws arbitrary: k) simp_all

lemma round_from_nth:
  "r < sum_list ws \<Longrightarrow>
   k \<le> round_from k ws ! r \<and> round_from k ws ! r < k + length ws \<and>
   sum_list (take (round_from k ws ! r - k) ws) \<le> r \<and>
   r < sum_list (take (Suc (round_from k ws ! r - k)) ws)"
proof (induction ws arbitrary: k r)
  case Nil
  then show ?case by simp
next
  case (Cons w ws)
  show ?case
  proof (cases "r < w")
    case True
    then show ?thesis by (simp add: nth_append)
  next
    case False
    then have "r - w < sum_list ws" using Cons.prems by simp
    from Cons.IH [OF this, of "Suc k"] False show ?thesis
      by (cases "round_from (Suc k) ws ! (r - w)") (auto simp: nth_append Suc_diff_le)
  qed
qed

lemma sum_take_mono: "i \<le> j \<Longrightarrow> sum_list (take i ws) \<le> sum_list (take j (ws :: nat list))"
proof (induction ws arbitrary: i j)
  case (Cons w ws)
  then show ?case by (cases i; cases j) simp_all
qed simp

lemma sum_take_Suc: "t < length ws \<Longrightarrow> sum_list (take (Suc t) ws) = sum_list (take t ws) + (ws ! t :: nat)"
  by (simp add: take_Suc_conv_app_nth)

lemma sum_take_le: "sum_list (take i ws) \<le> sum_list (ws :: nat list)"
  using sum_take_mono [of i "length ws" ws] by (cases "i \<le> length ws") simp_all

lemma owner_props:
  assumes "0 < sum_list ws"
  shows "owner ws i < length ws" "sum_list (take (owner ws i) ws) \<le> i mod sum_list ws"
    "i mod sum_list ws < sum_list (take (Suc (owner ws i)) ws)"
  using round_from_nth [of "i mod sum_list ws" ws 0] assms by (simp_all add: owner_def)

lemma owner_unique:
  assumes "0 < sum_list ws" "t < length ws"
  shows "owner ws i = t \<longleftrightarrow>
    sum_list (take t ws) \<le> i mod sum_list ws \<and> i mod sum_list ws < sum_list (take (Suc t) ws)"
proof
  assume "owner ws i = t"
  then show "sum_list (take t ws) \<le> i mod sum_list ws \<and> i mod sum_list ws < sum_list (take (Suc t) ws)"
    using owner_props [OF assms(1), of i] by simp
next
  assume *: "sum_list (take t ws) \<le> i mod sum_list ws \<and> i mod sum_list ws < sum_list (take (Suc t) ws)"
  note o = owner_props [OF assms(1), of i]
  show "owner ws i = t"
  proof (rule ccontr)
    assume "owner ws i \<noteq> t"
    then consider "Suc (owner ws i) \<le> t" | "Suc t \<le> owner ws i" by linarith
    then show False
    proof cases
      case 1
      from sum_take_mono [OF 1, of ws] o * show ?thesis by linarith
    next
      case 2
      from sum_take_mono [OF 2, of ws] o * show ?thesis by linarith
    qed
  qed
qed

lemma occurrences_closed:
  assumes "0 < sum_list ws" "t < length ws"
  shows "occurrences ws t i =
    (i div sum_list ws) * ws ! t + min (i mod sum_list ws - sum_list (take t ws)) (ws ! t)"
proof (induction i)
  case 0
  then show ?case by (simp add: occurrences_def)
next
  case (Suc i)
  define S where "S = sum_list ws"
  define P where "P = sum_list (take t ws)"
  define w where "w = ws ! t"
  have S: "0 < S" "P + w \<le> S" "sum_list (take (Suc t) ws) = P + w"
    using assms sum_take_le [of "Suc t" ws] sum_take_Suc [OF assms(2)]
    by (simp_all add: S_def P_def w_def)
  have o: "owner ws i = t \<longleftrightarrow> P \<le> i mod S \<and> i mod S < P + w"
    using owner_unique [OF assms, of i] S(3) by (simp add: S_def P_def)
  have step: "occurrences ws t (Suc i) = occurrences ws t i + (if owner ws i = t then 1 else 0)"
    by (simp add: occurrences_def)
  have IH: "occurrences ws t i = (i div S) * w + min (i mod S - P) w"
    using Suc by (simp add: S_def P_def w_def)
  have "occurrences ws t (Suc i) = (Suc i div S) * w + min (Suc i mod S - P) w"
  proof (cases "Suc (i mod S) = S")
    case True
    then have "Suc i mod S = 0" "Suc i div S = Suc (i div S)" by (simp_all add: mod_Suc div_Suc)
    moreover have "i mod S = S - 1" using True by simp
    ultimately show ?thesis unfolding step IH o using S by auto
  next
    case False
    then have "Suc i mod S = Suc (i mod S)" "Suc i div S = i div S" by (simp_all add: mod_Suc div_Suc)
    then show ?thesis unfolding step IH o by auto
  qed
  then show ?case by (simp add: S_def P_def w_def)
qed

lemma rank_closed:
  assumes "0 < sum_list ws"
  shows "rank ws i = (i div sum_list ws) * ws ! owner ws i +
                     (i mod sum_list ws - sum_list (take (owner ws i) ws))"
  using occurrences_closed [OF assms owner_props(1) [OF assms], of i i] owner_props [OF assms, of i]
    sum_take_Suc [OF owner_props(1) [OF assms], of i]
  unfolding rank_def by linarith

text \<open>Moving by whole periods of rounds keeps the owner and adds a multiple of the period.\<close>

lemma owner_periodic: "owner ws (i mod (p * sum_list ws)) = owner ws i"
  by (simp add: owner_def mod_mult_self3 mod_mod_cancel)

lemma rank_periodic:
  assumes "0 < sum_list ws" "0 < p"
  shows "rank ws i = rank ws (i mod (p * sum_list ws)) +
           (i div (p * sum_list ws)) * (p * ws ! owner ws i)"
proof -
  define S where "S = sum_list ws"
  define q where "q = i div (p * S)"
  define r where "r = i mod (p * S)"
  have S: "0 < S" using assms by (simp add: S_def)
  have i: "i = q * p * S + r" by (simp only: q_def r_def mult.assoc div_mult_mod_eq)
  have d: "i div S = q * p + r div S" unfolding i using S by simp
  have m: "i mod S = r mod S" unfolding i by simp
  have o: "owner ws r = owner ws i" by (simp add: r_def S_def owner_periodic)
  show ?thesis
    unfolding rank_closed [OF assms(1)] S_def [symmetric] r_def [symmetric] q_def [symmetric] o d m
    by (simp add: algebra_simps)
qed

end
