(* ===== verification/Sequence_Schedule.thy ===== *)
theory Sequence_Schedule
  imports Traffic_Sequence Round_Robin
begin

text \<open>
  What a packet sequence sends: the generators of
  \<open>src/modules/packet/generator/traffic/sequence.cpp\<close> against the round robin of
  \<open>Round_Robin\<close>, bulk access against single access, and the sums and counts of the statistics
  against the packets sent.
\<close>

subsection \<open>The generators compute the round robin\<close>

lemma length_partial_sum [simp]: "length (partial_sum a xs) = length xs"
  by (induction xs arbitrary: a) simp_all

lemma unat_partial_sum:
  "unat a + sum_list (map unat xs) < 2 ^ 32 \<Longrightarrow> i < length xs \<Longrightarrow>
   unat (partial_sum a xs ! i) = unat a + sum_list (take (Suc i) (map unat xs))"
proof (induction xs arbitrary: a i)
  case (Cons x xs)
  have ax: "unat (a + x) = unat a + unat x" using Cons.prems(1) by (simp add: unat_word_ariths)
  show ?case
  proof (cases i)
    case 0
    then show ?thesis using ax by simp
  next
    case (Suc j)
    then show ?thesis using Cons.IH [of "a + x" j] Cons.prems by (simp add: ax)
  qed
qed simp

lemma upper_boundI:
  assumes "t < length xs" "v < xs ! t" "\<And>j. j < t \<Longrightarrow> xs ! j \<le> v"
  shows "upper_bound xs v = t"
proof -
  have "takeWhile (\<lambda>x. x \<le> v) xs = take t xs"
    by (rule takeWhile_eq_take_P_nth) (use assms in auto)
  then show ?thesis using assms(1) by (simp add: upper_bound_def)
qed

lemma generator_core:
  fixes ws :: "u32 list"
  defines "ns \<equiv> map unat ws"
  assumes pos: "0 < sum_list ns" and fit: "sum_list ns < 2 ^ 32"
  shows "unat (last (partial_sum 0 ws)) = sum_list ns" (is ?last)
    and "upper_bound (map unat (partial_sum 0 ws)) (i mod sum_list ns) = owner ns i" (is ?owner)
    and "i - (i div sum_list ns * sum_list ns
              + (if owner ns i = 0 then 0 else unat (partial_sum 0 ws ! (owner ns i - 1)))
              - i div sum_list ns * unat (ws ! owner ns i)) = rank ns i" (is ?rank)
proof -
  define S where "S = sum_list ns"
  have sums: "unat (partial_sum 0 ws ! j) = sum_list (take (Suc j) ns)" if "j < length ws" for j
    using unat_partial_sum [of 0 ws j] fit that by (simp add: ns_def)
  have ne: "ws \<noteq> []" using pos by (auto simp: ns_def)
  then have "partial_sum 0 ws \<noteq> []" using length_partial_sum [of 0 ws] by fastforce
  then have "last (partial_sum 0 ws) = partial_sum 0 ws ! (length ws - 1)"
    by (simp add: last_conv_nth)
  moreover have "length ws - 1 < length ws" "take (Suc (length ws - 1)) ns = ns"
    using ne by (simp_all add: ns_def)
  ultimately show ?last using sums [of "length ws - 1"] by simp
  note o = owner_props [OF pos, of i]
  have len: "length ns = length ws" by (simp add: ns_def)
  show ?owner
  proof (rule upper_boundI)
    show "owner ns i < length (map unat (partial_sum 0 ws))" using o(1) len by simp
    then show "i mod sum_list ns < map unat (partial_sum 0 ws) ! owner ns i" using o(3) sums by simp
    fix j assume j: "j < owner ns i"
    then have "sum_list (take (Suc j) ns) \<le> sum_list (take (owner ns i) ns)"
      by (intro sum_take_mono) simp
    then show "map unat (partial_sum 0 ws) ! j \<le> i mod sum_list ns" using o(1,2) sums [of j] j len
      by simp
  qed
  have pre: "(if owner ns i = 0 then 0 else unat (partial_sum 0 ws ! (owner ns i - 1)))
     = sum_list (take (owner ns i) ns)"
    using sums [of "owner ns i - 1"] o(1) len by auto
  have w: "unat (ws ! owner ns i) = ns ! owner ns i" using o(1) by (simp add: ns_def)
  define q where "q = i div S"
  define P where "P = sum_list (take (owner ns i) ns)"
  define v where "v = ns ! owner ns i"
  have wle: "P + v \<le> S"
    using sum_take_Suc [OF o(1)] sum_take_le [of "Suc (owner ns i)" ns] by (simp add: P_def S_def v_def)
  have "i = q * S + i mod S" by (simp add: q_def)
  moreover have "P \<le> i mod S" using o(2) by (simp add: S_def P_def)
  moreover have "q * v \<le> q * S" using wle by simp
  ultimately have "i - (q * S + P - q * v) = q * v + (i mod S - P)" by linarith
  then show ?rank unfolding pre w rank_closed [OF pos] S_def q_def P_def v_def .
qed

definition weights :: "traffic_def list \<Rightarrow> nat list" where
  "weights defs = map (unat \<circ> def_weight) defs"

definition sizes :: "traffic_def list \<Rightarrow> nat list" where
  "sizes defs = map (template_size \<circ> def_packets) defs"

definition turns :: "traffic_def list \<Rightarrow> nat list" where
  "turns defs = map (\<lambda>d. unat (def_weight d) * template_size (def_packets d)) defs"

text \<open>
  What the generator assumes of its definitions: at most \<open>2\<^sup>1\<^sup>6\<close> of them, each with at least one
  header and one length and at most 65535 headers and \<open>2\<^sup>1\<^sup>6\<close> lengths.
\<close>

definition defs_ok :: "traffic_def list \<Rightarrow> bool" where
  "defs_ok defs \<longleftrightarrow> defs \<noteq> [] \<and> length defs \<le> 65536 \<and>
     (\<forall>d \<in> set defs. 0 < template_size (def_packets d) \<and> template_size (def_packets d) \<le> 65535 \<and>
        def_lengths d \<noteq> [] \<and> length (def_lengths d) \<le> 65536)"

text \<open>A definition whose lengths are repeated a whole number of times over its headers.\<close>

definition lengths_divide :: "traffic_def list \<Rightarrow> bool" where
  "lengths_divide defs \<longleftrightarrow>
     (\<forall>d \<in> set defs. length (def_lengths d) dvd template_size (def_packets d))"

lemma defs_okD:
  assumes "defs_ok defs" "t < length defs"
  shows "0 < template_size (def_packets (defs ! t))" "template_size (def_packets (defs ! t)) \<le> 65535"
    "def_lengths (defs ! t) \<noteq> []" "length (def_lengths (defs ! t)) \<le> 65536"
  using assms by (simp_all add: defs_ok_def)

lemma unat_of_nat16: "n < 65536 \<Longrightarrow> unat (of_nat n :: u16) = n"
  by (simp add: unat_of_nat)

lemma unat_of_nat32: "n < 2 ^ 32 \<Longrightarrow> unat (of_nat n :: u32) = n"
  by (simp add: unat_of_nat)

lemma unat_template_sizes:
  assumes "defs_ok defs" "t < length defs"
  shows "unat (template_sizes defs ! t) = template_size (def_packets (defs ! t))"
  using defs_okD(2) [OF assms] assms(2) by (simp add: template_sizes_def unat_of_nat32)

lemma map_unat_scalars: "map unat (template_scalars defs) = weights defs"
  by (simp add: template_scalars_def weights_def)

lemma rr_indexes_rank:
  assumes ok: "defs_ok defs" and pos: "0 < sum_list (weights defs)" and fit: "sum_list (weights defs) < 2 ^ 32"
  shows "rr_indexes defs i =
    (of_nat (owner (weights defs) i),
     of_nat (rank (weights defs) i mod template_size (def_packets (defs ! owner (weights defs) i))))"
proof -
  note core = generator_core [of "template_scalars defs", unfolded map_unat_scalars, OF pos fit]
  have o: "owner (weights defs) i < length defs"
    using owner_props(1) [OF pos, of i] by (simp add: weights_def)
  show ?thesis
    unfolding rr_indexes_def weight_sums_def Let_def core unat_template_sizes [OF ok o] ..
qed

lemma rr_size_eq:
  assumes pos: "0 < sum_list (weights defs)" and fit: "sum_list (weights defs) < 2 ^ 32"
  shows "rr_size defs = lcm_sizes (template_sizes defs) * sum_list (weights defs)"
  unfolding rr_size_def weight_sums_def
  using generator_core(1) [of "template_scalars defs", unfolded map_unat_scalars, OF pos fit] by simp

lemma length_length_indexes [simp]: "length (length_indexes defs pkts sc i n) = n"
  by (induction n arbitrary: sc i) (simp_all add: Let_def)

text \<open>The scratch counters count the packets of each definition.\<close>

lemma length_indexes_nth:
  assumes "\<And>j. j < n \<Longrightarrow> unat (fst (pkts ! ((i + j) mod length pkts))) < length sc" "k < n"
  shows "length_indexes defs pkts sc i n ! k =
    (fst (pkts ! ((i + k) mod length pkts)),
     let d = unat (fst (pkts ! ((i + k) mod length pkts)))
     in of_nat ((sc ! d + length (filter (\<lambda>j. unat (fst (pkts ! ((i + j) mod length pkts))) = d) [0..<k]))
                mod length (def_lengths (defs ! d))))"
  using assms
proof (induction n arbitrary: sc i k)
  case 0
  then show ?case by simp
next
  case (Suc n)
  define e where "e = unat (fst (pkts ! (i mod length pkts)))"
  show ?case
  proof (cases k)
    case 0
    then show ?thesis by (simp add: Let_def)
  next
    case (Suc l)
    have el: "e < length sc" using Suc.prems(1) [of 0] by (simp add: e_def)
    have "unat (fst (pkts ! ((Suc i + j) mod length pkts))) < length (sc[e := Suc (sc ! e)])" if "j < n" for j
      using Suc.prems(1) [of "Suc j"] that by simp
    from Suc.IH [of "Suc i" "sc[e := Suc (sc ! e)]" l, OF this] Suc.prems(2) Suc
    have IH: "length_indexes defs pkts (sc[e := Suc (sc ! e)]) (Suc i) n ! l =
      (fst (pkts ! ((Suc i + l) mod length pkts)),
       let d = unat (fst (pkts ! ((Suc i + l) mod length pkts)))
       in of_nat ((sc[e := Suc (sc ! e)] ! d +
            length (filter (\<lambda>j. unat (fst (pkts ! ((Suc i + j) mod length pkts))) = d) [0..<l]))
            mod length (def_lengths (defs ! d))))"
      by simp
    define d where "d = unat (fst (pkts ! ((i + k) mod length pkts)))"
    have dl: "d < length sc" using Suc.prems(1) [of k] Suc.prems(2) by (simp add: d_def)
    have "[0..<k] = 0 # map Suc [0..<l]" using Suc by (simp add: upt_conv_Cons map_Suc_upt del: upt_Suc)
    then have cnt: "length (filter (\<lambda>j. unat (fst (pkts ! ((i + j) mod length pkts))) = d) [0..<k]) =
        (if e = d then 1 else 0) +
        length (filter (\<lambda>j. unat (fst (pkts ! ((Suc i + j) mod length pkts))) = d) [0..<l])"
      by (simp add: e_def filter_map comp_def)
    have upd: "sc[e := Suc (sc ! e)] ! d = sc ! d + (if e = d then 1 else 0)"
      using dl by (simp add: nth_list_update)
    have "length_indexes defs pkts sc i (Suc n) ! k =
        length_indexes defs pkts (sc[e := Suc (sc ! e)]) (Suc i) n ! l"
      using Suc by (simp add: Let_def e_def)
    moreover have "Suc i + l = i + k" using Suc by simp
    ultimately show ?thesis
      unfolding IH Let_def by (simp only: d_def [symmetric] upd cnt add.assoc)
  qed
qed

lemma foldl_lcm_acc: "a dvd foldl (\<lambda>l r. lcm l (f r)) (a :: nat) xs"
proof (induction xs arbitrary: a)
  case (Cons x xs)
  have "a dvd lcm a (f x)" by simp
  also have "\<dots> dvd foldl (\<lambda>l r. lcm l (f r)) (lcm a (f x)) xs" by (rule Cons.IH)
  finally show ?case by simp
qed simp

lemma foldl_lcm_dvd: "x \<in> set xs \<Longrightarrow> f x dvd foldl (\<lambda>l r. lcm l (f r)) (a :: nat) xs"
proof (induction xs arbitrary: a)
  case (Cons y ys)
  show ?case
  proof (cases "x = y")
    case True
    have "f y dvd lcm a (f y)" by simp
    also have "\<dots> dvd foldl (\<lambda>l r. lcm l (f r)) (lcm a (f y)) ys" by (rule foldl_lcm_acc)
    finally show ?thesis using True by simp
  next
    case False
    then show ?thesis using Cons by simp
  qed
qed simp

lemma foldl_lcm_pos:
  "0 < a \<Longrightarrow> (\<And>x. x \<in> set xs \<Longrightarrow> 0 < f x) \<Longrightarrow> 0 < foldl (\<lambda>l r. lcm l (f r)) (a :: nat) xs"
  by (induction xs arbitrary: a) (simp_all add: lcm_pos_nat)

lemma foldl_lcm_least:
  "a dvd m \<Longrightarrow> (\<And>x. x \<in> set xs \<Longrightarrow> f x dvd m) \<Longrightarrow> foldl (\<lambda>l r. lcm l (f r)) (a :: nat) xs dvd m"
  by (induction xs arbitrary: a) simp_all

lemma foldl_add_sum: "foldl (\<lambda>s d. s + f d) (a :: nat) xs = a + sum_list (map f xs)"
  by (induction xs arbitrary: a) simp_all

subsection \<open>What a sequence sends\<close>

text \<open>The \<open>k\<close>-th packet of definition \<open>t\<close>: headers and lengths are taken in turn.\<close>

definition scheduled :: "traffic_def list \<Rightarrow> nat \<Rightarrow> nat \<Rightarrow> packet_view" where
  "scheduled defs t k =
     (let d = defs ! t; h = k mod template_size (def_packets d)
      in \<lparr>flow_index = of_nat (flow_offsets 0 defs ! t + h),
          header_ptr = (t, template_at (def_packets d) h),
          view_lengths = m_hdr_lens (def_packets d), view_flags = m_flags (def_packets d),
          view_signature = maybe_update_signature_config (def_signature d) (of_nat h),
          packet_length = def_lengths d ! (k mod length (def_lengths d))\<rparr>)"

lemma mod_dvd_cong: "(m :: nat) dvd c \<Longrightarrow> (a + b * c) mod m = a mod m"
  by (metis dvd_mult mod_add_right_eq add.right_neutral dvd_imp_mod_0)

lemma rank_mod_periodic:
  assumes "0 < sum_list ws" "0 < p" "m dvd p * ws ! owner ws i"
  shows "rank ws (i mod (p * sum_list ws)) mod m = rank ws i mod m"
  unfolding rank_periodic [OF assms(1,2), of i] mod_dvd_cong [OF assms(3)] ..

text \<open>
  The two index tables of a sequence, for an order of the definitions with the turns \<open>ws\<close>: \<open>p\<close>
  rounds of headers and \<open>q\<close> rounds of lengths.
\<close>

lemma sequence_tables:
  fixes defs ws p q i
  defines "S \<equiv> sum_list ws"
  assumes ok: "defs_ok defs" and len: "length ws = length defs" and pos: "0 < S" "0 < p" "0 < q"
    and headers: "\<And>t. t < length defs \<Longrightarrow> template_size (def_packets (defs ! t)) dvd p * ws ! t"
    and lengths: "\<And>t. t < length defs \<Longrightarrow> length (def_lengths (defs ! t)) dvd q * ws ! t"
    and pkts: "pkts = map (\<lambda>i. (of_nat (owner ws i),
                 of_nat (rank ws i mod template_size (def_packets (defs ! owner ws i))))) [0..<p * S]"
  defines "t \<equiv> owner ws i"
  shows "pkts ! (i mod length pkts) = (of_nat t, of_nat (rank ws i mod template_size (def_packets (defs ! t))))"
    and "length_indexes defs pkts (replicate (length defs) 0) 0 (q * S) ! (i mod (q * S)) =
      (of_nat t, of_nat (rank ws i mod length (def_lengths (defs ! t))))"
proof -
  have S: "0 < sum_list ws" using pos by (simp add: S_def)
  have own: "owner ws j < length defs" for j using owner_props(1) [OF S] len by simp
  have key: "pkts ! (j mod length pkts) =
      (of_nat (owner ws j), of_nat (rank ws j mod template_size (def_packets (defs ! owner ws j))))" for j
  proof -
    have "j mod (p * S) < p * S" using pos by simp
    then show ?thesis unfolding pkts S_def
      by (simp add: owner_periodic rank_mod_periodic [OF S pos(2) headers] own)
  qed
  show "pkts ! (i mod length pkts) =
    (of_nat t, of_nat (rank ws i mod template_size (def_packets (defs ! t))))"
    by (simp add: key t_def)
  have "length defs \<le> 65536" using ok by (simp add: defs_ok_def)
  then have uo: "unat (of_nat (owner ws j) :: u16) = owner ws j" for j
    using own [of j] by (simp add: unat_of_nat16)
  then have ut: "unat (of_nat t :: u16) = t" by (simp add: t_def)
  define k where "k = i mod (q * S)"
  have k: "k < q * S" using pos by (simp add: k_def)
  have ok': "owner ws k = t" by (simp add: k_def S_def t_def owner_periodic)
  have cnt: "length (filter (\<lambda>j. owner ws j = t) [0..<k]) = rank ws k"
    by (simp add: rank_def occurrences_def ok')
  have "length_indexes defs pkts (replicate (length defs) 0) 0 (q * S) ! k =
      (of_nat t, of_nat (rank ws k mod length (def_lengths (defs ! t))))"
    by (subst length_indexes_nth)
      (use k own [of k] in \<open>simp_all add: key own uo ut Let_def ok' cnt\<close>)
  moreover have "rank ws k mod length (def_lengths (defs ! t)) = rank ws i mod length (def_lengths (defs ! t))"
    unfolding k_def S_def using rank_mod_periodic [OF S pos(3) lengths [OF own]] by (simp add: t_def)
  ultimately show "length_indexes defs pkts (replicate (length defs) 0) 0 (q * S) ! (i mod (q * S)) =
      (of_nat t, of_nat (rank ws i mod length (def_lengths (defs ! t))))"
    by (simp add: k_def)
qed

lemma packet_at_scheduled:
  assumes ok: "defs_ok defs" and s: "m_definitions s = defs" "m_flow_offsets s = flow_offsets 0 defs"
    and t: "t < length defs"
    and pkt: "m_packet_indexes s ! (i mod length (m_packet_indexes s)) =
      (of_nat t, of_nat (k mod template_size (def_packets (defs ! t))))"
    and lns: "m_length_indexes s ! (i mod length (m_length_indexes s)) =
      (of_nat t, of_nat (k mod length (def_lengths (defs ! t))))"
  shows "packet_at s i = scheduled defs t k"
proof -
  have ut: "unat (of_nat t :: u16) = t" using t ok by (simp add: unat_of_nat16 defs_ok_def)
  define h where "h = k mod template_size (def_packets (defs ! t))"
  have "h < template_size (def_packets (defs ! t))" using defs_okD(1) [OF ok t] by (simp add: h_def)
  then have uh: "unat (of_nat h :: u16) = h" using defs_okD(2) [OF ok t] by (simp add: unat_of_nat16)
  have "k mod length (def_lengths (defs ! t)) < length (def_lengths (defs ! t))"
    using defs_okD(3) [OF ok t] by simp
  then have ul: "unat (of_nat (k mod length (def_lengths (defs ! t))) :: u16) =
      k mod length (def_lengths (defs ! t))"
    using defs_okD(4) [OF ok t] by (simp add: unat_of_nat16)
  show ?thesis
    unfolding packet_at_def pkt lns header_fields_def length_field_def scheduled_def Let_def fst_conv
      snd_conv ut h_def [symmetric] uh ul s prod.case ..
qed

lemma lcm_sizes_pos: "defs_ok defs \<Longrightarrow> 0 < lcm_sizes (template_sizes defs)"
proof -
  assume ok: "defs_ok defs"
  have "0 < unat x" if x: "x \<in> set (template_sizes defs)" for x
  proof -
    obtain d where d: "d \<in> set defs" "x = of_nat (template_size (def_packets d))"
      using x by (auto simp: template_sizes_def)
    then have "0 < template_size (def_packets d)" "template_size (def_packets d) \<le> 65535"
      using ok by (auto simp: defs_ok_def)
    then show ?thesis by (simp add: d(2) unat_of_nat32)
  qed
  then show ?thesis unfolding lcm_sizes_def by (intro foldl_lcm_pos) simp_all
qed

lemma size_dvd_lcm_sizes:
  assumes "defs_ok defs" "t < length defs"
  shows "template_size (def_packets (defs ! t)) dvd lcm_sizes (template_sizes defs)"
proof -
  have "template_sizes defs ! t \<in> set (template_sizes defs)"
    using assms(2) by (intro nth_mem) (simp add: template_sizes_def)
  from foldl_lcm_dvd [OF this, of unat 1] unat_template_sizes [OF assms] show ?thesis
    by (simp add: lcm_sizes_def)
qed

lemma flow_lcm_pos: "defs_ok defs \<Longrightarrow> 0 < flow_lcm defs"
  unfolding flow_lcm_def by (rule foldl_lcm_pos) (auto simp: def_lcm_def defs_ok_def lcm_pos_nat)

lemma def_lcm_dvd_flow_lcm: "t < length defs \<Longrightarrow> def_lcm (defs ! t) dvd flow_lcm defs"
  unfolding flow_lcm_def by (rule foldl_lcm_dvd) simp

lemma map_upt_ne: "0 < n \<Longrightarrow> map f [0..<n] \<noteq> []"
  by simp

lemma length_indexes_Nil_iff: "length_indexes defs pkts sc i n = [] \<longleftrightarrow> n = 0"
  using length_length_indexes [of defs pkts sc i n] by fastforce

lemma length_indexes_ne: "0 < n \<Longrightarrow> length_indexes defs pkts sc i n \<noteq> []"
  using length_length_indexes [of defs pkts sc i n] by fastforce

lemma sequence_views:
  assumes ok: "defs_ok defs" and len: "length ws = length defs" and pos: "0 < sum_list ws" "0 < p" "0 < q"
    and headers: "\<And>t. t < length defs \<Longrightarrow> template_size (def_packets (defs ! t)) dvd p * ws ! t"
    and lengths: "\<And>t. t < length defs \<Longrightarrow> length (def_lengths (defs ! t)) dvd q * ws ! t"
    and pkts: "m_packet_indexes s = map (\<lambda>i. (of_nat (owner ws i),
        of_nat (rank ws i mod template_size (def_packets (defs ! owner ws i))))) [0..<p * sum_list ws]"
    and lens: "m_length_indexes s =
        length_indexes defs (m_packet_indexes s) (replicate (length defs) 0) 0 (q * sum_list ws)"
    and s: "m_definitions s = defs" "m_flow_offsets s = flow_offsets 0 defs"
  shows "packet_at s i = scheduled defs (owner ws i) (rank ws i)"
    "sequence_at s i = Some (scheduled defs (owner ws i) (rank ws i))"
proof -
  note tables = sequence_tables [OF ok len pos headers lengths pkts, of i]
  have t: "owner ws i < length defs" using owner_props(1) [OF pos(1)] len by simp
  show 1: "packet_at s i = scheduled defs (owner ws i) (rank ws i)"
  proof (rule packet_at_scheduled [OF ok s t tables(1)])
    show "m_length_indexes s ! (i mod length (m_length_indexes s)) =
      (of_nat (owner ws i), of_nat (rank ws i mod length (def_lengths (defs ! owner ws i))))"
      using tables(2) by (simp add: lens)
  qed
  have "m_packet_indexes s \<noteq> []" unfolding pkts by (rule map_upt_ne) (simp add: pos)
  moreover have "m_length_indexes s \<noteq> []" unfolding lens by (rule length_indexes_ne) (simp add: pos)
  ultimately show "sequence_at s i = Some (scheduled defs (owner ws i) (rank ws i))"
    using 1 by (simp add: sequence_at_def)
qed

lemma make_round_robin:
  assumes ok: "defs_ok defs" and pos: "0 < sum_list (weights defs)" and fit: "sum_list (weights defs) < 2 ^ 32"
  obtains s where "make_sequence Round_Robin defs = Some s" "m_definitions s = defs"
    "m_flow_offsets s = flow_offsets 0 defs" "m_size s = flow_lcm defs * sum_list (weights defs)"
    "m_packet_indexes s = map (\<lambda>i. (of_nat (owner (weights defs) i),
        of_nat (rank (weights defs) i mod template_size (def_packets (defs ! owner (weights defs) i)))))
        [0..<lcm_sizes (template_sizes defs) * sum_list (weights defs)]"
    "m_length_indexes s =
       length_indexes defs (m_packet_indexes s) (replicate (length defs) 0) 0 (m_size s)"
proof -
  have "foldl (\<lambda>s d. s + unat (def_weight d)) 0 defs = sum_list (weights defs)"
    by (simp add: foldl_add_sum weights_def comp_def)
  moreover have "map (rr_indexes defs) [0..<rr_size defs] \<noteq> []"
    by (rule map_upt_ne) (simp add: rr_size_eq [OF pos fit] lcm_sizes_pos [OF ok] pos)
  moreover have "defs \<noteq> []" using ok by (simp add: defs_ok_def)
  ultimately have "make_sequence Round_Robin defs =
      (let pkts = map (rr_indexes defs) [0..<rr_size defs]; size = flow_lcm defs * sum_list (weights defs)
       in Some \<lparr>m_definitions = defs, m_packet_indexes = pkts,
             m_length_indexes = length_indexes defs pkts (replicate (length defs) 0) 0 size,
             m_flow_offsets = flow_offsets 0 defs, m_size = size\<rparr>)"
    by (simp only: make_sequence_def Let_def order_type.case if_False simp_thms)
  then show ?thesis
    by (intro that [of "\<lparr>m_definitions = defs, m_packet_indexes = map (rr_indexes defs) [0..<rr_size defs],
             m_length_indexes = length_indexes defs (map (rr_indexes defs) [0..<rr_size defs])
               (replicate (length defs) 0) 0 (flow_lcm defs * sum_list (weights defs)),
             m_flow_offsets = flow_offsets 0 defs,
             m_size = flow_lcm defs * sum_list (weights defs)\<rparr>"])
      (simp_all add: Let_def rr_size_eq [OF pos fit] rr_indexes_rank [OF ok pos fit])
qed

lemma make_sequence_tables:
  assumes "make_sequence order defs = Some s" "0 < m_size s"
  shows "m_packet_indexes s \<noteq> []" "m_length_indexes s \<noteq> []"
proof -
  have "m_packet_indexes s \<noteq> [] \<and> m_length_indexes s \<noteq> []"
    using assms unfolding make_sequence_def Let_def
    by (cases order) (auto split: if_splits simp: length_indexes_Nil_iff dest!: sym [of _ s])
  then show "m_packet_indexes s \<noteq> []" "m_length_indexes s \<noteq> []" by auto
qed

lemma round_robin_packet:
  assumes "defs_ok defs" "0 < sum_list (weights defs)" "sum_list (weights defs) < 2 ^ 32"
    "make_sequence Round_Robin defs = Some s"
  shows "packet_at s i = scheduled defs (owner (weights defs) i) (rank (weights defs) i)"
    "owner (weights defs) i < length defs" "m_definitions s = defs"
    "m_flow_offsets s = flow_offsets 0 defs" "m_size s = flow_lcm defs * sum_list (weights defs)"
    "m_packet_indexes s = map (\<lambda>i. (of_nat (owner (weights defs) i),
        of_nat (rank (weights defs) i mod template_size (def_packets (defs ! owner (weights defs) i)))))
        [0..<lcm_sizes (template_sizes defs) * sum_list (weights defs)]"
proof -
  obtain s' where s: "make_sequence Round_Robin defs = Some s'" "m_definitions s' = defs"
    "m_flow_offsets s' = flow_offsets 0 defs" "m_size s' = flow_lcm defs * sum_list (weights defs)"
    "m_packet_indexes s' = map (\<lambda>i. (of_nat (owner (weights defs) i),
        of_nat (rank (weights defs) i mod template_size (def_packets (defs ! owner (weights defs) i)))))
        [0..<lcm_sizes (template_sizes defs) * sum_list (weights defs)]"
    "m_length_indexes s' =
       length_indexes defs (m_packet_indexes s') (replicate (length defs) 0) 0 (m_size s')"
    by (rule make_round_robin [OF assms(1-3)])
  have ss: "s' = s" using s(1) assms(4) by simp
  show "owner (weights defs) i < length defs"
    using owner_props(1) [OF assms(2)] by (simp add: weights_def)
  show "packet_at s i = scheduled defs (owner (weights defs) i) (rank (weights defs) i)" unfolding ss [symmetric]
  proof (rule sequence_views(1) [OF assms(1) _ assms(2) lcm_sizes_pos [OF assms(1)]
        flow_lcm_pos [OF assms(1)] _ _ s(5) s(6) [unfolded s(4)] s(2,3)])
    show "length (weights defs) = length defs" by (simp add: weights_def)
    fix t assume t: "t < length defs"
    show "template_size (def_packets (defs ! t)) dvd lcm_sizes (template_sizes defs) * weights defs ! t"
      using size_dvd_lcm_sizes [OF assms(1) t] by simp
    have "length (def_lengths (defs ! t)) dvd def_lcm (defs ! t)" by (simp add: def_lcm_def)
    also note def_lcm_dvd_flow_lcm [OF t]
    finally show "length (def_lengths (defs ! t)) dvd flow_lcm defs * weights defs ! t" by simp
  qed
qed (use make_round_robin [OF assms(1-3)] assms(4) in auto)

text \<open>A definition of \<open>n\<close> one-byte headers, in the layout of the container.\<close>

definition sample_def :: "nat \<Rightarrow> u16 list \<Rightarrow> u32 \<Rightarrow> signature_config option \<Rightarrow> traffic_def" where
  "sample_def n ls w sig =
     \<lparr>def_packets = \<lparr>m_headers = \<lparr>m_data = concat (replicate n [1, 0, 0, 0, 0, 0, 0, 0]),
        m_lengths = replicate n 1, m_offsets = map (\<lambda>i. 8 * i) [0..<n]\<rparr>,
        m_hdr_lens = no_lengths, m_flags = ethernet_ether\<rparr>,
      def_lengths = ls, def_weight = w, def_signature = sig\<rparr>"

text \<open>Two definitions with a signature and a weight each, for the witnesses.\<close>

definition demo_defs :: "traffic_def list" where
  "demo_defs = [sample_def 2 [64, 128] 2 (Some \<lparr>stream_id = 7, sig_flags = 0, sig_fill = Prbs_Fill\<rparr>),
     sample_def 1 [1500] 1 None]"

definition demo_seq :: traffic_sequence where
  "demo_seq = the (make_sequence Round_Robin demo_defs)"

lemma demo_ok:
  "defs_ok demo_defs" "lengths_divide demo_defs"
  "0 < sum_list (weights demo_defs)" "sum_list (weights demo_defs) < 2 ^ 32"
  "sum_list (sizes demo_defs) < 2 ^ 32"
  "0 < sum_list (turns demo_defs)" "sum_list (turns demo_defs) < 2 ^ 32"
  by (simp_all add: demo_defs_def sample_def_def defs_ok_def lengths_divide_def weights_def sizes_def
      turns_def template_size_def container_size_def numeral_2_eq_2 [symmetric])

lemma demo_seq: "make_sequence Round_Robin demo_defs = Some demo_seq"
  using make_round_robin [OF demo_ok(1,3,4)] by (metis demo_seq_def option.sel)

text \<open>
  C5: A round robin sequence sends, at every position, the definition whose turn it is by the
  weights, with its headers and its lengths each taken in turn: the \<open>k\<close>-th packet of a definition
  has the header of index \<open>k\<close> modulo the number of headers and the length of index \<open>k\<close> modulo the
  number of lengths.
\<close>

theorem round_robin_schedule:
  assumes "defs_ok defs" "0 < sum_list (weights defs)" "sum_list (weights defs) < 2 ^ 32"
  shows "\<exists>s. make_sequence Round_Robin defs = Some s \<and>
    (\<forall>i. sequence_at s i = Some (scheduled defs (owner (weights defs) i) (rank (weights defs) i)))"
proof -
  obtain s where s: "make_sequence Round_Robin defs = Some s"
    by (rule make_round_robin [OF assms])
  have "0 < m_size s"
    using round_robin_packet(5) [OF assms s] flow_lcm_pos [OF assms(1)] assms(2) by simp
  note make_sequence_tables [OF s this]
  then show ?thesis using s round_robin_packet(1) [OF assms s] by (simp add: sequence_at_def)
qed

theorem round_robin_schedule_witness:
  "\<exists>s. make_sequence Round_Robin demo_defs = Some s \<and> sequence_at s 4 = Some (scheduled demo_defs 0 3)"
proof -
  have "owner (weights demo_defs) 4 = 0" "rank (weights demo_defs) 4 = 3" by code_simp+
  then show ?thesis using round_robin_schedule [OF demo_ok(1,3,4)] by metis
qed

lemma unat_seq_lengths:
  assumes ok: "defs_ok defs" and fit: "sum_list (turns defs) < 2 ^ 32"
  shows "map unat (seq_lengths defs) = turns defs"
proof (rule nth_equalityI)
  show l: "length (map unat (seq_lengths defs)) = length (turns defs)"
    by (simp add: seq_lengths_def template_scalars_def template_sizes_def turns_def)
  fix t assume "t < length (map unat (seq_lengths defs))"
  then have t: "t < length defs"
    by (simp add: seq_lengths_def template_scalars_def template_sizes_def)
  have "turns defs ! t \<le> sum_list (turns defs)"
    by (intro member_le_sum_list nth_mem) (simp_all add: turns_def t)
  then have "unat (def_weight (defs ! t)) * template_size (def_packets (defs ! t)) < 2 ^ 32"
    using fit t by (simp add: turns_def)
  then show "map unat (seq_lengths defs) ! t = turns defs ! t"
    using t defs_okD(2) [OF ok t]
    by (simp add: seq_lengths_def template_scalars_def template_sizes_def turns_def unat_word_ariths
        unat_of_nat32)
qed

lemma seq_indexes_rank:
  assumes ok: "defs_ok defs" and pos: "0 < sum_list (turns defs)" and fit: "sum_list (turns defs) < 2 ^ 32"
  shows "seq_indexes defs i =
    (of_nat (owner (turns defs) i),
     of_nat (rank (turns defs) i mod template_size (def_packets (defs ! owner (turns defs) i))))"
    "seq_size defs = sum_list (turns defs)"
proof -
  note core = generator_core [of "seq_lengths defs", unfolded unat_seq_lengths [OF ok fit], OF pos fit]
  have o: "owner (turns defs) i < length defs"
    using owner_props(1) [OF pos, of i] by (simp add: turns_def)
  show "seq_indexes defs i =
    (of_nat (owner (turns defs) i),
     of_nat (rank (turns defs) i mod template_size (def_packets (defs ! owner (turns defs) i))))"
    unfolding seq_indexes_def seq_lengths_sums_def Let_def core unat_template_sizes [OF ok o] ..
  show "seq_size defs = sum_list (turns defs)"
    using core(1) by (simp add: seq_size_def seq_lengths_sums_def)
qed

lemma make_sequential:
  assumes ok: "defs_ok defs" and pos: "0 < sum_list (turns defs)" and fit: "sum_list (turns defs) < 2 ^ 32"
  obtains s where "make_sequence Sequential defs = Some s" "m_definitions s = defs"
    "m_flow_offsets s = flow_offsets 0 defs" "m_size s = fancy_inner_product defs"
    "m_packet_indexes s = map (\<lambda>i. (of_nat (owner (turns defs) i),
        of_nat (rank (turns defs) i mod template_size (def_packets (defs ! owner (turns defs) i)))))
        [0..<sum_list (turns defs)]"
    "m_length_indexes s =
       length_indexes defs (m_packet_indexes s) (replicate (length defs) 0) 0 (m_size s)"
proof -
  have ne: "map (seq_indexes defs) [0..<seq_size defs] \<noteq> []"
    by (rule map_upt_ne) (simp add: seq_indexes_rank [OF ok pos fit] pos)
  moreover have "defs \<noteq> []" using ok by (simp add: defs_ok_def)
  ultimately have "make_sequence Sequential defs =
      (let pkts = map (seq_indexes defs) [0..<seq_size defs]; size = fancy_inner_product defs
       in Some \<lparr>m_definitions = defs, m_packet_indexes = pkts,
             m_length_indexes = length_indexes defs pkts (replicate (length defs) 0) 0 size,
             m_flow_offsets = flow_offsets 0 defs, m_size = size\<rparr>)"
    by (simp only: make_sequence_def Let_def order_type.case if_False simp_thms)
  then show ?thesis
    by (intro that [of "\<lparr>m_definitions = defs, m_packet_indexes = map (seq_indexes defs) [0..<seq_size defs],
             m_length_indexes = length_indexes defs (map (seq_indexes defs) [0..<seq_size defs])
               (replicate (length defs) 0) 0 (fancy_inner_product defs),
             m_flow_offsets = flow_offsets 0 defs, m_size = fancy_inner_product defs\<rparr>"])
      (simp_all add: Let_def seq_indexes_rank [OF ok pos fit])
qed



subsection \<open>Bulk access\<close>

lemma ring_step: "c < n \<Longrightarrow> (if Suc c = n then 0 else Suc c) = Suc c mod n"
  by (simp add: mod_Suc)

lemma ring_transform_loop_eq:
  "c < length ring \<Longrightarrow>
   ring_transform_loop ring c n f = map (\<lambda>k. f (ring ! ((c + k) mod length ring))) [0..<n]"
proof (induction n arbitrary: c)
  case (Suc n)
  have "Suc c mod length ring < length ring" using Suc.prems by (intro mod_less_divisor) linarith
  from Suc.IH [OF this]
  have "ring_transform_loop ring (Suc c mod length ring) n f =
      map (\<lambda>k. f (ring ! ((c + Suc k) mod length ring))) [0..<n]"
    by (simp add: mod_add_left_eq)
  then show ?case
    using Suc.prems by (simp add: ring_step map_upt_Suc del: upt_Suc)
qed simp

lemma ring_transform_n_eq:
  assumes "c < length ring"
  shows "ring_transform_n ring c n f = map (\<lambda>k. f (ring ! ((c + k) mod length ring))) [0..<n]"
proof (cases "length ring = 1")
  case True
  then show ?thesis using assms
    by (auto simp: ring_transform_n_def map_replicate_const)
next
  case False
  then show ?thesis using ring_transform_loop_eq [OF assms] by (simp add: ring_transform_n_def)
qed

lemma ring_accumulate_n_eq:
  "c < length ring \<Longrightarrow>
   ring_accumulate_n ring c n a f = foldl f a (map (\<lambda>k. ring ! ((c + k) mod length ring)) [0..<n])"
proof (induction n arbitrary: c a)
  case (Suc n)
  have "Suc c mod length ring < length ring" using Suc.prems by (intro mod_less_divisor) linarith
  from Suc.IH [OF this, of "f a (ring ! c)"]
  have "ring_accumulate_n ring (Suc c mod length ring) n (f a (ring ! c)) f =
      foldl f (f a (ring ! c)) (map (\<lambda>k. ring ! ((c + Suc k) mod length ring)) [0..<n])"
    by (simp add: mod_add_left_eq)
  then show ?case
    using Suc.prems by (simp add: ring_step map_upt_Suc del: upt_Suc)
qed simp

text \<open>The view made of the entries the two loops of \<open>unpack\<close> write.\<close>

definition to_view ::
  "u32 \<times> (nat \<times> nat) \<times> header_lengths \<times> flags \<times> signature_config option \<Rightarrow> u16 \<Rightarrow> packet_view" where
  "to_view hdr len = (case hdr of (flow, ptr, lens, fl, sig) \<Rightarrow>
     \<lparr>flow_index = flow, header_ptr = ptr, view_lengths = lens, view_flags = fl,
      view_signature = sig, packet_length = len\<rparr>)"

lemma packet_at_to_view:
  "packet_at s i = to_view (header_fields s (m_packet_indexes s ! (i mod length (m_packet_indexes s))))
     (length_field s (m_length_indexes s ! (i mod length (m_length_indexes s))))"
  by (simp add: packet_at_def to_view_def split: prod.splits)

lemma unpack_eq:
  assumes "m_packet_indexes s \<noteq> []" "m_length_indexes s \<noteq> []"
  shows "unpack s start count = Some
    (map (\<lambda>k. header_fields s (m_packet_indexes s ! ((start + k) mod length (m_packet_indexes s))))
       [0..<unat count],
     map (\<lambda>k. length_field s (m_length_indexes s ! ((start + k) mod length (m_length_indexes s))))
       [0..<unat count], count)"
  using assms by (simp add: unpack_def ring_transform_n_eq mod_add_left_eq)

text \<open>
  C14: Reading packets in bulk writes the same packets to the output arrays as reading them one
  after the other, whatever the start and the order of the sequence.
\<close>

theorem unpack_reads_views:
  assumes "make_sequence order defs = Some s" "0 < m_size s"
  shows "\<exists>hdrs lens. unpack s start count = Some (hdrs, lens, count) \<and>
    map2 to_view hdrs lens = map (packet_at s) [start..<start + unat count] \<and>
    (\<forall>i. sequence_at s i = Some (packet_at s i))"
proof -
  note ne = make_sequence_tables [OF assms]
  have "[start..<start + unat count] = map (\<lambda>k. start + k) [0..<unat count]"
    using map_add_upt [of start "unat count"] by (simp add: add.commute)
  then show ?thesis
    using unpack_eq [OF ne, of start count] ne
    by (simp add: packet_at_to_view zip_map_map comp_def sequence_at_def zip_same_conv_map)
qed

lemma demo_seq_size: "m_size demo_seq = 6"
  using round_robin_packet(5) [OF demo_ok(1,3,4) demo_seq] 
  by (simp add: demo_defs_def sample_def_def flow_lcm_def def_lcm_def weights_def template_size_def
      container_size_def)

theorem unpack_reads_views_witness:
  "\<exists>hdrs lens. unpack demo_seq 5 2 = Some (hdrs, lens, 2) \<and>
    map2 to_view hdrs lens = map (packet_at demo_seq) [5, 6]"
  using unpack_reads_views [OF demo_seq, of 5 2] by (auto simp: demo_seq_size upt_rec)

subsection \<open>Flows and their stream identifiers\<close>

lemma upper_bound_prefix:
  assumes "n \<le> length xs" "\<And>j. j < n \<Longrightarrow> xs ! j \<le> v" "n < length xs \<Longrightarrow> v < xs ! n"
  shows "upper_bound xs v = n"
proof -
  have "takeWhile (\<lambda>x. x \<le> v) xs = take n xs"
  proof (rule takeWhile_eq_take_P_nth)
    show "xs ! i \<le> v" if "i < n" "i < length xs" for i using assms(2) that by simp
    show "\<not> xs ! n \<le> v" if "n < length xs" using assms(3) that by simp
  qed
  then show ?thesis using assms(1) by (simp add: upper_bound_def)
qed

lemma length_flow_offsets [simp]: "length (flow_offsets a defs) = length defs"
  by (induction defs arbitrary: a) simp_all

lemma flow_offsets_nth:
  "unat a + sum_list (sizes defs) < 2 ^ 32 \<Longrightarrow> t < length defs \<Longrightarrow>
   flow_offsets a defs ! t = unat a + sum_list (take t (sizes defs))"
proof (induction defs arbitrary: a t)
  case (Cons d ds)
  have "unat (a + of_nat (template_size (def_packets d))) = unat a + template_size (def_packets d)"
    using Cons.prems(1) by (simp add: sizes_def unat_word_ariths unat_of_nat)
  then show ?case using Cons.IH [of "a + of_nat (template_size (def_packets d))"] Cons.prems
    by (cases t) (simp_all add: sizes_def)
qed simp

lemma flow_definition:
  assumes "sum_list (sizes defs) < 2 ^ 32" "t < length defs" "h < template_size (def_packets (defs ! t))"
  shows "upper_bound (flow_offsets 0 defs) (flow_offsets 0 defs ! t + h) = Suc t"
proof (rule upper_bound_prefix)
  have off: "flow_offsets 0 defs ! j = sum_list (take j (sizes defs))" if "j < length defs" for j
    using flow_offsets_nth [of 0 defs j] assms(1) that by simp
  show "Suc t \<le> length (flow_offsets 0 defs)" using assms(2) by simp
  show "flow_offsets 0 defs ! j \<le> flow_offsets 0 defs ! t + h" if "j < Suc t" for j
    using that assms(2) off [of j] off [of t] sum_take_mono [of j t "sizes defs"] by simp
  show "flow_offsets 0 defs ! t + h < flow_offsets 0 defs ! Suc t"
    if "Suc t < length (flow_offsets 0 defs)"
    using that assms(2,3) off [of t] off [of "Suc t"] sum_take_Suc [of t "sizes defs"]
    by (simp add: sizes_def)
qed

text \<open>The flow index of a scheduled packet.\<close>

lemma scheduled_flow:
  assumes ok: "defs_ok defs" and fit: "sum_list (sizes defs) < 2 ^ 32" and t: "t < length defs"
  shows "unat (flow_index (scheduled defs t k)) =
    flow_offsets 0 defs ! t + k mod template_size (def_packets (defs ! t))"
proof -
  define h where "h = k mod template_size (def_packets (defs ! t))"
  have h: "h < template_size (def_packets (defs ! t))" using defs_okD(1) [OF ok t] by (simp add: h_def)
  have "flow_offsets 0 defs ! t + h < sum_list (take (Suc t) (sizes defs))"
    using flow_offsets_nth [of 0 defs t] fit t h sum_take_Suc [of t "sizes defs"] by (simp add: sizes_def)
  also have "\<dots> \<le> sum_list (sizes defs)" by (rule sum_take_le)
  finally have "unat (of_nat (flow_offsets 0 defs ! t + h) :: u32) = flow_offsets 0 defs ! t + h"
    using fit by (intro unat_of_nat32) linarith
  then show ?thesis by (simp add: scheduled_def Let_def h_def [symmetric] del: of_nat_add)
qed

lemma scheduled_stream_id:
  assumes ok: "defs_ok defs" and fit: "sum_list (sizes defs) < 2 ^ 32" and t: "t < length defs"
    and s: "m_definitions s = defs" "m_flow_offsets s = flow_offsets 0 defs"
  shows "get_signature_stream_id s (flow_index (scheduled defs t k)) =
    map_option stream_id (view_signature (scheduled defs t k))"
proof -
  define h where "h = k mod template_size (def_packets (defs ! t))"
  have h: "h < template_size (def_packets (defs ! t))" using defs_okD(1) [OF ok t] by (simp add: h_def)
  have f: "unat (flow_index (scheduled defs t k)) = flow_offsets 0 defs ! t + h"
    using scheduled_flow [OF ok fit t] by (simp add: h_def)
  have "get_signature_stream_id s (flow_index (scheduled defs t k)) =
      map_option (\<lambda>c. to_stream_id (ucast (stream_id c)) (of_nat h)) (def_signature (defs ! t))"
    by (simp add: get_signature_stream_id_def f s flow_definition [OF fit t h])
  also have "\<dots> = map_option stream_id (view_signature (scheduled defs t k))"
    by (simp add: scheduled_def Let_def h_def maybe_update_signature_config_def option.map_comp comp_def)
  finally show ?thesis .
qed

text \<open>Two flows of a sequence differ in their index.\<close>

lemma scheduled_flow_inj:
  assumes ok: "defs_ok defs" and fit: "sum_list (sizes defs) < 2 ^ 32" and t: "t < length defs" "t' < length defs"
  shows "flow_index (scheduled defs t k) = flow_index (scheduled defs t' k') \<longleftrightarrow>
    t = t' \<and> k mod template_size (def_packets (defs ! t)) = k' mod template_size (def_packets (defs ! t))"
proof
  assume eq: "flow_index (scheduled defs t k) = flow_index (scheduled defs t' k')"
  define h where "h = k mod template_size (def_packets (defs ! t))"
  define h' where "h' = k' mod template_size (def_packets (defs ! t'))"
  have h: "h < template_size (def_packets (defs ! t))" "h' < template_size (def_packets (defs ! t'))"
    using defs_okD(1) [OF ok] t by (simp_all add: h_def h'_def)
  have "flow_offsets 0 defs ! t + h = flow_offsets 0 defs ! t' + h'"
    using eq scheduled_flow [OF ok fit] t by (metis h_def h'_def)
  moreover from this have "Suc t = Suc t'"
    using flow_definition [OF fit t(1) h(1)] flow_definition [OF fit t(2) h(2)] by simp
  ultimately show "t = t' \<and> k mod template_size (def_packets (defs ! t)) =
      k' mod template_size (def_packets (defs ! t))"
    by (simp add: h_def h'_def)
next
  assume eq: "t = t' \<and> k mod template_size (def_packets (defs ! t)) =
    k' mod template_size (def_packets (defs ! t))"
  then have "t = t'" "k mod template_size (def_packets (defs ! t')) = k' mod template_size (def_packets (defs ! t'))"
    by auto
  then show "flow_index (scheduled defs t k) = flow_index (scheduled defs t' k')"
    by (simp add: scheduled_def Let_def)
qed



subsection \<open>Counts and sums\<close>

text \<open>The packets of one flow are those of its definition with a rank of one residue.\<close>

lemma count_residue:
  "length (filter (\<lambda>i. owner ws i = t \<and> rank ws i mod m = h) [0..<n]) =
   length (filter (\<lambda>k. k mod m = h) [0..<occurrences ws t n])"
proof (induction n)
  case (Suc n)
  have "occurrences ws t (Suc n) = occurrences ws t n + (if owner ws n = t then 1 else 0)"
    by (simp add: occurrences_def)
  then show ?case using Suc by (simp add: rank_def)
qed (simp add: occurrences_def)

lemma count_mod_block: "h < m \<Longrightarrow> length (filter (\<lambda>k. k mod m = h) [0..<c * m]) = (c :: nat)"
proof (induction c)
  case (Suc c)
  have "[0..<Suc c * m] = [0..<c * m] @ map (\<lambda>k. c * m + k) [0..<m]"
    using upt_add_eq_append [of 0 "c * m" m] map_add_upt [of "c * m" m] by (simp add: add.commute)
  moreover have "filter (\<lambda>k. (c * m + k) mod m = h) [0..<m] = [h]"
  proof -
    have "filter (\<lambda>k. (c * m + k) mod m = h) [0..<m] = filter (\<lambda>k. k = h) [0..<m]"
      by (rule filter_cong) simp_all
    also have "\<dots> = [h]" using Suc.prems
    proof -
      obtain e where "m = h + Suc e" using Suc.prems less_imp_Suc_add by fastforce
      then have "[0..<m] = [0..<h] @ h # [Suc h..<m]"
        using upt_add_eq_append [of 0 h "Suc e"] by (simp add: upt_conv_Cons del: upt_Suc)
      then show ?thesis by (simp add: filter_empty_conv)
    qed
    finally show ?thesis .
  qed
  ultimately show ?case using Suc by (simp add: filter_map comp_def)
qed simp

text \<open>
  C29: In the packets of one round robin sequence every flow of a definition appears equally often:
  as many times as the definition has packets per header.
\<close>

theorem flow_packets_even:
  assumes "defs_ok defs" "0 < sum_list (weights defs)" "sum_list (weights defs) < 2 ^ 32"
    "sum_list (sizes defs) < 2 ^ 32" "make_sequence Round_Robin defs = Some s"
    "t < length defs" "h < template_size (def_packets (defs ! t))"
  shows "flow_packets s (of_nat (m_flow_offsets s ! t + h)) =
    unat (def_weight (defs ! t)) * (flow_lcm defs div template_size (def_packets (defs ! t)))"
proof -
  let ?ws = "weights defs" and ?n = "template_size (def_packets (defs ! t))"
  note rr = round_robin_packet [OF assms(1-3,5)]
  have target: "of_nat (m_flow_offsets s ! t + h) = flow_index (scheduled defs t h)"
    using assms(7) by (simp add: scheduled_def Let_def rr(4))
  have dv: "?n dvd flow_lcm defs"
    using def_lcm_dvd_flow_lcm [OF assms(6)] by (rule dvd_trans [rotated]) (simp add: def_lcm_def)
  then obtain c where c: "flow_lcm defs = ?n * c" by (rule dvdE)
  have "flow_packets s (of_nat (m_flow_offsets s ! t + h)) =
      length (filter (\<lambda>i. owner ?ws i = t \<and> rank ?ws i mod ?n = h) [0..<m_size s])"
    unfolding flow_packets_def views_def target filter_map length_map comp_def rr(1)
    using scheduled_flow_inj [OF assms(1,4) rr(2) assms(6)] assms(7)
    by (intro arg_cong [where f = length] filter_cong) auto
  also have "\<dots> = length (filter (\<lambda>k. k mod ?n = h) [0..<occurrences ?ws t (m_size s)])"
    by (rule count_residue)
  also have "occurrences ?ws t (m_size s) = (weights defs ! t * c) * ?n"
    using occurrences_closed [OF assms(2), of t "m_size s"] assms(2,6)
    by (simp add: rr(5) weights_def c)
  also have "length (filter (\<lambda>k. k mod ?n = h) [0..<(weights defs ! t * c) * ?n]) = weights defs ! t * c"
    by (rule count_mod_block [OF assms(7)])
  finally show ?thesis using defs_okD(1) [OF assms(1,6)] assms(6) by (simp add: c weights_def)
qed

theorem flow_packets_even_witness: "flow_packets demo_seq 1 = 2"
proof -
  have "m_flow_offsets demo_seq ! 0 = 0"
    by (simp add: round_robin_packet(4) [OF demo_ok(1,3,4) demo_seq] demo_defs_def)
  then show ?thesis
    using flow_packets_even [OF demo_ok(1,3,4,5) demo_seq, of 0 1]
    by (simp add: demo_defs_def sample_def_def flow_lcm_def def_lcm_def template_size_def container_size_def)
qed

text \<open>The sum of the lengths of the first \<open>n\<close> packets, and of those of one flow.\<close>

definition octets_sent :: "traffic_sequence \<Rightarrow> nat \<Rightarrow> nat" where
  "octets_sent s n = sum_list (map (\<lambda>i. unat (packet_length (packet_at s i))) [0..<n])"

definition flow_octets_sent :: "traffic_sequence \<Rightarrow> u32 \<Rightarrow> nat \<Rightarrow> nat" where
  "flow_octets_sent s flow n =
     sum_list (map (\<lambda>i. if flow_index (packet_at s i) = flow then unat (packet_length (packet_at s i)) else 0)
       [0..<n])"

lemma filter_accumulate_eq:
  "filter_accumulate flow vs =
     sum_list (map (\<lambda>v. if flow_index v = flow then unat (packet_length v) else 0) vs)"
proof -
  have "foldl (\<lambda>acc v. if flow_index v = flow then acc + unat (packet_length v) else acc) a vs =
      a + sum_list (map (\<lambda>v. if flow_index v = flow then unat (packet_length v) else 0) vs)" for a
    by (induction vs arbitrary: a) simp_all
  then show ?thesis by (simp add: filter_accumulate_def)
qed

lemma filter_accumulate_views: "filter_accumulate flow (views s n) = flow_octets_sent s flow n"
  by (simp add: filter_accumulate_eq views_def flow_octets_sent_def comp_def)

text \<open>Sums of a periodic function.\<close>

lemma sum_periodic:
  fixes f :: "nat \<Rightarrow> nat"
  assumes "\<And>i. f (i + p) = f i"
  shows "sum_list (map f [0..<q * p + r]) = q * sum_list (map f [0..<p]) + sum_list (map f [0..<r])"
proof (induction q)
  case (Suc q)
  have "[0..<Suc q * p + r] = [0..<p] @ map (\<lambda>k. k + p) [0..<q * p + r]"
    using upt_add_eq_append [of 0 p "q * p + r"] map_add_upt [of p "q * p + r"] by (simp add: ac_simps)
  then have "sum_list (map f [0..<Suc q * p + r]) =
      sum_list (map f [0..<p]) + sum_list (map (\<lambda>k. f (k + p)) [0..<q * p + r])"
    by (simp only: map_append sum_list_append map_map comp_def)
  then show ?case by (simp add: assms Suc)
qed simp

lemma packet_at_periodic:
  assumes "length (m_length_indexes s) = length (m_packet_indexes s)"
  shows "packet_at s (i + length (m_packet_indexes s)) = packet_at s i"
  by (simp add: packet_at_to_view assms)

text \<open>With as many length indexes as packet indexes the sums over a flow are exact.\<close>

lemma sum_flow_exact:
  assumes "m_packet_indexes s \<noteq> []" "length (m_length_indexes s) = length (m_packet_indexes s)"
    "m_size s = length (m_packet_indexes s)"
  shows "sum_flow_packet_lengths s flow n = Some (flow_octets_sent s flow n)"
proof -
  let ?P = "length (m_packet_indexes s)"
  have ne: "m_length_indexes s \<noteq> []" using assms(1,2) by auto
  have n: "n = (n div ?P) * ?P + n mod ?P" by simp
  have "flow_octets_sent s flow n = (n div ?P) * flow_octets_sent s flow ?P + flow_octets_sent s flow (n mod ?P)"
    unfolding flow_octets_sent_def
    by (subst n, rule sum_periodic) (simp add: packet_at_periodic [OF assms(2)])
  then show ?thesis using assms(1,3) ne
    by (simp add: sum_flow_packet_lengths_def Let_def filter_accumulate_views sum_flow_packet_lengths_all_def)
qed

definition template_length :: "traffic_sequence \<Rightarrow> index_pair \<Rightarrow> nat" where
  "template_length s key =
     (let ls = def_lengths (m_definitions s ! unat (fst key)) in unat (ls ! (unat (snd key) mod length ls)))"

lemma foldl_template_length:
  "foldl (add_template_length s) a keys = a + sum_list (map (template_length s) keys)"
  by (induction keys arbitrary: a) (simp_all add: add_template_length_def template_length_def Let_def)

lemma sum_packet_lengths_eq:
  assumes ne: "m_packet_indexes s \<noteq> []" and sz: "m_size s = length (m_packet_indexes s)"
    and len: "length (m_length_indexes s) = length (m_packet_indexes s)"
    and key: "\<And>i. template_length s (m_packet_indexes s ! (i mod length (m_packet_indexes s))) =
      unat (packet_length (packet_at s i))"
  shows "sum_packet_lengths s n = Some (octets_sent s n)"
proof -
  let ?P = "length (m_packet_indexes s)"
  have part: "foldl (add_template_length s) 0 (take r (m_packet_indexes s)) = octets_sent s r" if "r < ?P" for r
  proof -
    have "take r (m_packet_indexes s) = map (\<lambda>i. m_packet_indexes s ! (i mod ?P)) [0..<r]"
      using that by (intro nth_equalityI) simp_all
    then show ?thesis by (simp add: foldl_template_length comp_def key octets_sent_def)
  qed
  have all: "sum_packet_lengths_all s = octets_sent s ?P"
    using ne by (simp add: sum_packet_lengths_all_def ring_accumulate_n_eq foldl_template_length comp_def
        key octets_sent_def sz)
  have n: "n = (n div ?P) * ?P + n mod ?P" by simp
  have "octets_sent s n = (n div ?P) * octets_sent s ?P + octets_sent s (n mod ?P)"
    unfolding octets_sent_def by (subst n, rule sum_periodic) (simp add: packet_at_periodic [OF len])
  then show ?thesis using ne part [of "n mod ?P"] by (simp add: sum_packet_lengths_def Let_def all)
qed

lemma lengths_divide_lcm:
  assumes "defs_ok defs" "lengths_divide defs"
  shows "flow_lcm defs = lcm_sizes (template_sizes defs)"
proof -
  have "foldl (\<lambda>l r. lcm l (unat r)) a (template_sizes ds) = foldl (\<lambda>l d. lcm l (def_lcm d)) a ds"
    if "set ds \<subseteq> set defs" for a :: nat and ds
    using that
  proof (induction ds arbitrary: a)
    case (Cons d ds)
    then have d: "d \<in> set defs" by simp
    then have "unat (of_nat (template_size (def_packets d)) :: u32) = template_size (def_packets d)"
      using assms(1) by (intro unat_of_nat32) (auto simp: defs_ok_def)
    moreover have "def_lcm d = template_size (def_packets d)"
      using d assms(2) by (simp add: def_lcm_def lengths_divide_def lcm_proj1_iff_nat)
    ultimately show ?case using Cons by (simp add: template_sizes_def)
  qed (simp add: template_sizes_def)
  then show ?thesis by (simp add: flow_lcm_def lcm_sizes_def)
qed



lemma foldl_max_ge: "y \<le> foldl max y ys \<and> (\<forall>x \<in> set ys. x \<le> foldl max (y :: u16) ys)"
proof (induction ys arbitrary: y)
  case (Cons a ys)
  then have "max y a \<le> foldl max (max y a) ys" by blast
  then have "y \<le> foldl max (max y a) ys" "a \<le> foldl max (max y a) ys" by simp_all
  then show ?case using Cons by simp
qed simp

lemma template_max_length_ge:
  "x \<in> set ls \<Longrightarrow> \<exists>m. template_max_length ls = Some m \<and> x \<le> m"
  using foldl_max_ge by (cases ls) (auto simp: template_max_length_def)

lemma max_step_None: "foldl max_step None ds = None"
  by (induction ds) (simp_all add: max_step_def)

lemma max_step_ge:
  "foldl max_step (Some a) ds = Some b \<Longrightarrow>
   a \<le> b \<and> (\<forall>d \<in> set ds. \<forall>m. template_max_length (def_lengths d) = Some m \<longrightarrow> m \<le> b)"
proof (induction ds arbitrary: a)
  case (Cons d ds)
  show ?case
  proof (cases "template_max_length (def_lengths d)")
    case None
    then have "max_step (Some a) d = None" by (simp add: max_step_def)
    then show ?thesis using Cons.prems by (simp add: max_step_None)
  next
    case (Some m)
    then have "max_step (Some a) d = Some (max a m)" by (simp add: max_step_def)
    then show ?thesis using Cons.IH [of "max a m"] Cons.prems Some by simp
  qed
qed simp

lemma max_step_Some:
  "\<forall>d \<in> set ds. def_lengths d \<noteq> [] \<Longrightarrow> \<exists>b. foldl max_step (Some a) ds = Some b"
  by (induction ds arbitrary: a) (simp_all add: template_max_length_def max_step_def)

text \<open>
  No packet of a round robin sequence is longer than the maximum the sequence reports.
\<close>

theorem packet_length_bounded:
  assumes "defs_ok defs" "0 < sum_list (weights defs)" "sum_list (weights defs) < 2 ^ 32"
    "make_sequence Round_Robin defs = Some s"
  shows "\<exists>m. sequence_max_length s = Some m \<and> (\<forall>i. packet_length (packet_at s i) \<le> m)"
proof -
  note rr = round_robin_packet [OF assms]
  have "\<forall>d \<in> set defs. def_lengths d \<noteq> []" using assms(1) by (simp add: defs_ok_def)
  from max_step_Some [OF this, of 0] obtain m where m: "sequence_max_length s = Some m"
    by (auto simp: sequence_max_length_def rr(3))
  have "packet_length (packet_at s i) \<le> m" for i
  proof -
    let ?t = "owner (weights defs) i"
    let ?ls = "def_lengths (defs ! ?t)"
    have "packet_length (packet_at s i) \<in> set ?ls"
      using defs_okD(3) [OF assms(1) rr(2)] by (simp add: rr(1) scheduled_def Let_def)
    then obtain l where l: "template_max_length ?ls = Some l" "packet_length (packet_at s i) \<le> l"
      using template_max_length_ge by blast
    moreover have "l \<le> m"
      using max_step_ge [of 0 defs m] m l(1) nth_mem [OF rr(2)] unfolding sequence_max_length_def rr(3) by blast
    ultimately show ?thesis by simp
  qed
  then show ?thesis using m by blast
qed

theorem packet_length_bounded_witness:
  "\<exists>m. sequence_max_length demo_seq = Some m \<and> packet_length (packet_at demo_seq 100) \<le> m"
  using packet_length_bounded [OF demo_ok(1,3,4) demo_seq] by blast

subsection \<open>Where the two orders and the sums disagree\<close>

lemma mixed_sequence:
  "make_sequence Sequential [sample_def 1 [64, 128] 1 None, sample_def 1 [1500] 1 None] =
   Some \<lparr>m_definitions = [sample_def 1 [64, 128] 1 None, sample_def 1 [1500] 1 None],
     m_packet_indexes = [(0, 0), (1, 0)], m_length_indexes = [(0, 0), (1, 0), (0, 1)],
     m_flow_offsets = [0, 1], m_size = 3\<rparr>"
  by code_simp

lemma short_sequence:
  "make_sequence Round_Robin [sample_def 1 [64, 1500] 1 None] =
   Some \<lparr>m_definitions = [sample_def 1 [64, 1500] 1 None], m_packet_indexes = [(0, 0)],
     m_length_indexes = [(0, 0), (0, 1)], m_flow_offsets = [0], m_size = 2\<rparr>"
  by code_simp

lemma upt_two: "[0..<2] = [0, Suc 0]"
  by (simp add: numeral_2_eq_2)

lemmas view_code = upt_two numeral_2_eq_2 [symmetric] sequence_at_def packet_at_def header_fields_def length_field_def sample_def_def Let_def


text \<open>
  With more lengths than headers the sum of the packet lengths is wrong: two packets of 64 and
  1500 octets are reported as 256 octets.
\<close>

theorem length_sum_wrong:
  "\<exists>s. make_sequence Round_Robin [sample_def 1 [64, 1500] 1 None] = Some s \<and>
     octets_sent s 2 = 1564 \<and> sum_packet_lengths s 2 = Some 256"
  unfolding short_sequence
  by (simp add: octets_sent_def sum_packet_lengths_def sum_packet_lengths_all_def
      ring_accumulate_n_eq add_template_length_def view_code)

text \<open>
  Asking for payload fills reads the signature of every definition up to the first fill, also
  of those that have none.
\<close>

theorem payload_fill_reads_empty:
  "make_sequence order defs = Some s \<Longrightarrow> defs = pre @ d # post \<Longrightarrow> def_signature d = None \<Longrightarrow>
   (\<And>e c. e \<in> set pre \<Longrightarrow> def_signature e = Some c \<Longrightarrow> sig_fill c = No_Fill) \<Longrightarrow>
   has_signature_payload_fill s = None"
proof -
  assume s: "make_sequence order defs = Some s" and d: "defs = pre @ d # post" "def_signature d = None"
    and p: "\<And>e c. e \<in> set pre \<Longrightarrow> def_signature e = Some c \<Longrightarrow> sig_fill c = No_Fill"
  have "m_definitions s = defs" using s by (auto simp: make_sequence_def Let_def split: if_splits)
  moreover have "any_payload_fill (map def_signature (pre @ d # post)) = None" using p
  proof (induction pre)
    case (Cons e pre)
    then show ?case by (cases "def_signature e") auto
  qed (simp add: d(2))
  ultimately show ?thesis by (simp add: has_signature_payload_fill_def d(1))
qed

theorem payload_fill_reads_empty_witness:
  "\<exists>s. make_sequence Round_Robin (rev demo_defs) = Some s \<and> has_signature_config s \<and>
     has_signature_payload_fill s = None"
proof -
  have "defs_ok (rev demo_defs)" "0 < sum_list (weights (rev demo_defs))"
    "sum_list (weights (rev demo_defs)) < 2 ^ 32"
    using demo_ok(1,3,4) by (simp_all add: defs_ok_def weights_def rev_map [symmetric])
  then obtain s where s: "make_sequence Round_Robin (rev demo_defs) = Some s" "m_definitions s = rev demo_defs"
    by (rule make_round_robin)
  have "has_signature_payload_fill s = None"
    by (rule payload_fill_reads_empty [OF s(1), of "[]" "demo_defs ! 1" "[demo_defs ! 0]"])
      (simp_all add: demo_defs_def sample_def_def)
  then show ?thesis using s by (simp add: has_signature_config_def demo_defs_def sample_def_def)
qed

end
