(* ===== verification/Protocol_Fields.thy ===== *)
theory Protocol_Fields
  imports Endian
begin

text \<open>
  What the protocol headers of \<open>src/lib/packet/protocol\<close> share: bit fields inside an endian field,
  addresses and their assignment, the types of fields, and the values a modifier of the traffic
  generator assigns (\<open>modifier::value\<close>) with the conversions the assignment by name allows.
\<close>

unbundle bit_operations_syntax

subsection \<open>Definitions\<close>

text \<open>The bits under the mask are those of the first operand, the others those of the second.\<close>

definition put_bits :: "'a::len word \<Rightarrow> 'a word \<Rightarrow> 'a word \<Rightarrow> 'a word" where
  "put_bits m new old = (new AND m) OR (old AND NOT m)"

text \<open>Copy assignment of the address classes.\<close>

definition mac_assign :: "endian_field \<Rightarrow> endian_field" where
  "mac_assign rhs = field_store 6 (field_load rhs :: u64)"

definition ipv4_assign :: "endian_field \<Rightarrow> endian_field" where
  "ipv4_assign rhs = field_store 4 (field_load rhs :: u32)"

definition ipv6_assign :: "endian_field \<Rightarrow> endian_field" where
  "ipv6_assign rhs = field_store 16 (field_load rhs :: 128 word)"

datatype field_type = Type_u8 | Type_u16 | Type_u32 | Type_mac | Type_ipv4 | Type_ipv6 | Type_null

datatype modifier_value =
    Value_u32 u32
  | Value_ipv4 endian_field
  | Value_ipv6 endian_field
  | Value_mac endian_field

text \<open>
  The implicit conversions of \<open>std::is_convertible_v\<close>: the address classes are constructible from
  an integer and have no conversion to one, or to each other.
\<close>

fun to_integer :: "modifier_value \<Rightarrow> u32 option" where
  "to_integer (Value_u32 v) = Some v"
| "to_integer _ = None"

definition mac_of_integer :: "u64 \<Rightarrow> endian_field" where
  "mac_of_integer addr = field_store 6 addr"

definition ipv4_of_integer :: "u32 \<Rightarrow> endian_field" where
  "ipv4_of_integer addr = field_store 4 addr"

definition ipv6_of_integer :: "u64 \<Rightarrow> endian_field" where
  "ipv6_of_integer value =
     \<lparr>octets = concat (map (\<lambda>x :: u64. le_store (sizeof x) (bswap x)) [0, value])\<rparr>"

fun to_mac :: "modifier_value \<Rightarrow> endian_field option" where
  "to_mac (Value_u32 v) = Some (mac_of_integer (ucast v))"
| "to_mac (Value_mac a) = Some a"
| "to_mac _ = None"

fun to_ipv4 :: "modifier_value \<Rightarrow> endian_field option" where
  "to_ipv4 (Value_u32 v) = Some (ipv4_of_integer v)"
| "to_ipv4 (Value_ipv4 a) = Some a"
| "to_ipv4 _ = None"

fun to_ipv6 :: "modifier_value \<Rightarrow> endian_field option" where
  "to_ipv6 (Value_u32 v) = Some (ipv6_of_integer (ucast v))"
| "to_ipv6 (Value_ipv6 a) = Some a"
| "to_ipv6 _ = None"

text \<open>When a value can be assigned to a field of a type.\<close>

fun convertible :: "modifier_value \<Rightarrow> field_type \<Rightarrow> bool" where
  "convertible v Type_mac = (to_mac v \<noteq> None)"
| "convertible v Type_ipv4 = (to_ipv4 v \<noteq> None)"
| "convertible v Type_ipv6 = (to_ipv6 v \<noteq> None)"
| "convertible v Type_null = False"
| "convertible v _ = (to_integer v \<noteq> None)"

datatype header_value = Integer u32 | Address endian_field

named_theorems header_defs \<open>getters and setters of the protocol headers\<close>

subsection \<open>Bit fields\<close>

lemma and_low:
  "w AND 0x1 = take_bit 1 w" "w AND 0x3 = take_bit 2 w" "w AND 0x7 = take_bit 3 w"
  "w AND 0xf = take_bit 4 w" "w AND 0x3f = take_bit 6 w" "w AND 0xff = take_bit 8 w"
  "w AND 0x1ff = take_bit 9 w" "w AND 0xfff = take_bit 12 w" "w AND 0x1fff = take_bit 13 w"
  "w AND 0xfffff = take_bit 20 w"
  for w :: "'a::len word"
  by (simp_all add: take_bit_eq_mask mask_eq_exp_minus_1)

text \<open>Storing and loading a field at the type of its value.\<close>

lemma load_store:
  "field_load (field_store 1 (v :: u8)) = v"
  "field_load (field_store 2 (w :: u16)) = w"
  "field_load (field_store 3 (x :: u32)) = take_bit 24 x"
  "field_load (field_store 4 (x :: u32)) = x"
  by (simp_all add: field_load_store take_bit_word_eq_self)

lemma number_load_assign:
  "field_wf 1 f \<Longrightarrow> number_load (number_assign f (v :: u8)) = v"
  "field_wf 2 f \<Longrightarrow> number_load (number_assign f (w :: u16)) = w"
  "field_wf 4 f \<Longrightarrow> number_load (number_assign f (x :: u32)) = x"
  by (simp_all add: number_load_def number_assign_def field_wf_def load_store del: One_nat_def)

lemma wf_assign [simp]:
  "field_wf 6 (mac_assign a)" "field_wf 4 (ipv4_assign a)" "field_wf 16 (ipv6_assign a)"
  by (simp_all add: mac_assign_def ipv4_assign_def ipv6_assign_def)

lemma store_load_wf:
  assumes "field_wf n a" "8 dvd LENGTH('a)" "n \<le> LENGTH('a) div 8"
  shows "field_store n (field_load a :: 'a::len word) = a"
  using field_store_load [of a, where 'a = 'a] assms by (simp add: field_wf_def)

lemma assign_id:
  "field_wf 6 a \<Longrightarrow> mac_assign a = a" "field_wf 4 a \<Longrightarrow> ipv4_assign a = a"
  "field_wf 16 a \<Longrightarrow> ipv6_assign a = a"
  by (simp_all add: mac_assign_def ipv4_assign_def ipv6_assign_def store_load_wf)

lemma wf_of_integer [simp]:
  "field_wf 6 (mac_of_integer v)" "field_wf 4 (ipv4_of_integer w)" "field_wf 16 (ipv6_of_integer v)"
  by (simp_all add: mac_of_integer_def ipv4_of_integer_def) (simp add: ipv6_of_integer_def field_wf_def)

lemma wf_number_assign [simp]:
  "field_wf n f \<Longrightarrow> 8 dvd LENGTH('a) \<Longrightarrow> n \<le> LENGTH('a) div 8 \<Longrightarrow>
   field_wf n (number_assign f (v :: 'a::len word))"
  by (simp add: number_assign_def field_wf_def octets_field_store)

lemmas load_store_simps = load_store load_store(1) [simplified] number_load_assign
  number_load_assign(1) [simplified]

text \<open>Reading a bit field: the part that was written, or a part that was kept.\<close>

lemma put_bits_read: "put_bits m a b AND m = a AND m"
  by (rule bit_word_eqI) (auto simp: put_bits_def bit_simps)

lemma put_bits_kept: "m AND m' = 0 \<Longrightarrow> put_bits m a b AND m' = b AND m'"
proof (rule bit_word_eqI)
  fix i assume m: "m AND m' = 0" and i: "i < LENGTH('a)"
  have "bit (m AND m') i = False" by (simp add: m)
  then show "bit (put_bits m a b AND m') i = bit (b AND m') i"
    using i by (auto simp: put_bits_def bit_simps)
qed

lemma drop_push_and: "drop_bit s (push_bit s v AND m) = v AND drop_bit s (m :: 'a::len word)"
  by (rule bit_word_eqI) (auto simp: bit_simps dest: bit_imp_le_length)

lemma unit_shift:
  "w div 4 = drop_bit 2 w" "w div 8 = drop_bit 3 w" "w * 4 = push_bit 2 w" "w * 8 = push_bit 3 w"
  for w :: "'a::len word"
  by (simp_all add: drop_bit_eq_div push_bit_eq_mult)

lemmas read_back = load_store_simps assign_id put_bits_read drop_push_and unit_shift

text \<open>Writing a bit field twice, and writing two bit fields.\<close>

lemma put_bits_again [simp]: "put_bits m a (put_bits m b w) = put_bits m a w"
  by (rule bit_word_eqI) (auto simp: put_bits_def bit_simps)

lemma put_bits_commute:
  "m AND m' = 0 \<Longrightarrow> put_bits m a (put_bits m' b w) = put_bits m' b (put_bits m a w)"
proof (rule bit_word_eqI)
  fix i assume m: "m AND m' = 0" and i: "i < LENGTH('a)"
  have "bit (m AND m') i = False" by (simp add: m)
  then show "bit (put_bits m a (put_bits m' b w)) i = bit (put_bits m' b (put_bits m a w)) i"
    using i by (auto simp: put_bits_def bit_simps)
qed

lemma put_bits_take:
  "field_store 3 (put_bits m a (take_bit 24 w) :: u32) = field_store 3 (put_bits m a w)"
proof -
  have t: "take_bit 24 (put_bits m a (take_bit 24 w)) = take_bit 24 (put_bits m a w)"
    by (rule bit_word_eqI) (auto simp: put_bits_def bit_simps)
  have "field_store 3 (x :: u32) = field_store 3 (take_bit 24 x)" for x
    using store_load_wf [of 3 "field_store 3 x", where 'a = 32] by (simp add: load_store)
  then show ?thesis by (metis t)
qed

lemma number_assign_again:
  "field_wf n f \<Longrightarrow> 8 dvd LENGTH('a) \<Longrightarrow> n \<le> LENGTH('a) div 8 \<Longrightarrow>
   number_assign (number_assign f (v :: 'a::len word)) (w :: 'a word) = number_assign f w"
  using wf_number_assign [of n f v] by (simp add: number_assign_def field_wf_def)

lemmas write_again = number_assign_again [of 1] number_assign_again [of 1, simplified]
  number_assign_again [of 2] number_assign_again [of 4] put_bits_take

lemma take_drop_chain: "m = n + k \<Longrightarrow> take n (drop k bs) @ drop m bs = drop k bs"
  by (metis append_take_drop_id drop_drop)

text \<open>The masks of the MPLS fields.\<close>

lemma mpls_masks: "(0xfffff0 :: u32) = push_bit 4 (mask 20)" "(0xe :: u32) = push_bit 1 (mask 3)"
  by (simp_all add: mask_eq_exp_minus_1)

lemma and_one_bit: "w AND 1 \<noteq> 0 \<longleftrightarrow> bit (w :: 'a::len word) 0"
  by (simp add: and_one_eq bit_0 odd_iff_mod_2_eq_one)

end
