(* ===== verification/Protocol_L2.thy ===== *)
theory Protocol_L2
  imports Protocol_Fields
begin

text \<open>
  The link layer headers of \<open>src/lib/packet/protocol\<close>: Ethernet, VLAN and MPLS.
  Each header has its members, its getters and setters, the names and types of its fields, the
  assignment of a field by name, and its layout in memory.
\<close>

unbundle bit_operations_syntax

subsection \<open>The Ethernet header\<close>

record ethernet_header =
  ethernet_destination :: endian_field
  ethernet_source :: endian_field
  ethernet_ether_type :: endian_field

definition ethernet_protocol_length :: nat where "ethernet_protocol_length = 14"
definition ethernet_field_count :: nat where "ethernet_field_count = 3"

datatype ethernet_field =
    Ethernet_none | Ethernet_destination | Ethernet_source | Ethernet_ether_type

definition get_ethernet_destination :: "ethernet_header \<Rightarrow> endian_field" where
  "get_ethernet_destination header = ethernet_destination header"
definition set_ethernet_destination :: "ethernet_header \<Rightarrow> endian_field \<Rightarrow> ethernet_header" where
  "set_ethernet_destination header value =
     header\<lparr>ethernet_destination :=
       mac_assign value\<rparr>"

definition get_ethernet_source :: "ethernet_header \<Rightarrow> endian_field" where
  "get_ethernet_source header = ethernet_source header"
definition set_ethernet_source :: "ethernet_header \<Rightarrow> endian_field \<Rightarrow> ethernet_header" where
  "set_ethernet_source header value =
     header\<lparr>ethernet_source :=
       mac_assign value\<rparr>"

definition get_ethernet_ether_type :: "ethernet_header \<Rightarrow> u16" where
  "get_ethernet_ether_type header = field_load (ethernet_ether_type header)"
definition set_ethernet_ether_type :: "ethernet_header \<Rightarrow> u16 \<Rightarrow> ethernet_header" where
  "set_ethernet_ether_type header value =
     header\<lparr>ethernet_ether_type :=
       field_store 2 value\<rparr>"

definition ethernet_get_field_name :: "string \<Rightarrow> ethernet_field" where
  "ethernet_get_field_name name =
     (case map_of
        [(''destination'', Ethernet_destination),
         (''source'', Ethernet_source),
         (''ether_type'', Ethernet_ether_type)] name of
        Some field \<Rightarrow> field
      | None \<Rightarrow> Ethernet_none)"

fun ethernet_get_field_type :: "ethernet_field \<Rightarrow> field_type" where
  "ethernet_get_field_type Ethernet_destination = Type_mac"
|   "ethernet_get_field_type Ethernet_source = Type_mac"
|   "ethernet_get_field_type Ethernet_ether_type = Type_u16"
| "ethernet_get_field_type Ethernet_none = Type_null"

fun ethernet_set_field :: "ethernet_header \<Rightarrow> ethernet_field \<Rightarrow> modifier_value \<Rightarrow> ethernet_header" where
  "ethernet_set_field header Ethernet_destination value =
     (case to_mac value of Some v \<Rightarrow> set_ethernet_destination header v | None \<Rightarrow> header)"
| "ethernet_set_field header Ethernet_source value =
     (case to_mac value of Some v \<Rightarrow> set_ethernet_source header v | None \<Rightarrow> header)"
| "ethernet_set_field header Ethernet_ether_type value =
     (case to_integer value of Some v \<Rightarrow> set_ethernet_ether_type header (ucast v) | None \<Rightarrow> header)"
| "ethernet_set_field header Ethernet_none value = header"

lemmas ethernet_access [header_defs] =
  get_ethernet_destination_def set_ethernet_destination_def
  get_ethernet_source_def set_ethernet_source_def
  get_ethernet_ether_type_def set_ethernet_ether_type_def

text \<open>The layout in memory: the members in order, without padding.\<close>

definition ethernet_bytes :: "ethernet_header \<Rightarrow> u8 list" where
  "ethernet_bytes header = octets (ethernet_destination header) @ octets (ethernet_source header) @ octets (ethernet_ether_type header)"

definition ethernet_of_bytes :: "u8 list \<Rightarrow> ethernet_header" where
  "ethernet_of_bytes bs =
     \<lparr>ethernet_destination = \<lparr>octets = take 6 bs\<rparr>,
      ethernet_source = \<lparr>octets = take 6 (drop 6 bs)\<rparr>,
      ethernet_ether_type = \<lparr>octets = take 2 (drop 12 bs)\<rparr>\<rparr>"

definition ethernet_wf :: "ethernet_header \<Rightarrow> bool" where
  "ethernet_wf header \<longleftrightarrow> field_wf 6 (ethernet_destination header) \<and>
     field_wf 6 (ethernet_source header) \<and>
     field_wf 2 (ethernet_ether_type header)"

text \<open>The value of a field, as its getter returns it.\<close>

fun ethernet_get_field :: "ethernet_field \<Rightarrow> ethernet_header \<Rightarrow> header_value" where
  "ethernet_get_field Ethernet_destination header = Address (get_ethernet_destination header)"
| "ethernet_get_field Ethernet_source header = Address (get_ethernet_source header)"
| "ethernet_get_field Ethernet_ether_type header = Integer (ucast (get_ethernet_ether_type header))"
| "ethernet_get_field Ethernet_none header = Integer 0"

text \<open>What a field holds after an integer is assigned to it.\<close>

fun ethernet_stored :: "ethernet_field \<Rightarrow> u32 \<Rightarrow> header_value" where
  "ethernet_stored Ethernet_destination v = Address (mac_of_integer (ucast v))"
| "ethernet_stored Ethernet_source v = Address (mac_of_integer (ucast v))"
| "ethernet_stored Ethernet_ether_type v = Integer (take_bit 16 v)"
| "ethernet_stored Ethernet_none v = Integer 0"

subsection \<open>The VLAN header\<close>

record vlan_header =
  vlan_priority_drop_eligible_id :: endian_field
  vlan_ether_type :: endian_field

definition vlan_protocol_length :: nat where "vlan_protocol_length = 4"
definition vlan_field_count :: nat where "vlan_field_count = 4"

datatype vlan_field =
    Vlan_none | Vlan_priority | Vlan_drop_eligible | Vlan_id | Vlan_ether_type

definition get_vlan_priority :: "vlan_header \<Rightarrow> u32" where
  "get_vlan_priority header = ucast (drop_bit 13 (field_load (vlan_priority_drop_eligible_id header) AND 0xe000) :: 16 word)"
definition set_vlan_priority :: "vlan_header \<Rightarrow> u32 \<Rightarrow> vlan_header" where
  "set_vlan_priority header value =
     header\<lparr>vlan_priority_drop_eligible_id :=
       field_store 2 (put_bits 0xe000 (push_bit 13 (ucast value)) (field_load (vlan_priority_drop_eligible_id header)) :: 16 word)\<rparr>"

definition get_vlan_drop_eligible :: "vlan_header \<Rightarrow> bool" where
  "get_vlan_drop_eligible header \<longleftrightarrow> (drop_bit 12 (field_load (vlan_priority_drop_eligible_id header) AND 0x1000) :: 16 word) \<noteq> 0"
definition set_vlan_drop_eligible :: "vlan_header \<Rightarrow> bool \<Rightarrow> vlan_header" where
  "set_vlan_drop_eligible header value =
     header\<lparr>vlan_priority_drop_eligible_id :=
       field_store 2 (put_bits 0x1000 (push_bit 12 (of_bool value)) (field_load (vlan_priority_drop_eligible_id header)) :: 16 word)\<rparr>"

definition get_vlan_id :: "vlan_header \<Rightarrow> u16" where
  "get_vlan_id header = field_load (vlan_priority_drop_eligible_id header) AND 0xfff"
definition set_vlan_id :: "vlan_header \<Rightarrow> u16 \<Rightarrow> vlan_header" where
  "set_vlan_id header value =
     header\<lparr>vlan_priority_drop_eligible_id :=
       field_store 2 (put_bits 0xfff value (field_load (vlan_priority_drop_eligible_id header)) :: 16 word)\<rparr>"

definition get_vlan_ether_type :: "vlan_header \<Rightarrow> u16" where
  "get_vlan_ether_type header = field_load (vlan_ether_type header)"
definition set_vlan_ether_type :: "vlan_header \<Rightarrow> u16 \<Rightarrow> vlan_header" where
  "set_vlan_ether_type header value =
     header\<lparr>vlan_ether_type :=
       field_store 2 value\<rparr>"

definition vlan_get_field_name :: "string \<Rightarrow> vlan_field" where
  "vlan_get_field_name name =
     (case map_of
        [(''priority'', Vlan_priority),
         (''drop_eligible'', Vlan_drop_eligible),
         (''id'', Vlan_id),
         (''ether_type'', Vlan_ether_type)] name of
        Some field \<Rightarrow> field
      | None \<Rightarrow> Vlan_none)"

fun vlan_get_field_type :: "vlan_field \<Rightarrow> field_type" where
  "vlan_get_field_type Vlan_priority = Type_u16"
|   "vlan_get_field_type Vlan_drop_eligible = Type_u16"
|   "vlan_get_field_type Vlan_id = Type_u16"
|   "vlan_get_field_type Vlan_ether_type = Type_u16"
| "vlan_get_field_type Vlan_none = Type_null"

fun vlan_set_field :: "vlan_header \<Rightarrow> vlan_field \<Rightarrow> modifier_value \<Rightarrow> vlan_header" where
  "vlan_set_field header Vlan_priority value =
     (case to_integer value of Some v \<Rightarrow> set_vlan_priority header v | None \<Rightarrow> header)"
| "vlan_set_field header Vlan_drop_eligible value =
     (case to_integer value of Some v \<Rightarrow> set_vlan_drop_eligible header (v \<noteq> 0) | None \<Rightarrow> header)"
| "vlan_set_field header Vlan_id value =
     (case to_integer value of Some v \<Rightarrow> set_vlan_id header (ucast v) | None \<Rightarrow> header)"
| "vlan_set_field header Vlan_ether_type value =
     (case to_integer value of Some v \<Rightarrow> set_vlan_ether_type header (ucast v) | None \<Rightarrow> header)"
| "vlan_set_field header Vlan_none value = header"

lemmas vlan_access [header_defs] =
  get_vlan_priority_def set_vlan_priority_def
  get_vlan_drop_eligible_def set_vlan_drop_eligible_def
  get_vlan_id_def set_vlan_id_def
  get_vlan_ether_type_def set_vlan_ether_type_def

text \<open>The layout in memory: the members in order, without padding.\<close>

definition vlan_bytes :: "vlan_header \<Rightarrow> u8 list" where
  "vlan_bytes header = octets (vlan_priority_drop_eligible_id header) @ octets (vlan_ether_type header)"

definition vlan_of_bytes :: "u8 list \<Rightarrow> vlan_header" where
  "vlan_of_bytes bs =
     \<lparr>vlan_priority_drop_eligible_id = \<lparr>octets = take 2 bs\<rparr>,
      vlan_ether_type = \<lparr>octets = take 2 (drop 2 bs)\<rparr>\<rparr>"

definition vlan_wf :: "vlan_header \<Rightarrow> bool" where
  "vlan_wf header \<longleftrightarrow> field_wf 2 (vlan_priority_drop_eligible_id header) \<and>
     field_wf 2 (vlan_ether_type header)"

text \<open>The value of a field, as its getter returns it.\<close>

fun vlan_get_field :: "vlan_field \<Rightarrow> vlan_header \<Rightarrow> header_value" where
  "vlan_get_field Vlan_priority header = Integer (get_vlan_priority header)"
| "vlan_get_field Vlan_drop_eligible header = Integer (of_bool (get_vlan_drop_eligible header))"
| "vlan_get_field Vlan_id header = Integer (ucast (get_vlan_id header))"
| "vlan_get_field Vlan_ether_type header = Integer (ucast (get_vlan_ether_type header))"
| "vlan_get_field Vlan_none header = Integer 0"

text \<open>What a field holds after an integer is assigned to it.\<close>

fun vlan_stored :: "vlan_field \<Rightarrow> u32 \<Rightarrow> header_value" where
  "vlan_stored Vlan_priority v = Integer (take_bit 3 v)"
| "vlan_stored Vlan_drop_eligible v = Integer (of_bool (v \<noteq> 0))"
| "vlan_stored Vlan_id v = Integer (take_bit 12 v)"
| "vlan_stored Vlan_ether_type v = Integer (take_bit 16 v)"
| "vlan_stored Vlan_none v = Integer 0"

subsection \<open>The MPLS header\<close>

record mpls_header =
  mpls_label_traffic_class_bottom_of_stack :: endian_field
  mpls_ttl :: endian_field

definition mpls_protocol_length :: nat where "mpls_protocol_length = 4"
definition mpls_field_count :: nat where "mpls_field_count = 4"

datatype mpls_field =
    Mpls_none | Mpls_label | Mpls_traffic_class | Mpls_bottom_of_stack | Mpls_ttl

definition get_mpls_label :: "mpls_header \<Rightarrow> u32" where
  "get_mpls_label header = drop_bit 4 (field_load (mpls_label_traffic_class_bottom_of_stack header) AND 0xfffff0)"
definition set_mpls_label :: "mpls_header \<Rightarrow> u32 \<Rightarrow> mpls_header" where
  "set_mpls_label header value =
     header\<lparr>mpls_label_traffic_class_bottom_of_stack :=
       field_store 3 (put_bits 0xfffff0 (push_bit 4 value) (field_load (mpls_label_traffic_class_bottom_of_stack header)) :: 32 word)\<rparr>"

definition get_mpls_traffic_class :: "mpls_header \<Rightarrow> u32" where
  "get_mpls_traffic_class header = drop_bit 1 (field_load (mpls_label_traffic_class_bottom_of_stack header) AND 0xe)"
definition set_mpls_traffic_class :: "mpls_header \<Rightarrow> u32 \<Rightarrow> mpls_header" where
  "set_mpls_traffic_class header value =
     header\<lparr>mpls_label_traffic_class_bottom_of_stack :=
       field_store 3 (put_bits 0xe (push_bit 1 value) (field_load (mpls_label_traffic_class_bottom_of_stack header)) :: 32 word)\<rparr>"

definition get_mpls_bottom_of_stack :: "mpls_header \<Rightarrow> bool" where
  "get_mpls_bottom_of_stack header \<longleftrightarrow> (field_load (mpls_label_traffic_class_bottom_of_stack header) AND 0x1 :: 32 word) \<noteq> 0"
definition set_mpls_bottom_of_stack :: "mpls_header \<Rightarrow> bool \<Rightarrow> mpls_header" where
  "set_mpls_bottom_of_stack header value =
     header\<lparr>mpls_label_traffic_class_bottom_of_stack :=
       field_store 3 (put_bits 0x1 (of_bool value) (field_load (mpls_label_traffic_class_bottom_of_stack header)) :: 32 word)\<rparr>"

definition get_mpls_ttl :: "mpls_header \<Rightarrow> u8" where
  "get_mpls_ttl header = number_load (mpls_ttl header)"
definition set_mpls_ttl :: "mpls_header \<Rightarrow> u8 \<Rightarrow> mpls_header" where
  "set_mpls_ttl header value =
     header\<lparr>mpls_ttl :=
       number_assign (mpls_ttl header) value\<rparr>"

definition set_mpls_defaults :: "mpls_header \<Rightarrow> mpls_header" where
  "set_mpls_defaults header =
     set_mpls_ttl header 64"

definition mpls_get_field_name :: "string \<Rightarrow> mpls_field" where
  "mpls_get_field_name name =
     (case map_of
        [(''label'', Mpls_label),
         (''traffic_class'', Mpls_traffic_class),
         (''bottom_of_stack'', Mpls_bottom_of_stack),
         (''ttl'', Mpls_ttl)] name of
        Some field \<Rightarrow> field
      | None \<Rightarrow> Mpls_none)"

fun mpls_get_field_type :: "mpls_field \<Rightarrow> field_type" where
  "mpls_get_field_type Mpls_label = Type_u32"
|   "mpls_get_field_type Mpls_traffic_class = Type_u32"
|   "mpls_get_field_type Mpls_bottom_of_stack = Type_u32"
|   "mpls_get_field_type Mpls_ttl = Type_u8"
| "mpls_get_field_type Mpls_none = Type_null"

fun mpls_set_field :: "mpls_header \<Rightarrow> mpls_field \<Rightarrow> modifier_value \<Rightarrow> mpls_header" where
  "mpls_set_field header Mpls_label value =
     (case to_integer value of Some v \<Rightarrow> set_mpls_label header v | None \<Rightarrow> header)"
| "mpls_set_field header Mpls_traffic_class value =
     (case to_integer value of Some v \<Rightarrow> set_mpls_traffic_class header v | None \<Rightarrow> header)"
| "mpls_set_field header Mpls_bottom_of_stack value =
     (case to_integer value of Some v \<Rightarrow> set_mpls_bottom_of_stack header (v \<noteq> 0) | None \<Rightarrow> header)"
| "mpls_set_field header Mpls_ttl value =
     (case to_integer value of Some v \<Rightarrow> set_mpls_ttl header (ucast v) | None \<Rightarrow> header)"
| "mpls_set_field header Mpls_none value = header"

lemmas mpls_access [header_defs] =
  get_mpls_label_def set_mpls_label_def
  get_mpls_traffic_class_def set_mpls_traffic_class_def
  get_mpls_bottom_of_stack_def set_mpls_bottom_of_stack_def
  get_mpls_ttl_def set_mpls_ttl_def

text \<open>The layout in memory: the members in order, without padding.\<close>

definition mpls_bytes :: "mpls_header \<Rightarrow> u8 list" where
  "mpls_bytes header = octets (mpls_label_traffic_class_bottom_of_stack header) @ octets (mpls_ttl header)"

definition mpls_of_bytes :: "u8 list \<Rightarrow> mpls_header" where
  "mpls_of_bytes bs =
     \<lparr>mpls_label_traffic_class_bottom_of_stack = \<lparr>octets = take 3 bs\<rparr>,
      mpls_ttl = \<lparr>octets = take 1 (drop 3 bs)\<rparr>\<rparr>"

definition mpls_wf :: "mpls_header \<Rightarrow> bool" where
  "mpls_wf header \<longleftrightarrow> field_wf 3 (mpls_label_traffic_class_bottom_of_stack header) \<and>
     field_wf 1 (mpls_ttl header)"

text \<open>The value of a field, as its getter returns it.\<close>

fun mpls_get_field :: "mpls_field \<Rightarrow> mpls_header \<Rightarrow> header_value" where
  "mpls_get_field Mpls_label header = Integer (get_mpls_label header)"
| "mpls_get_field Mpls_traffic_class header = Integer (get_mpls_traffic_class header)"
| "mpls_get_field Mpls_bottom_of_stack header = Integer (of_bool (get_mpls_bottom_of_stack header))"
| "mpls_get_field Mpls_ttl header = Integer (ucast (get_mpls_ttl header))"
| "mpls_get_field Mpls_none header = Integer 0"

text \<open>What a field holds after an integer is assigned to it.\<close>

fun mpls_stored :: "mpls_field \<Rightarrow> u32 \<Rightarrow> header_value" where
  "mpls_stored Mpls_label v = Integer (take_bit 20 v)"
| "mpls_stored Mpls_traffic_class v = Integer (take_bit 3 v)"
| "mpls_stored Mpls_bottom_of_stack v = Integer (of_bool (v \<noteq> 0))"
| "mpls_stored Mpls_ttl v = Integer (take_bit 8 v)"
| "mpls_stored Mpls_none v = Integer 0"

subsection \<open>Field access and layout\<close>

lemma ethernet_set_field_wf: "ethernet_wf h \<Longrightarrow> ethernet_wf (ethernet_set_field h f v)"
  by (cases f; cases v) (simp_all add: ethernet_wf_def header_defs)

lemma ethernet_stored_field:
  "ethernet_wf h \<Longrightarrow> ethernet_get_field f (ethernet_set_field h f (Value_u32 v)) = ethernet_stored f v"
  by (cases f) (simp_all add: ethernet_wf_def header_defs read_back del: drop_bit_and push_bit_and,
      (rule bit_word_eqI, auto simp: bit_simps)+)

lemma ethernet_other_field:
  "f \<noteq> g \<Longrightarrow> ethernet_get_field g (ethernet_set_field h f v) = ethernet_get_field g h"
  by (cases f; cases g; cases v) (simp_all add: header_defs load_store_simps put_bits_kept del: drop_bit_and)

lemma ethernet_not_convertible:
  "\<not> convertible v (ethernet_get_field_type f) \<Longrightarrow> ethernet_set_field h f v = h"
  by (cases f; cases v) simp_all

lemma ethernet_set_again:
  "ethernet_wf h \<Longrightarrow> convertible w (ethernet_get_field_type f) \<Longrightarrow>
   ethernet_set_field (ethernet_set_field h f v) f w = ethernet_set_field h f w"
  by (cases f; cases v) (auto simp: ethernet_wf_def header_defs load_store_simps write_again split: option.split)

lemma ethernet_set_commute:
  "f \<noteq> g \<Longrightarrow> ethernet_set_field (ethernet_set_field h f v) g w = ethernet_set_field (ethernet_set_field h g w) f v"
  by (cases f; cases g) (simp_all add: header_defs load_store_simps put_bits_take put_bits_commute split: option.split)

lemma length_ethernet_bytes: "ethernet_wf h \<Longrightarrow> length (ethernet_bytes h) = ethernet_protocol_length"
  by (simp add: ethernet_wf_def field_wf_def ethernet_bytes_def ethernet_protocol_length_def)

lemma ethernet_of_bytes_bytes: "ethernet_wf h \<Longrightarrow> ethernet_of_bytes (ethernet_bytes h) = h"
  by (cases h) (simp add: ethernet_wf_def field_wf_def ethernet_bytes_def ethernet_of_bytes_def)

lemma ethernet_bytes_of_bytes:
  "length bs = ethernet_protocol_length \<Longrightarrow> ethernet_bytes (ethernet_of_bytes bs) = bs \<and> ethernet_wf (ethernet_of_bytes bs)"
  by (simp add: ethernet_bytes_def ethernet_of_bytes_def ethernet_wf_def field_wf_def ethernet_protocol_length_def
      take_drop_chain)

lemma vlan_set_field_wf: "vlan_wf h \<Longrightarrow> vlan_wf (vlan_set_field h f v)"
  by (cases f; cases v) (simp_all add: vlan_wf_def header_defs)

lemma vlan_stored_field:
  "vlan_wf h \<Longrightarrow> vlan_get_field f (vlan_set_field h f (Value_u32 v)) = vlan_stored f v"
  by (cases f) (simp_all add: vlan_wf_def header_defs read_back del: drop_bit_and push_bit_and,
      simp_all add: and_low, (rule bit_word_eqI, auto simp: bit_simps)+)

lemma vlan_other_field:
  "f \<noteq> g \<Longrightarrow> vlan_get_field g (vlan_set_field h f v) = vlan_get_field g h"
  by (cases f; cases g; cases v) (simp_all add: header_defs load_store_simps put_bits_kept del: drop_bit_and)

lemma vlan_not_convertible:
  "\<not> convertible v (vlan_get_field_type f) \<Longrightarrow> vlan_set_field h f v = h"
  by (cases f; cases v) simp_all

lemma vlan_set_again:
  "vlan_wf h \<Longrightarrow> convertible w (vlan_get_field_type f) \<Longrightarrow>
   vlan_set_field (vlan_set_field h f v) f w = vlan_set_field h f w"
  by (cases f; cases v) (auto simp: vlan_wf_def header_defs load_store_simps write_again split: option.split)

lemma vlan_set_commute:
  "f \<noteq> g \<Longrightarrow> vlan_set_field (vlan_set_field h f v) g w = vlan_set_field (vlan_set_field h g w) f v"
  by (cases f; cases g) (simp_all add: header_defs load_store_simps put_bits_take put_bits_commute split: option.split)

lemma length_vlan_bytes: "vlan_wf h \<Longrightarrow> length (vlan_bytes h) = vlan_protocol_length"
  by (simp add: vlan_wf_def field_wf_def vlan_bytes_def vlan_protocol_length_def)

lemma vlan_of_bytes_bytes: "vlan_wf h \<Longrightarrow> vlan_of_bytes (vlan_bytes h) = h"
  by (cases h) (simp add: vlan_wf_def field_wf_def vlan_bytes_def vlan_of_bytes_def)

lemma vlan_bytes_of_bytes:
  "length bs = vlan_protocol_length \<Longrightarrow> vlan_bytes (vlan_of_bytes bs) = bs \<and> vlan_wf (vlan_of_bytes bs)"
  by (simp add: vlan_bytes_def vlan_of_bytes_def vlan_wf_def field_wf_def vlan_protocol_length_def
      take_drop_chain)

lemma mpls_set_field_wf: "mpls_wf h \<Longrightarrow> mpls_wf (mpls_set_field h f v)"
  by (cases f; cases v) (simp_all add: mpls_wf_def header_defs)

text \<open>The bits of the three fields that share the first member.\<close>

lemma bit_put_bits:
  "bit (put_bits m v w) i \<longleftrightarrow> (if bit m i then bit v i else bit (w :: 'a::len word) i)"
  by (cases "i < LENGTH('a)") (auto simp: put_bits_def bit_simps dest: bit_imp_le_length)

lemma bit_mpls_masks:
  "bit (0xfffff0 :: u32) i \<longleftrightarrow> 4 \<le> i \<and> i < 24" "bit (0xe :: u32) i \<longleftrightarrow> 1 \<le> i \<and> i < 4"
  by (simp_all only: mpls_masks bit_push_bit_iff bit_mask_iff) auto

lemma mpls_member_bits:
  fixes w :: u32
  shows "bit (put_bits 0xfffff0 v w) i \<longleftrightarrow> (if 4 \<le> i \<and> i < 24 then bit v i else bit w i)"
    "bit (put_bits 0xe v w) i \<longleftrightarrow> (if 1 \<le> i \<and> i < 4 then bit v i else bit w i)"
    "bit (put_bits 1 v w) i \<longleftrightarrow> (if i = 0 then bit v i else bit w i)"
  by (simp_all only: bit_put_bits bit_mpls_masks) (simp add: bit_1_iff)

lemma mpls_shifted_bits:
  fixes v :: u32
  shows "bit (push_bit 4 v) (n + 4) \<longleftrightarrow> n < 28 \<and> bit v n" "bit (v * 2) (Suc n) \<longleftrightarrow> n < 31 \<and> bit v n"
proof -
  have d: "v * 2 = push_bit 1 v" by simp
  show "bit (push_bit 4 v) (n + 4) \<longleftrightarrow> n < 28 \<and> bit v n"
    by (auto simp: bit_push_bit_iff dest: bit_imp_le_length)
  show "bit (v * 2) (Suc n) \<longleftrightarrow> n < 31 \<and> bit v n"
    unfolding d bit_push_bit_iff by (auto dest: bit_imp_le_length)
qed

lemma mpls_get_bits:
  "bit (get_mpls_label h) i \<longleftrightarrow>
     i < 20 \<and> bit (field_load (mpls_label_traffic_class_bottom_of_stack h) :: u32) (i + 4)"
  "bit (get_mpls_traffic_class h) i \<longleftrightarrow>
     i < 3 \<and> bit (field_load (mpls_label_traffic_class_bottom_of_stack h) :: u32) (i + 1)"
  "get_mpls_bottom_of_stack h \<longleftrightarrow>
     bit (field_load (mpls_label_traffic_class_bottom_of_stack h) :: u32) 0"
  unfolding header_defs mpls_masks and_one_bit
  by (auto simp: bit_simps ac_simps)

lemma mpls_stored_field:
  "mpls_wf h \<Longrightarrow> mpls_get_field f (mpls_set_field h f (Value_u32 v)) = mpls_stored f v"
  by (cases f) (auto simp: mpls_wf_def set_mpls_label_def set_mpls_traffic_class_def
      set_mpls_bottom_of_stack_def set_mpls_ttl_def get_mpls_ttl_def mpls_get_bits load_store_simps
      mpls_member_bits mpls_shifted_bits bit_take_bit_iff bit_ucast_iff bit_of_bool_iff split: if_splits intro!: bit_word_eqI)

lemma mpls_other_field:
  "f \<noteq> g \<Longrightarrow> mpls_get_field g (mpls_set_field h f v) = mpls_get_field g h"
  by (cases f; cases g; cases v) (auto simp: set_mpls_label_def set_mpls_traffic_class_def
      set_mpls_bottom_of_stack_def set_mpls_ttl_def get_mpls_ttl_def mpls_get_bits load_store_simps
      mpls_member_bits mpls_shifted_bits bit_take_bit_iff bit_ucast_iff bit_of_bool_iff split: if_splits intro!: bit_word_eqI)

lemma mpls_not_convertible:
  "\<not> convertible v (mpls_get_field_type f) \<Longrightarrow> mpls_set_field h f v = h"
  by (cases f; cases v) simp_all

lemma mpls_set_again:
  "mpls_wf h \<Longrightarrow> convertible w (mpls_get_field_type f) \<Longrightarrow>
   mpls_set_field (mpls_set_field h f v) f w = mpls_set_field h f w"
  by (cases f; cases v) (auto simp: mpls_wf_def header_defs load_store_simps write_again split: option.split)

lemma mpls_set_commute:
  "f \<noteq> g \<Longrightarrow> mpls_set_field (mpls_set_field h f v) g w = mpls_set_field (mpls_set_field h g w) f v"
  by (cases f; cases g) (simp_all add: header_defs load_store_simps put_bits_take put_bits_commute split: option.split)

lemma length_mpls_bytes: "mpls_wf h \<Longrightarrow> length (mpls_bytes h) = mpls_protocol_length"
  by (simp add: mpls_wf_def field_wf_def mpls_bytes_def mpls_protocol_length_def)

lemma mpls_of_bytes_bytes: "mpls_wf h \<Longrightarrow> mpls_of_bytes (mpls_bytes h) = h"
  by (cases h) (simp add: mpls_wf_def field_wf_def mpls_bytes_def mpls_of_bytes_def)

lemma mpls_bytes_of_bytes:
  "length bs = mpls_protocol_length \<Longrightarrow> mpls_bytes (mpls_of_bytes bs) = bs \<and> mpls_wf (mpls_of_bytes bs)"
  by (simp add: mpls_bytes_def mpls_of_bytes_def mpls_wf_def field_wf_def mpls_protocol_length_def
      take_drop_chain)


end
