(* ===== verification/Protocol_L3.thy ===== *)
theory Protocol_L3
  imports Protocol_Fields
begin

text \<open>
  The network layer headers of \<open>src/lib/packet/protocol\<close>: IPv4 and IPv6.
  Each header has its members, its getters and setters, the names and types of its fields, the
  assignment of a field by name, and its layout in memory.
\<close>

unbundle bit_operations_syntax

subsection \<open>The IPv4 header\<close>

record ipv4_header =
  ipv4_version_header_length :: endian_field
  ipv4_dscp_ecn :: endian_field
  ipv4_total_length :: endian_field
  ipv4_identification :: endian_field
  ipv4_flags_fragment_offset :: endian_field
  ipv4_time_to_live :: endian_field
  ipv4_protocol :: endian_field
  ipv4_checksum :: endian_field
  ipv4_source :: endian_field
  ipv4_destination :: endian_field

definition ipv4_protocol_length :: nat where "ipv4_protocol_length = 20"
definition ipv4_field_count :: nat where "ipv4_field_count = 13"

datatype ipv4_field =
    Ipv4_none | Ipv4_version | Ipv4_header_length | Ipv4_dscp | Ipv4_ecn
  | Ipv4_total_length | Ipv4_identification | Ipv4_flags | Ipv4_fragment_offset | Ipv4_time_to_live
  | Ipv4_protocol | Ipv4_checksum | Ipv4_source | Ipv4_destination

definition get_ipv4_version :: "ipv4_header \<Rightarrow> u8" where
  "get_ipv4_version header = drop_bit 4 (field_load (ipv4_version_header_length header) AND 0xf0)"
definition set_ipv4_version :: "ipv4_header \<Rightarrow> u8 \<Rightarrow> ipv4_header" where
  "set_ipv4_version header value =
     header\<lparr>ipv4_version_header_length :=
       field_store 1 (put_bits 0xf0 (push_bit 4 value) (field_load (ipv4_version_header_length header)) :: 8 word)\<rparr>"

definition get_ipv4_header_length :: "ipv4_header \<Rightarrow> u8" where
  "get_ipv4_header_length header = (field_load (ipv4_version_header_length header) AND 0xf) * 4"
definition set_ipv4_header_length :: "ipv4_header \<Rightarrow> u8 \<Rightarrow> ipv4_header" where
  "set_ipv4_header_length header value =
     header\<lparr>ipv4_version_header_length :=
       field_store 1 (put_bits 0xf (value div 4) (field_load (ipv4_version_header_length header)) :: 8 word)\<rparr>"

definition get_ipv4_dscp :: "ipv4_header \<Rightarrow> u8" where
  "get_ipv4_dscp header = drop_bit 2 (field_load (ipv4_dscp_ecn header) AND 0xfc)"
definition set_ipv4_dscp :: "ipv4_header \<Rightarrow> u8 \<Rightarrow> ipv4_header" where
  "set_ipv4_dscp header value =
     header\<lparr>ipv4_dscp_ecn :=
       field_store 1 (put_bits 0xfc (push_bit 2 value) (field_load (ipv4_dscp_ecn header)) :: 8 word)\<rparr>"

definition get_ipv4_ecn :: "ipv4_header \<Rightarrow> u32" where
  "get_ipv4_ecn header = ucast (field_load (ipv4_dscp_ecn header) AND 0x3 :: 8 word)"
definition set_ipv4_ecn :: "ipv4_header \<Rightarrow> u32 \<Rightarrow> ipv4_header" where
  "set_ipv4_ecn header value =
     header\<lparr>ipv4_dscp_ecn :=
       field_store 1 (put_bits 0x3 (ucast value) (field_load (ipv4_dscp_ecn header)) :: 8 word)\<rparr>"

definition get_ipv4_total_length :: "ipv4_header \<Rightarrow> u16" where
  "get_ipv4_total_length header = number_load (ipv4_total_length header)"
definition set_ipv4_total_length :: "ipv4_header \<Rightarrow> u16 \<Rightarrow> ipv4_header" where
  "set_ipv4_total_length header value =
     header\<lparr>ipv4_total_length :=
       number_assign (ipv4_total_length header) value\<rparr>"

definition get_ipv4_identification :: "ipv4_header \<Rightarrow> u16" where
  "get_ipv4_identification header = field_load (ipv4_identification header)"
definition set_ipv4_identification :: "ipv4_header \<Rightarrow> u16 \<Rightarrow> ipv4_header" where
  "set_ipv4_identification header value =
     header\<lparr>ipv4_identification :=
       field_store 2 value\<rparr>"

definition get_ipv4_flags :: "ipv4_header \<Rightarrow> u32" where
  "get_ipv4_flags header = ucast (drop_bit 13 (field_load (ipv4_flags_fragment_offset header) AND 0xe000) :: 16 word)"
definition set_ipv4_flags :: "ipv4_header \<Rightarrow> u32 \<Rightarrow> ipv4_header" where
  "set_ipv4_flags header value =
     header\<lparr>ipv4_flags_fragment_offset :=
       field_store 2 (put_bits 0xe000 (push_bit 13 (ucast value)) (field_load (ipv4_flags_fragment_offset header)) :: 16 word)\<rparr>"

definition get_ipv4_fragment_offset :: "ipv4_header \<Rightarrow> u16" where
  "get_ipv4_fragment_offset header = (field_load (ipv4_flags_fragment_offset header) AND 0x1fff) * 8"
definition set_ipv4_fragment_offset :: "ipv4_header \<Rightarrow> u16 \<Rightarrow> ipv4_header" where
  "set_ipv4_fragment_offset header value =
     header\<lparr>ipv4_flags_fragment_offset :=
       field_store 2 (put_bits 0x1fff (value div 8) (field_load (ipv4_flags_fragment_offset header)) :: 16 word)\<rparr>"

definition get_ipv4_time_to_live :: "ipv4_header \<Rightarrow> u8" where
  "get_ipv4_time_to_live header = number_load (ipv4_time_to_live header)"
definition set_ipv4_time_to_live :: "ipv4_header \<Rightarrow> u8 \<Rightarrow> ipv4_header" where
  "set_ipv4_time_to_live header value =
     header\<lparr>ipv4_time_to_live :=
       number_assign (ipv4_time_to_live header) value\<rparr>"

definition get_ipv4_protocol :: "ipv4_header \<Rightarrow> u8" where
  "get_ipv4_protocol header = field_load (ipv4_protocol header)"
definition set_ipv4_protocol :: "ipv4_header \<Rightarrow> u8 \<Rightarrow> ipv4_header" where
  "set_ipv4_protocol header value =
     header\<lparr>ipv4_protocol :=
       field_store 1 value\<rparr>"

definition get_ipv4_checksum :: "ipv4_header \<Rightarrow> u16" where
  "get_ipv4_checksum header = field_load (ipv4_checksum header)"
definition set_ipv4_checksum :: "ipv4_header \<Rightarrow> u16 \<Rightarrow> ipv4_header" where
  "set_ipv4_checksum header value =
     header\<lparr>ipv4_checksum :=
       field_store 2 value\<rparr>"

definition get_ipv4_source :: "ipv4_header \<Rightarrow> endian_field" where
  "get_ipv4_source header = ipv4_source header"
definition set_ipv4_source :: "ipv4_header \<Rightarrow> endian_field \<Rightarrow> ipv4_header" where
  "set_ipv4_source header value =
     header\<lparr>ipv4_source :=
       ipv4_assign value\<rparr>"

definition get_ipv4_destination :: "ipv4_header \<Rightarrow> endian_field" where
  "get_ipv4_destination header = ipv4_destination header"
definition set_ipv4_destination :: "ipv4_header \<Rightarrow> endian_field \<Rightarrow> ipv4_header" where
  "set_ipv4_destination header value =
     header\<lparr>ipv4_destination :=
       ipv4_assign value\<rparr>"

definition set_ipv4_defaults :: "ipv4_header \<Rightarrow> ipv4_header" where
  "set_ipv4_defaults header =
     set_ipv4_protocol (set_ipv4_time_to_live (set_ipv4_header_length (set_ipv4_version header 4) 20) 64) 254"

definition ipv4_get_field_name :: "string \<Rightarrow> ipv4_field" where
  "ipv4_get_field_name name =
     (case map_of
        [(''version'', Ipv4_version),
         (''header_length'', Ipv4_header_length),
         (''dscp'', Ipv4_dscp),
         (''ecn'', Ipv4_ecn),
         (''total_length'', Ipv4_total_length),
         (''identification'', Ipv4_identification),
         (''flags'', Ipv4_flags),
         (''fragment_offset'', Ipv4_fragment_offset),
         (''time_to_live'', Ipv4_time_to_live),
         (''protocol'', Ipv4_protocol),
         (''checksum'', Ipv4_checksum),
         (''source'', Ipv4_source),
         (''destination'', Ipv4_destination)] name of
        Some field \<Rightarrow> field
      | None \<Rightarrow> Ipv4_none)"

fun ipv4_get_field_type :: "ipv4_field \<Rightarrow> field_type" where
  "ipv4_get_field_type Ipv4_version = Type_u8"
|   "ipv4_get_field_type Ipv4_header_length = Type_u8"
|   "ipv4_get_field_type Ipv4_dscp = Type_u8"
|   "ipv4_get_field_type Ipv4_ecn = Type_u8"
|   "ipv4_get_field_type Ipv4_total_length = Type_u16"
|   "ipv4_get_field_type Ipv4_identification = Type_u16"
|   "ipv4_get_field_type Ipv4_flags = Type_u16"
|   "ipv4_get_field_type Ipv4_fragment_offset = Type_u16"
|   "ipv4_get_field_type Ipv4_time_to_live = Type_u8"
|   "ipv4_get_field_type Ipv4_protocol = Type_u8"
|   "ipv4_get_field_type Ipv4_checksum = Type_u16"
|   "ipv4_get_field_type Ipv4_source = Type_ipv4"
|   "ipv4_get_field_type Ipv4_destination = Type_ipv4"
| "ipv4_get_field_type Ipv4_none = Type_null"

fun ipv4_set_field :: "ipv4_header \<Rightarrow> ipv4_field \<Rightarrow> modifier_value \<Rightarrow> ipv4_header" where
  "ipv4_set_field header Ipv4_version value =
     (case to_integer value of Some v \<Rightarrow> set_ipv4_version header (ucast v) | None \<Rightarrow> header)"
| "ipv4_set_field header Ipv4_header_length value =
     (case to_integer value of Some v \<Rightarrow> set_ipv4_header_length header (ucast v) | None \<Rightarrow> header)"
| "ipv4_set_field header Ipv4_dscp value =
     (case to_integer value of Some v \<Rightarrow> set_ipv4_dscp header (ucast v) | None \<Rightarrow> header)"
| "ipv4_set_field header Ipv4_ecn value =
     (case to_integer value of Some v \<Rightarrow> set_ipv4_ecn header v | None \<Rightarrow> header)"
| "ipv4_set_field header Ipv4_total_length value =
     (case to_integer value of Some v \<Rightarrow> set_ipv4_total_length header (ucast v) | None \<Rightarrow> header)"
| "ipv4_set_field header Ipv4_identification value =
     (case to_integer value of Some v \<Rightarrow> set_ipv4_identification header (ucast v) | None \<Rightarrow> header)"
| "ipv4_set_field header Ipv4_flags value =
     (case to_integer value of Some v \<Rightarrow> set_ipv4_flags header v | None \<Rightarrow> header)"
| "ipv4_set_field header Ipv4_fragment_offset value =
     (case to_integer value of Some v \<Rightarrow> set_ipv4_fragment_offset header (ucast v) | None \<Rightarrow> header)"
| "ipv4_set_field header Ipv4_time_to_live value =
     (case to_integer value of Some v \<Rightarrow> set_ipv4_time_to_live header (ucast v) | None \<Rightarrow> header)"
| "ipv4_set_field header Ipv4_protocol value =
     (case to_integer value of Some v \<Rightarrow> set_ipv4_protocol header (ucast v) | None \<Rightarrow> header)"
| "ipv4_set_field header Ipv4_checksum value =
     (case to_integer value of Some v \<Rightarrow> set_ipv4_checksum header (ucast v) | None \<Rightarrow> header)"
| "ipv4_set_field header Ipv4_source value =
     (case to_ipv4 value of Some v \<Rightarrow> set_ipv4_source header v | None \<Rightarrow> header)"
| "ipv4_set_field header Ipv4_destination value =
     (case to_ipv4 value of Some v \<Rightarrow> set_ipv4_destination header v | None \<Rightarrow> header)"
| "ipv4_set_field header Ipv4_none value = header"

lemmas ipv4_access [header_defs] =
  get_ipv4_version_def set_ipv4_version_def
  get_ipv4_header_length_def set_ipv4_header_length_def
  get_ipv4_dscp_def set_ipv4_dscp_def
  get_ipv4_ecn_def set_ipv4_ecn_def
  get_ipv4_total_length_def set_ipv4_total_length_def
  get_ipv4_identification_def set_ipv4_identification_def
  get_ipv4_flags_def set_ipv4_flags_def
  get_ipv4_fragment_offset_def set_ipv4_fragment_offset_def
  get_ipv4_time_to_live_def set_ipv4_time_to_live_def
  get_ipv4_protocol_def set_ipv4_protocol_def
  get_ipv4_checksum_def set_ipv4_checksum_def
  get_ipv4_source_def set_ipv4_source_def
  get_ipv4_destination_def set_ipv4_destination_def

text \<open>The layout in memory: the members in order, without padding.\<close>

definition ipv4_bytes :: "ipv4_header \<Rightarrow> u8 list" where
  "ipv4_bytes header = octets (ipv4_version_header_length header) @ octets (ipv4_dscp_ecn header) @ octets (ipv4_total_length header) @ octets (ipv4_identification header) @ octets (ipv4_flags_fragment_offset header) @ octets (ipv4_time_to_live header) @ octets (ipv4_protocol header) @ octets (ipv4_checksum header) @ octets (ipv4_source header) @ octets (ipv4_destination header)"

definition ipv4_of_bytes :: "u8 list \<Rightarrow> ipv4_header" where
  "ipv4_of_bytes bs =
     \<lparr>ipv4_version_header_length = \<lparr>octets = take 1 bs\<rparr>,
      ipv4_dscp_ecn = \<lparr>octets = take 1 (drop 1 bs)\<rparr>,
      ipv4_total_length = \<lparr>octets = take 2 (drop 2 bs)\<rparr>,
      ipv4_identification = \<lparr>octets = take 2 (drop 4 bs)\<rparr>,
      ipv4_flags_fragment_offset = \<lparr>octets = take 2 (drop 6 bs)\<rparr>,
      ipv4_time_to_live = \<lparr>octets = take 1 (drop 8 bs)\<rparr>,
      ipv4_protocol = \<lparr>octets = take 1 (drop 9 bs)\<rparr>,
      ipv4_checksum = \<lparr>octets = take 2 (drop 10 bs)\<rparr>,
      ipv4_source = \<lparr>octets = take 4 (drop 12 bs)\<rparr>,
      ipv4_destination = \<lparr>octets = take 4 (drop 16 bs)\<rparr>\<rparr>"

definition ipv4_wf :: "ipv4_header \<Rightarrow> bool" where
  "ipv4_wf header \<longleftrightarrow> field_wf 1 (ipv4_version_header_length header) \<and>
     field_wf 1 (ipv4_dscp_ecn header) \<and>
     field_wf 2 (ipv4_total_length header) \<and>
     field_wf 2 (ipv4_identification header) \<and>
     field_wf 2 (ipv4_flags_fragment_offset header) \<and>
     field_wf 1 (ipv4_time_to_live header) \<and>
     field_wf 1 (ipv4_protocol header) \<and>
     field_wf 2 (ipv4_checksum header) \<and>
     field_wf 4 (ipv4_source header) \<and>
     field_wf 4 (ipv4_destination header)"

text \<open>The value of a field, as its getter returns it.\<close>

fun ipv4_get_field :: "ipv4_field \<Rightarrow> ipv4_header \<Rightarrow> header_value" where
  "ipv4_get_field Ipv4_version header = Integer (ucast (get_ipv4_version header))"
| "ipv4_get_field Ipv4_header_length header = Integer (ucast (get_ipv4_header_length header))"
| "ipv4_get_field Ipv4_dscp header = Integer (ucast (get_ipv4_dscp header))"
| "ipv4_get_field Ipv4_ecn header = Integer (get_ipv4_ecn header)"
| "ipv4_get_field Ipv4_total_length header = Integer (ucast (get_ipv4_total_length header))"
| "ipv4_get_field Ipv4_identification header = Integer (ucast (get_ipv4_identification header))"
| "ipv4_get_field Ipv4_flags header = Integer (get_ipv4_flags header)"
| "ipv4_get_field Ipv4_fragment_offset header = Integer (ucast (get_ipv4_fragment_offset header))"
| "ipv4_get_field Ipv4_time_to_live header = Integer (ucast (get_ipv4_time_to_live header))"
| "ipv4_get_field Ipv4_protocol header = Integer (ucast (get_ipv4_protocol header))"
| "ipv4_get_field Ipv4_checksum header = Integer (ucast (get_ipv4_checksum header))"
| "ipv4_get_field Ipv4_source header = Address (get_ipv4_source header)"
| "ipv4_get_field Ipv4_destination header = Address (get_ipv4_destination header)"
| "ipv4_get_field Ipv4_none header = Integer 0"

text \<open>What a field holds after an integer is assigned to it.\<close>

fun ipv4_stored :: "ipv4_field \<Rightarrow> u32 \<Rightarrow> header_value" where
  "ipv4_stored Ipv4_version v = Integer (take_bit 4 v)"
| "ipv4_stored Ipv4_header_length v = Integer (push_bit 2 (take_bit 4 (drop_bit 2 v)))"
| "ipv4_stored Ipv4_dscp v = Integer (take_bit 6 v)"
| "ipv4_stored Ipv4_ecn v = Integer (take_bit 2 v)"
| "ipv4_stored Ipv4_total_length v = Integer (take_bit 16 v)"
| "ipv4_stored Ipv4_identification v = Integer (take_bit 16 v)"
| "ipv4_stored Ipv4_flags v = Integer (take_bit 3 v)"
| "ipv4_stored Ipv4_fragment_offset v = Integer (push_bit 3 (take_bit 13 (drop_bit 3 v)))"
| "ipv4_stored Ipv4_time_to_live v = Integer (take_bit 8 v)"
| "ipv4_stored Ipv4_protocol v = Integer (take_bit 8 v)"
| "ipv4_stored Ipv4_checksum v = Integer (take_bit 16 v)"
| "ipv4_stored Ipv4_source v = Address (ipv4_of_integer v)"
| "ipv4_stored Ipv4_destination v = Address (ipv4_of_integer v)"
| "ipv4_stored Ipv4_none v = Integer 0"

subsection \<open>The IPv6 header\<close>

record ipv6_header =
  ipv6_version_traffic_class_flow_label :: endian_field
  ipv6_payload_length :: endian_field
  ipv6_next_header :: endian_field
  ipv6_hop_limit :: endian_field
  ipv6_source :: endian_field
  ipv6_destination :: endian_field

definition ipv6_protocol_length :: nat where "ipv6_protocol_length = 40"
definition ipv6_field_count :: nat where "ipv6_field_count = 8"

datatype ipv6_field =
    Ipv6_none | Ipv6_version | Ipv6_traffic_class | Ipv6_flow_label | Ipv6_payload_length
  | Ipv6_next_header | Ipv6_hop_limit | Ipv6_source | Ipv6_destination

definition get_ipv6_version :: "ipv6_header \<Rightarrow> u32" where
  "get_ipv6_version header = drop_bit 28 (field_load (ipv6_version_traffic_class_flow_label header) AND 0xf0000000)"
definition set_ipv6_version :: "ipv6_header \<Rightarrow> u32 \<Rightarrow> ipv6_header" where
  "set_ipv6_version header value =
     header\<lparr>ipv6_version_traffic_class_flow_label :=
       field_store 4 (put_bits 0xf0000000 (push_bit 28 value) (field_load (ipv6_version_traffic_class_flow_label header)) :: 32 word)\<rparr>"

definition get_ipv6_traffic_class :: "ipv6_header \<Rightarrow> u32" where
  "get_ipv6_traffic_class header = drop_bit 20 (field_load (ipv6_version_traffic_class_flow_label header) AND 0xff00000)"
definition set_ipv6_traffic_class :: "ipv6_header \<Rightarrow> u32 \<Rightarrow> ipv6_header" where
  "set_ipv6_traffic_class header value =
     header\<lparr>ipv6_version_traffic_class_flow_label :=
       field_store 4 (put_bits 0xff00000 (push_bit 20 value) (field_load (ipv6_version_traffic_class_flow_label header)) :: 32 word)\<rparr>"

definition get_ipv6_flow_label :: "ipv6_header \<Rightarrow> u32" where
  "get_ipv6_flow_label header = field_load (ipv6_version_traffic_class_flow_label header) AND 0xfffff"
definition set_ipv6_flow_label :: "ipv6_header \<Rightarrow> u32 \<Rightarrow> ipv6_header" where
  "set_ipv6_flow_label header value =
     header\<lparr>ipv6_version_traffic_class_flow_label :=
       field_store 4 (put_bits 0xfffff value (field_load (ipv6_version_traffic_class_flow_label header)) :: 32 word)\<rparr>"

definition get_ipv6_payload_length :: "ipv6_header \<Rightarrow> u16" where
  "get_ipv6_payload_length header = number_load (ipv6_payload_length header)"
definition set_ipv6_payload_length :: "ipv6_header \<Rightarrow> u16 \<Rightarrow> ipv6_header" where
  "set_ipv6_payload_length header value =
     header\<lparr>ipv6_payload_length :=
       number_assign (ipv6_payload_length header) value\<rparr>"

definition get_ipv6_next_header :: "ipv6_header \<Rightarrow> u8" where
  "get_ipv6_next_header header = field_load (ipv6_next_header header)"
definition set_ipv6_next_header :: "ipv6_header \<Rightarrow> u8 \<Rightarrow> ipv6_header" where
  "set_ipv6_next_header header value =
     header\<lparr>ipv6_next_header :=
       field_store 1 value\<rparr>"

definition get_ipv6_hop_limit :: "ipv6_header \<Rightarrow> u8" where
  "get_ipv6_hop_limit header = number_load (ipv6_hop_limit header)"
definition set_ipv6_hop_limit :: "ipv6_header \<Rightarrow> u8 \<Rightarrow> ipv6_header" where
  "set_ipv6_hop_limit header value =
     header\<lparr>ipv6_hop_limit :=
       number_assign (ipv6_hop_limit header) value\<rparr>"

definition get_ipv6_source :: "ipv6_header \<Rightarrow> endian_field" where
  "get_ipv6_source header = ipv6_source header"
definition set_ipv6_source :: "ipv6_header \<Rightarrow> endian_field \<Rightarrow> ipv6_header" where
  "set_ipv6_source header value =
     header\<lparr>ipv6_source :=
       ipv6_assign value\<rparr>"

definition get_ipv6_destination :: "ipv6_header \<Rightarrow> endian_field" where
  "get_ipv6_destination header = ipv6_destination header"
definition set_ipv6_destination :: "ipv6_header \<Rightarrow> endian_field \<Rightarrow> ipv6_header" where
  "set_ipv6_destination header value =
     header\<lparr>ipv6_destination :=
       ipv6_assign value\<rparr>"

definition set_ipv6_defaults :: "ipv6_header \<Rightarrow> ipv6_header" where
  "set_ipv6_defaults header =
     set_ipv6_hop_limit (set_ipv6_next_header (set_ipv6_version header 6) 59) 64"

definition ipv6_get_field_name :: "string \<Rightarrow> ipv6_field" where
  "ipv6_get_field_name name =
     (case map_of
        [(''version'', Ipv6_version),
         (''traffic_class'', Ipv6_traffic_class),
         (''flow_label'', Ipv6_flow_label),
         (''payload_length'', Ipv6_payload_length),
         (''next_header'', Ipv6_next_header),
         (''hop_limit'', Ipv6_hop_limit),
         (''source'', Ipv6_source),
         (''destination'', Ipv6_destination)] name of
        Some field \<Rightarrow> field
      | None \<Rightarrow> Ipv6_none)"

fun ipv6_get_field_type :: "ipv6_field \<Rightarrow> field_type" where
  "ipv6_get_field_type Ipv6_version = Type_u32"
|   "ipv6_get_field_type Ipv6_traffic_class = Type_u32"
|   "ipv6_get_field_type Ipv6_flow_label = Type_u32"
|   "ipv6_get_field_type Ipv6_payload_length = Type_u16"
|   "ipv6_get_field_type Ipv6_next_header = Type_u8"
|   "ipv6_get_field_type Ipv6_hop_limit = Type_u8"
|   "ipv6_get_field_type Ipv6_source = Type_ipv6"
|   "ipv6_get_field_type Ipv6_destination = Type_ipv6"
| "ipv6_get_field_type Ipv6_none = Type_null"

fun ipv6_set_field :: "ipv6_header \<Rightarrow> ipv6_field \<Rightarrow> modifier_value \<Rightarrow> ipv6_header" where
  "ipv6_set_field header Ipv6_version value =
     (case to_integer value of Some v \<Rightarrow> set_ipv6_version header v | None \<Rightarrow> header)"
| "ipv6_set_field header Ipv6_traffic_class value =
     (case to_integer value of Some v \<Rightarrow> set_ipv6_traffic_class header v | None \<Rightarrow> header)"
| "ipv6_set_field header Ipv6_flow_label value =
     (case to_integer value of Some v \<Rightarrow> set_ipv6_flow_label header v | None \<Rightarrow> header)"
| "ipv6_set_field header Ipv6_payload_length value =
     (case to_integer value of Some v \<Rightarrow> set_ipv6_payload_length header (ucast v) | None \<Rightarrow> header)"
| "ipv6_set_field header Ipv6_next_header value =
     (case to_integer value of Some v \<Rightarrow> set_ipv6_next_header header (ucast v) | None \<Rightarrow> header)"
| "ipv6_set_field header Ipv6_hop_limit value =
     (case to_integer value of Some v \<Rightarrow> set_ipv6_hop_limit header (ucast v) | None \<Rightarrow> header)"
| "ipv6_set_field header Ipv6_source value =
     (case to_ipv6 value of Some v \<Rightarrow> set_ipv6_source header v | None \<Rightarrow> header)"
| "ipv6_set_field header Ipv6_destination value =
     (case to_ipv6 value of Some v \<Rightarrow> set_ipv6_destination header v | None \<Rightarrow> header)"
| "ipv6_set_field header Ipv6_none value = header"

lemmas ipv6_access [header_defs] =
  get_ipv6_version_def set_ipv6_version_def
  get_ipv6_traffic_class_def set_ipv6_traffic_class_def
  get_ipv6_flow_label_def set_ipv6_flow_label_def
  get_ipv6_payload_length_def set_ipv6_payload_length_def
  get_ipv6_next_header_def set_ipv6_next_header_def
  get_ipv6_hop_limit_def set_ipv6_hop_limit_def
  get_ipv6_source_def set_ipv6_source_def
  get_ipv6_destination_def set_ipv6_destination_def

text \<open>The layout in memory: the members in order, without padding.\<close>

definition ipv6_bytes :: "ipv6_header \<Rightarrow> u8 list" where
  "ipv6_bytes header = octets (ipv6_version_traffic_class_flow_label header) @ octets (ipv6_payload_length header) @ octets (ipv6_next_header header) @ octets (ipv6_hop_limit header) @ octets (ipv6_source header) @ octets (ipv6_destination header)"

definition ipv6_of_bytes :: "u8 list \<Rightarrow> ipv6_header" where
  "ipv6_of_bytes bs =
     \<lparr>ipv6_version_traffic_class_flow_label = \<lparr>octets = take 4 bs\<rparr>,
      ipv6_payload_length = \<lparr>octets = take 2 (drop 4 bs)\<rparr>,
      ipv6_next_header = \<lparr>octets = take 1 (drop 6 bs)\<rparr>,
      ipv6_hop_limit = \<lparr>octets = take 1 (drop 7 bs)\<rparr>,
      ipv6_source = \<lparr>octets = take 16 (drop 8 bs)\<rparr>,
      ipv6_destination = \<lparr>octets = take 16 (drop 24 bs)\<rparr>\<rparr>"

definition ipv6_wf :: "ipv6_header \<Rightarrow> bool" where
  "ipv6_wf header \<longleftrightarrow> field_wf 4 (ipv6_version_traffic_class_flow_label header) \<and>
     field_wf 2 (ipv6_payload_length header) \<and>
     field_wf 1 (ipv6_next_header header) \<and>
     field_wf 1 (ipv6_hop_limit header) \<and>
     field_wf 16 (ipv6_source header) \<and>
     field_wf 16 (ipv6_destination header)"

text \<open>The value of a field, as its getter returns it.\<close>

fun ipv6_get_field :: "ipv6_field \<Rightarrow> ipv6_header \<Rightarrow> header_value" where
  "ipv6_get_field Ipv6_version header = Integer (get_ipv6_version header)"
| "ipv6_get_field Ipv6_traffic_class header = Integer (get_ipv6_traffic_class header)"
| "ipv6_get_field Ipv6_flow_label header = Integer (get_ipv6_flow_label header)"
| "ipv6_get_field Ipv6_payload_length header = Integer (ucast (get_ipv6_payload_length header))"
| "ipv6_get_field Ipv6_next_header header = Integer (ucast (get_ipv6_next_header header))"
| "ipv6_get_field Ipv6_hop_limit header = Integer (ucast (get_ipv6_hop_limit header))"
| "ipv6_get_field Ipv6_source header = Address (get_ipv6_source header)"
| "ipv6_get_field Ipv6_destination header = Address (get_ipv6_destination header)"
| "ipv6_get_field Ipv6_none header = Integer 0"

text \<open>What a field holds after an integer is assigned to it.\<close>

fun ipv6_stored :: "ipv6_field \<Rightarrow> u32 \<Rightarrow> header_value" where
  "ipv6_stored Ipv6_version v = Integer (take_bit 4 v)"
| "ipv6_stored Ipv6_traffic_class v = Integer (take_bit 8 v)"
| "ipv6_stored Ipv6_flow_label v = Integer (take_bit 20 v)"
| "ipv6_stored Ipv6_payload_length v = Integer (take_bit 16 v)"
| "ipv6_stored Ipv6_next_header v = Integer (take_bit 8 v)"
| "ipv6_stored Ipv6_hop_limit v = Integer (take_bit 8 v)"
| "ipv6_stored Ipv6_source v = Address (ipv6_of_integer (ucast v))"
| "ipv6_stored Ipv6_destination v = Address (ipv6_of_integer (ucast v))"
| "ipv6_stored Ipv6_none v = Integer 0"

subsection \<open>Field access and layout\<close>

lemma ipv4_set_field_wf: "ipv4_wf h \<Longrightarrow> ipv4_wf (ipv4_set_field h f v)"
  by (cases f; cases v) (simp_all add: ipv4_wf_def header_defs)

lemma ipv4_stored_field:
  "ipv4_wf h \<Longrightarrow> ipv4_get_field f (ipv4_set_field h f (Value_u32 v)) = ipv4_stored f v"
  by (cases f) (simp_all add: ipv4_wf_def header_defs read_back del: drop_bit_and push_bit_and,
      simp_all add: and_low, (rule bit_word_eqI, auto simp: bit_simps)+)

lemma ipv4_other_field:
  "f \<noteq> g \<Longrightarrow> ipv4_get_field g (ipv4_set_field h f v) = ipv4_get_field g h"
  by (cases f; cases g; cases v) (simp_all add: header_defs load_store_simps put_bits_kept del: drop_bit_and)

lemma ipv4_not_convertible:
  "\<not> convertible v (ipv4_get_field_type f) \<Longrightarrow> ipv4_set_field h f v = h"
  by (cases f; cases v) simp_all

lemma ipv4_set_again:
  "ipv4_wf h \<Longrightarrow> convertible w (ipv4_get_field_type f) \<Longrightarrow>
   ipv4_set_field (ipv4_set_field h f v) f w = ipv4_set_field h f w"
  by (cases f; cases v) (auto simp: ipv4_wf_def header_defs load_store_simps write_again split: option.split)

lemma ipv4_set_commute:
  "f \<noteq> g \<Longrightarrow> ipv4_set_field (ipv4_set_field h f v) g w = ipv4_set_field (ipv4_set_field h g w) f v"
  by (cases f; cases g) (simp_all add: header_defs load_store_simps put_bits_take put_bits_commute split: option.split)

lemma length_ipv4_bytes: "ipv4_wf h \<Longrightarrow> length (ipv4_bytes h) = ipv4_protocol_length"
  by (simp add: ipv4_wf_def field_wf_def ipv4_bytes_def ipv4_protocol_length_def)

lemma ipv4_of_bytes_bytes: "ipv4_wf h \<Longrightarrow> ipv4_of_bytes (ipv4_bytes h) = h"
  by (cases h) (simp add: ipv4_wf_def field_wf_def ipv4_bytes_def ipv4_of_bytes_def)

lemma ipv4_bytes_of_bytes:
  "length bs = ipv4_protocol_length \<Longrightarrow> ipv4_bytes (ipv4_of_bytes bs) = bs \<and> ipv4_wf (ipv4_of_bytes bs)"
  by (simp add: ipv4_bytes_def ipv4_of_bytes_def ipv4_wf_def field_wf_def ipv4_protocol_length_def
      take_drop_chain)

lemma ipv6_set_field_wf: "ipv6_wf h \<Longrightarrow> ipv6_wf (ipv6_set_field h f v)"
  by (cases f; cases v) (simp_all add: ipv6_wf_def header_defs)

lemma ipv6_stored_field:
  "ipv6_wf h \<Longrightarrow> ipv6_get_field f (ipv6_set_field h f (Value_u32 v)) = ipv6_stored f v"
  by (cases f) (simp_all add: ipv6_wf_def header_defs read_back del: drop_bit_and push_bit_and,
      simp_all add: and_low, (rule bit_word_eqI, auto simp: bit_simps)+)

lemma ipv6_other_field:
  "f \<noteq> g \<Longrightarrow> ipv6_get_field g (ipv6_set_field h f v) = ipv6_get_field g h"
  by (cases f; cases g; cases v) (simp_all add: header_defs load_store_simps put_bits_kept del: drop_bit_and)

lemma ipv6_not_convertible:
  "\<not> convertible v (ipv6_get_field_type f) \<Longrightarrow> ipv6_set_field h f v = h"
  by (cases f; cases v) simp_all

lemma ipv6_set_again:
  "ipv6_wf h \<Longrightarrow> convertible w (ipv6_get_field_type f) \<Longrightarrow>
   ipv6_set_field (ipv6_set_field h f v) f w = ipv6_set_field h f w"
  by (cases f; cases v) (auto simp: ipv6_wf_def header_defs load_store_simps write_again split: option.split)

lemma ipv6_set_commute:
  "f \<noteq> g \<Longrightarrow> ipv6_set_field (ipv6_set_field h f v) g w = ipv6_set_field (ipv6_set_field h g w) f v"
  by (cases f; cases g) (simp_all add: header_defs load_store_simps put_bits_take put_bits_commute split: option.split)

lemma length_ipv6_bytes: "ipv6_wf h \<Longrightarrow> length (ipv6_bytes h) = ipv6_protocol_length"
  by (simp add: ipv6_wf_def field_wf_def ipv6_bytes_def ipv6_protocol_length_def)

lemma ipv6_of_bytes_bytes: "ipv6_wf h \<Longrightarrow> ipv6_of_bytes (ipv6_bytes h) = h"
  by (cases h) (simp add: ipv6_wf_def field_wf_def ipv6_bytes_def ipv6_of_bytes_def)

lemma ipv6_bytes_of_bytes:
  "length bs = ipv6_protocol_length \<Longrightarrow> ipv6_bytes (ipv6_of_bytes bs) = bs \<and> ipv6_wf (ipv6_of_bytes bs)"
  by (simp add: ipv6_bytes_def ipv6_of_bytes_def ipv6_wf_def field_wf_def ipv6_protocol_length_def
      take_drop_chain)


end
