(* ===== verification/Protocol_L4.thy ===== *)
theory Protocol_L4
  imports Protocol_Fields
begin

text \<open>
  The transport layer headers of \<open>src/lib/packet/protocol\<close>: TCP and UDP.
  Each header has its members, its getters and setters, the names and types of its fields, the
  assignment of a field by name, and its layout in memory.
\<close>

unbundle bit_operations_syntax

subsection \<open>The TCP header\<close>

record tcp_header =
  tcp_source :: endian_field
  tcp_destination :: endian_field
  tcp_sequence :: endian_field
  tcp_ack :: endian_field
  tcp_data_offset_reserved_flags :: endian_field
  tcp_window :: endian_field
  tcp_checksum :: endian_field
  tcp_urgent_pointer :: endian_field

definition tcp_protocol_length :: nat where "tcp_protocol_length = 20"
definition tcp_field_count :: nat where "tcp_field_count = 10"

datatype tcp_field =
    Tcp_none | Tcp_source | Tcp_destination | Tcp_sequence | Tcp_ack
  | Tcp_data_offset | Tcp_reserved | Tcp_flags | Tcp_window | Tcp_checksum
  | Tcp_urgent_pointer

definition get_tcp_source :: "tcp_header \<Rightarrow> u16" where
  "get_tcp_source header = number_load (tcp_source header)"
definition set_tcp_source :: "tcp_header \<Rightarrow> u16 \<Rightarrow> tcp_header" where
  "set_tcp_source header value =
     header\<lparr>tcp_source :=
       number_assign (tcp_source header) value\<rparr>"

definition get_tcp_destination :: "tcp_header \<Rightarrow> u16" where
  "get_tcp_destination header = number_load (tcp_destination header)"
definition set_tcp_destination :: "tcp_header \<Rightarrow> u16 \<Rightarrow> tcp_header" where
  "set_tcp_destination header value =
     header\<lparr>tcp_destination :=
       number_assign (tcp_destination header) value\<rparr>"

definition get_tcp_sequence :: "tcp_header \<Rightarrow> u32" where
  "get_tcp_sequence header = number_load (tcp_sequence header)"
definition set_tcp_sequence :: "tcp_header \<Rightarrow> u32 \<Rightarrow> tcp_header" where
  "set_tcp_sequence header value =
     header\<lparr>tcp_sequence :=
       number_assign (tcp_sequence header) value\<rparr>"

definition get_tcp_ack :: "tcp_header \<Rightarrow> u32" where
  "get_tcp_ack header = number_load (tcp_ack header)"
definition set_tcp_ack :: "tcp_header \<Rightarrow> u32 \<Rightarrow> tcp_header" where
  "set_tcp_ack header value =
     header\<lparr>tcp_ack :=
       number_assign (tcp_ack header) value\<rparr>"

definition get_tcp_data_offset :: "tcp_header \<Rightarrow> u16" where
  "get_tcp_data_offset header = (drop_bit 12 (field_load (tcp_data_offset_reserved_flags header) AND 0xf000)) * 4"
definition set_tcp_data_offset :: "tcp_header \<Rightarrow> u16 \<Rightarrow> tcp_header" where
  "set_tcp_data_offset header value =
     header\<lparr>tcp_data_offset_reserved_flags :=
       field_store 2 (put_bits 0xf000 (push_bit 12 (value div 4)) (field_load (tcp_data_offset_reserved_flags header)) :: 16 word)\<rparr>"

definition get_tcp_reserved :: "tcp_header \<Rightarrow> u16" where
  "get_tcp_reserved header = drop_bit 9 (field_load (tcp_data_offset_reserved_flags header) AND 0xe00)"
definition set_tcp_reserved :: "tcp_header \<Rightarrow> u16 \<Rightarrow> tcp_header" where
  "set_tcp_reserved header value =
     header\<lparr>tcp_data_offset_reserved_flags :=
       field_store 2 (put_bits 0xe00 (push_bit 9 value) (field_load (tcp_data_offset_reserved_flags header)) :: 16 word)\<rparr>"

definition get_tcp_flags :: "tcp_header \<Rightarrow> u32" where
  "get_tcp_flags header = ucast (field_load (tcp_data_offset_reserved_flags header) AND 0x1ff :: 16 word)"
definition set_tcp_flags :: "tcp_header \<Rightarrow> u32 \<Rightarrow> tcp_header" where
  "set_tcp_flags header value =
     header\<lparr>tcp_data_offset_reserved_flags :=
       field_store 2 (put_bits 0x1ff (ucast value) (field_load (tcp_data_offset_reserved_flags header)) :: 16 word)\<rparr>"

definition get_tcp_window :: "tcp_header \<Rightarrow> u16" where
  "get_tcp_window header = number_load (tcp_window header)"
definition set_tcp_window :: "tcp_header \<Rightarrow> u16 \<Rightarrow> tcp_header" where
  "set_tcp_window header value =
     header\<lparr>tcp_window :=
       number_assign (tcp_window header) value\<rparr>"

definition get_tcp_checksum :: "tcp_header \<Rightarrow> u16" where
  "get_tcp_checksum header = field_load (tcp_checksum header)"
definition set_tcp_checksum :: "tcp_header \<Rightarrow> u16 \<Rightarrow> tcp_header" where
  "set_tcp_checksum header value =
     header\<lparr>tcp_checksum :=
       field_store 2 value\<rparr>"

definition get_tcp_urgent_pointer :: "tcp_header \<Rightarrow> u16" where
  "get_tcp_urgent_pointer header = field_load (tcp_urgent_pointer header)"
definition set_tcp_urgent_pointer :: "tcp_header \<Rightarrow> u16 \<Rightarrow> tcp_header" where
  "set_tcp_urgent_pointer header value =
     header\<lparr>tcp_urgent_pointer :=
       field_store 2 value\<rparr>"

definition set_tcp_defaults :: "tcp_header \<Rightarrow> tcp_header" where
  "set_tcp_defaults header =
     set_tcp_destination (set_tcp_source header 3357) 3357"

definition tcp_get_field_name :: "string \<Rightarrow> tcp_field" where
  "tcp_get_field_name name =
     (case map_of
        [(''source'', Tcp_source),
         (''destination'', Tcp_destination),
         (''sequence'', Tcp_sequence),
         (''ack'', Tcp_ack),
         (''data_offset'', Tcp_data_offset),
         (''reserved'', Tcp_reserved),
         (''flags'', Tcp_flags),
         (''window'', Tcp_window),
         (''checksum'', Tcp_checksum),
         (''urgent_pointer'', Tcp_urgent_pointer)] name of
        Some field \<Rightarrow> field
      | None \<Rightarrow> Tcp_none)"

fun tcp_get_field_type :: "tcp_field \<Rightarrow> field_type" where
  "tcp_get_field_type Tcp_source = Type_u16"
|   "tcp_get_field_type Tcp_destination = Type_u16"
|   "tcp_get_field_type Tcp_sequence = Type_u32"
|   "tcp_get_field_type Tcp_ack = Type_u32"
|   "tcp_get_field_type Tcp_data_offset = Type_u16"
|   "tcp_get_field_type Tcp_reserved = Type_u16"
|   "tcp_get_field_type Tcp_flags = Type_u16"
|   "tcp_get_field_type Tcp_window = Type_u16"
|   "tcp_get_field_type Tcp_checksum = Type_u16"
|   "tcp_get_field_type Tcp_urgent_pointer = Type_u16"
| "tcp_get_field_type Tcp_none = Type_null"

fun tcp_set_field :: "tcp_header \<Rightarrow> tcp_field \<Rightarrow> modifier_value \<Rightarrow> tcp_header" where
  "tcp_set_field header Tcp_source value =
     (case to_integer value of Some v \<Rightarrow> set_tcp_source header (ucast v) | None \<Rightarrow> header)"
| "tcp_set_field header Tcp_destination value =
     (case to_integer value of Some v \<Rightarrow> set_tcp_destination header (ucast v) | None \<Rightarrow> header)"
| "tcp_set_field header Tcp_sequence value =
     (case to_integer value of Some v \<Rightarrow> set_tcp_sequence header v | None \<Rightarrow> header)"
| "tcp_set_field header Tcp_ack value =
     (case to_integer value of Some v \<Rightarrow> set_tcp_ack header v | None \<Rightarrow> header)"
| "tcp_set_field header Tcp_data_offset value =
     (case to_integer value of Some v \<Rightarrow> set_tcp_data_offset header (ucast v) | None \<Rightarrow> header)"
| "tcp_set_field header Tcp_reserved value =
     (case to_integer value of Some v \<Rightarrow> set_tcp_reserved header (ucast v) | None \<Rightarrow> header)"
| "tcp_set_field header Tcp_flags value =
     (case to_integer value of Some v \<Rightarrow> set_tcp_flags header v | None \<Rightarrow> header)"
| "tcp_set_field header Tcp_window value =
     (case to_integer value of Some v \<Rightarrow> set_tcp_window header (ucast v) | None \<Rightarrow> header)"
| "tcp_set_field header Tcp_checksum value =
     (case to_integer value of Some v \<Rightarrow> set_tcp_checksum header (ucast v) | None \<Rightarrow> header)"
| "tcp_set_field header Tcp_urgent_pointer value =
     (case to_integer value of Some v \<Rightarrow> set_tcp_urgent_pointer header (ucast v) | None \<Rightarrow> header)"
| "tcp_set_field header Tcp_none value = header"

lemmas tcp_access [header_defs] =
  get_tcp_source_def set_tcp_source_def
  get_tcp_destination_def set_tcp_destination_def
  get_tcp_sequence_def set_tcp_sequence_def
  get_tcp_ack_def set_tcp_ack_def
  get_tcp_data_offset_def set_tcp_data_offset_def
  get_tcp_reserved_def set_tcp_reserved_def
  get_tcp_flags_def set_tcp_flags_def
  get_tcp_window_def set_tcp_window_def
  get_tcp_checksum_def set_tcp_checksum_def
  get_tcp_urgent_pointer_def set_tcp_urgent_pointer_def

text \<open>The layout in memory: the members in order, without padding.\<close>

definition tcp_bytes :: "tcp_header \<Rightarrow> u8 list" where
  "tcp_bytes header = octets (tcp_source header) @ octets (tcp_destination header) @ octets (tcp_sequence header) @ octets (tcp_ack header) @ octets (tcp_data_offset_reserved_flags header) @ octets (tcp_window header) @ octets (tcp_checksum header) @ octets (tcp_urgent_pointer header)"

definition tcp_of_bytes :: "u8 list \<Rightarrow> tcp_header" where
  "tcp_of_bytes bs =
     \<lparr>tcp_source = \<lparr>octets = take 2 bs\<rparr>,
      tcp_destination = \<lparr>octets = take 2 (drop 2 bs)\<rparr>,
      tcp_sequence = \<lparr>octets = take 4 (drop 4 bs)\<rparr>,
      tcp_ack = \<lparr>octets = take 4 (drop 8 bs)\<rparr>,
      tcp_data_offset_reserved_flags = \<lparr>octets = take 2 (drop 12 bs)\<rparr>,
      tcp_window = \<lparr>octets = take 2 (drop 14 bs)\<rparr>,
      tcp_checksum = \<lparr>octets = take 2 (drop 16 bs)\<rparr>,
      tcp_urgent_pointer = \<lparr>octets = take 2 (drop 18 bs)\<rparr>\<rparr>"

definition tcp_wf :: "tcp_header \<Rightarrow> bool" where
  "tcp_wf header \<longleftrightarrow> field_wf 2 (tcp_source header) \<and>
     field_wf 2 (tcp_destination header) \<and>
     field_wf 4 (tcp_sequence header) \<and>
     field_wf 4 (tcp_ack header) \<and>
     field_wf 2 (tcp_data_offset_reserved_flags header) \<and>
     field_wf 2 (tcp_window header) \<and>
     field_wf 2 (tcp_checksum header) \<and>
     field_wf 2 (tcp_urgent_pointer header)"

text \<open>The value of a field, as its getter returns it.\<close>

fun tcp_get_field :: "tcp_field \<Rightarrow> tcp_header \<Rightarrow> header_value" where
  "tcp_get_field Tcp_source header = Integer (ucast (get_tcp_source header))"
| "tcp_get_field Tcp_destination header = Integer (ucast (get_tcp_destination header))"
| "tcp_get_field Tcp_sequence header = Integer (get_tcp_sequence header)"
| "tcp_get_field Tcp_ack header = Integer (get_tcp_ack header)"
| "tcp_get_field Tcp_data_offset header = Integer (ucast (get_tcp_data_offset header))"
| "tcp_get_field Tcp_reserved header = Integer (ucast (get_tcp_reserved header))"
| "tcp_get_field Tcp_flags header = Integer (get_tcp_flags header)"
| "tcp_get_field Tcp_window header = Integer (ucast (get_tcp_window header))"
| "tcp_get_field Tcp_checksum header = Integer (ucast (get_tcp_checksum header))"
| "tcp_get_field Tcp_urgent_pointer header = Integer (ucast (get_tcp_urgent_pointer header))"
| "tcp_get_field Tcp_none header = Integer 0"

text \<open>What a field holds after an integer is assigned to it.\<close>

fun tcp_stored :: "tcp_field \<Rightarrow> u32 \<Rightarrow> header_value" where
  "tcp_stored Tcp_source v = Integer (take_bit 16 v)"
| "tcp_stored Tcp_destination v = Integer (take_bit 16 v)"
| "tcp_stored Tcp_sequence v = Integer v"
| "tcp_stored Tcp_ack v = Integer v"
| "tcp_stored Tcp_data_offset v = Integer (push_bit 2 (take_bit 4 (drop_bit 2 v)))"
| "tcp_stored Tcp_reserved v = Integer (take_bit 3 v)"
| "tcp_stored Tcp_flags v = Integer (take_bit 9 v)"
| "tcp_stored Tcp_window v = Integer (take_bit 16 v)"
| "tcp_stored Tcp_checksum v = Integer (take_bit 16 v)"
| "tcp_stored Tcp_urgent_pointer v = Integer (take_bit 16 v)"
| "tcp_stored Tcp_none v = Integer 0"

subsection \<open>The UDP header\<close>

record udp_header =
  udp_source :: endian_field
  udp_destination :: endian_field
  udp_length :: endian_field
  udp_checksum :: endian_field

definition udp_protocol_length :: nat where "udp_protocol_length = 8"
definition udp_field_count :: nat where "udp_field_count = 4"

datatype udp_field =
    Udp_none | Udp_source | Udp_destination | Udp_length | Udp_checksum

definition get_udp_source :: "udp_header \<Rightarrow> u16" where
  "get_udp_source header = number_load (udp_source header)"
definition set_udp_source :: "udp_header \<Rightarrow> u16 \<Rightarrow> udp_header" where
  "set_udp_source header value =
     header\<lparr>udp_source :=
       number_assign (udp_source header) value\<rparr>"

definition get_udp_destination :: "udp_header \<Rightarrow> u16" where
  "get_udp_destination header = number_load (udp_destination header)"
definition set_udp_destination :: "udp_header \<Rightarrow> u16 \<Rightarrow> udp_header" where
  "set_udp_destination header value =
     header\<lparr>udp_destination :=
       number_assign (udp_destination header) value\<rparr>"

definition get_udp_length :: "udp_header \<Rightarrow> u16" where
  "get_udp_length header = number_load (udp_length header)"
definition set_udp_length :: "udp_header \<Rightarrow> u16 \<Rightarrow> udp_header" where
  "set_udp_length header value =
     header\<lparr>udp_length :=
       number_assign (udp_length header) value\<rparr>"

definition get_udp_checksum :: "udp_header \<Rightarrow> u16" where
  "get_udp_checksum header = field_load (udp_checksum header)"
definition set_udp_checksum :: "udp_header \<Rightarrow> u16 \<Rightarrow> udp_header" where
  "set_udp_checksum header value =
     header\<lparr>udp_checksum :=
       field_store 2 value\<rparr>"

definition set_udp_defaults :: "udp_header \<Rightarrow> udp_header" where
  "set_udp_defaults header =
     set_udp_destination (set_udp_source header 3357) 3357"

definition udp_get_field_name :: "string \<Rightarrow> udp_field" where
  "udp_get_field_name name =
     (case map_of
        [(''source'', Udp_source),
         (''destination'', Udp_destination),
         (''length'', Udp_length),
         (''checksum'', Udp_checksum)] name of
        Some field \<Rightarrow> field
      | None \<Rightarrow> Udp_none)"

fun udp_get_field_type :: "udp_field \<Rightarrow> field_type" where
  "udp_get_field_type Udp_source = Type_u16"
|   "udp_get_field_type Udp_destination = Type_u16"
|   "udp_get_field_type Udp_length = Type_u16"
|   "udp_get_field_type Udp_checksum = Type_u16"
| "udp_get_field_type Udp_none = Type_null"

fun udp_set_field :: "udp_header \<Rightarrow> udp_field \<Rightarrow> modifier_value \<Rightarrow> udp_header" where
  "udp_set_field header Udp_source value =
     (case to_integer value of Some v \<Rightarrow> set_udp_source header (ucast v) | None \<Rightarrow> header)"
| "udp_set_field header Udp_destination value =
     (case to_integer value of Some v \<Rightarrow> set_udp_destination header (ucast v) | None \<Rightarrow> header)"
| "udp_set_field header Udp_length value =
     (case to_integer value of Some v \<Rightarrow> set_udp_length header (ucast v) | None \<Rightarrow> header)"
| "udp_set_field header Udp_checksum value =
     (case to_integer value of Some v \<Rightarrow> set_udp_checksum header (ucast v) | None \<Rightarrow> header)"
| "udp_set_field header Udp_none value = header"

lemmas udp_access [header_defs] =
  get_udp_source_def set_udp_source_def
  get_udp_destination_def set_udp_destination_def
  get_udp_length_def set_udp_length_def
  get_udp_checksum_def set_udp_checksum_def

text \<open>The layout in memory: the members in order, without padding.\<close>

definition udp_bytes :: "udp_header \<Rightarrow> u8 list" where
  "udp_bytes header = octets (udp_source header) @ octets (udp_destination header) @ octets (udp_length header) @ octets (udp_checksum header)"

definition udp_of_bytes :: "u8 list \<Rightarrow> udp_header" where
  "udp_of_bytes bs =
     \<lparr>udp_source = \<lparr>octets = take 2 bs\<rparr>,
      udp_destination = \<lparr>octets = take 2 (drop 2 bs)\<rparr>,
      udp_length = \<lparr>octets = take 2 (drop 4 bs)\<rparr>,
      udp_checksum = \<lparr>octets = take 2 (drop 6 bs)\<rparr>\<rparr>"

definition udp_wf :: "udp_header \<Rightarrow> bool" where
  "udp_wf header \<longleftrightarrow> field_wf 2 (udp_source header) \<and>
     field_wf 2 (udp_destination header) \<and>
     field_wf 2 (udp_length header) \<and>
     field_wf 2 (udp_checksum header)"

text \<open>The value of a field, as its getter returns it.\<close>

fun udp_get_field :: "udp_field \<Rightarrow> udp_header \<Rightarrow> header_value" where
  "udp_get_field Udp_source header = Integer (ucast (get_udp_source header))"
| "udp_get_field Udp_destination header = Integer (ucast (get_udp_destination header))"
| "udp_get_field Udp_length header = Integer (ucast (get_udp_length header))"
| "udp_get_field Udp_checksum header = Integer (ucast (get_udp_checksum header))"
| "udp_get_field Udp_none header = Integer 0"

text \<open>What a field holds after an integer is assigned to it.\<close>

fun udp_stored :: "udp_field \<Rightarrow> u32 \<Rightarrow> header_value" where
  "udp_stored Udp_source v = Integer (take_bit 16 v)"
| "udp_stored Udp_destination v = Integer (take_bit 16 v)"
| "udp_stored Udp_length v = Integer (take_bit 16 v)"
| "udp_stored Udp_checksum v = Integer (take_bit 16 v)"
| "udp_stored Udp_none v = Integer 0"

subsection \<open>Field access and layout\<close>

lemma tcp_set_field_wf: "tcp_wf h \<Longrightarrow> tcp_wf (tcp_set_field h f v)"
  by (cases f; cases v) (simp_all add: tcp_wf_def header_defs)

lemma tcp_stored_field:
  "tcp_wf h \<Longrightarrow> tcp_get_field f (tcp_set_field h f (Value_u32 v)) = tcp_stored f v"
  by (cases f) (simp_all add: tcp_wf_def header_defs read_back del: drop_bit_and push_bit_and,
      simp_all add: and_low, (rule bit_word_eqI, auto simp: bit_simps)+)

lemma tcp_other_field:
  "f \<noteq> g \<Longrightarrow> tcp_get_field g (tcp_set_field h f v) = tcp_get_field g h"
  by (cases f; cases g; cases v) (simp_all add: header_defs load_store_simps put_bits_kept del: drop_bit_and)

lemma tcp_not_convertible:
  "\<not> convertible v (tcp_get_field_type f) \<Longrightarrow> tcp_set_field h f v = h"
  by (cases f; cases v) simp_all

lemma tcp_set_again:
  "tcp_wf h \<Longrightarrow> convertible w (tcp_get_field_type f) \<Longrightarrow>
   tcp_set_field (tcp_set_field h f v) f w = tcp_set_field h f w"
  by (cases f; cases v) (auto simp: tcp_wf_def header_defs load_store_simps write_again split: option.split)

lemma tcp_set_commute:
  "f \<noteq> g \<Longrightarrow> tcp_set_field (tcp_set_field h f v) g w = tcp_set_field (tcp_set_field h g w) f v"
  by (cases f; cases g) (simp_all add: header_defs load_store_simps put_bits_take put_bits_commute split: option.split)

lemma length_tcp_bytes: "tcp_wf h \<Longrightarrow> length (tcp_bytes h) = tcp_protocol_length"
  by (simp add: tcp_wf_def field_wf_def tcp_bytes_def tcp_protocol_length_def)

lemma tcp_of_bytes_bytes: "tcp_wf h \<Longrightarrow> tcp_of_bytes (tcp_bytes h) = h"
  by (cases h) (simp add: tcp_wf_def field_wf_def tcp_bytes_def tcp_of_bytes_def)

lemma tcp_bytes_of_bytes:
  "length bs = tcp_protocol_length \<Longrightarrow> tcp_bytes (tcp_of_bytes bs) = bs \<and> tcp_wf (tcp_of_bytes bs)"
  by (simp add: tcp_bytes_def tcp_of_bytes_def tcp_wf_def field_wf_def tcp_protocol_length_def
      take_drop_chain)

lemma udp_set_field_wf: "udp_wf h \<Longrightarrow> udp_wf (udp_set_field h f v)"
  by (cases f; cases v) (simp_all add: udp_wf_def header_defs)

lemma udp_stored_field:
  "udp_wf h \<Longrightarrow> udp_get_field f (udp_set_field h f (Value_u32 v)) = udp_stored f v"
  by (cases f) (simp_all add: udp_wf_def header_defs read_back del: drop_bit_and push_bit_and,
      (rule bit_word_eqI, auto simp: bit_simps)+)

lemma udp_other_field:
  "f \<noteq> g \<Longrightarrow> udp_get_field g (udp_set_field h f v) = udp_get_field g h"
  by (cases f; cases g; cases v) (simp_all add: header_defs load_store_simps put_bits_kept del: drop_bit_and)

lemma udp_not_convertible:
  "\<not> convertible v (udp_get_field_type f) \<Longrightarrow> udp_set_field h f v = h"
  by (cases f; cases v) simp_all

lemma udp_set_again:
  "udp_wf h \<Longrightarrow> convertible w (udp_get_field_type f) \<Longrightarrow>
   udp_set_field (udp_set_field h f v) f w = udp_set_field h f w"
  by (cases f; cases v) (auto simp: udp_wf_def header_defs load_store_simps write_again split: option.split)

lemma udp_set_commute:
  "f \<noteq> g \<Longrightarrow> udp_set_field (udp_set_field h f v) g w = udp_set_field (udp_set_field h g w) f v"
  by (cases f; cases g) (simp_all add: header_defs load_store_simps put_bits_take put_bits_commute split: option.split)

lemma length_udp_bytes: "udp_wf h \<Longrightarrow> length (udp_bytes h) = udp_protocol_length"
  by (simp add: udp_wf_def field_wf_def udp_bytes_def udp_protocol_length_def)

lemma udp_of_bytes_bytes: "udp_wf h \<Longrightarrow> udp_of_bytes (udp_bytes h) = h"
  by (cases h) (simp add: udp_wf_def field_wf_def udp_bytes_def udp_of_bytes_def)

lemma udp_bytes_of_bytes:
  "length bs = udp_protocol_length \<Longrightarrow> udp_bytes (udp_of_bytes bs) = bs \<and> udp_wf (udp_of_bytes bs)"
  by (simp add: udp_bytes_def udp_of_bytes_def udp_wf_def field_wf_def udp_protocol_length_def
      take_drop_chain)


end
