(* ===== verification/Protocol_Access.thy ===== *)
theory Protocol_Access
  imports Protocol_L2 Protocol_L3 Protocol_L4
begin

text \<open>
  The interface every protocol header offers to its users: assignment of a field by name, the
  type of a field, and the layout in memory. The locale \<open>field_access\<close> states the laws once; the
  seven protocols of \<open>src/lib/packet/protocol\<close> are its interpretations. Its lemmas are about
  sequences of assignments, as the expansion of modifiers makes them: assignments to different
  fields keep each other's values, and no assignment changes the number of bytes of a header.
\<close>

subsection \<open>Definitions\<close>

text \<open>
  The assignments of the expansion (\<open>set_header_fields\<close> of
  \<open>src/modules/packet/generator/traffic/header/expand_impl/expand.tcc\<close>), for any protocol: the
  first field takes the first value, and so on.
\<close>

definition set_header_fields ::
  "('h \<Rightarrow> 'f \<Rightarrow> modifier_value \<Rightarrow> 'h) \<Rightarrow> 'h \<Rightarrow> 'f list \<Rightarrow> modifier_value list \<Rightarrow> 'h" where
  "set_header_fields set_field header fs vs =
     foldl (\<lambda>header (field, value). set_field header field value) header (zip fs vs)"

lemma set_header_fields_simps [simp]:
  "set_header_fields sf h [] vs = h" "set_header_fields sf h fs [] = h"
  "set_header_fields sf h (f # fs) (v # vs) = set_header_fields sf (sf h f v) fs vs"
  by (simp_all add: set_header_fields_def)

text \<open>Values of the same alternative of the variant: they convert to the same types.\<close>

definition same_kind :: "modifier_value \<Rightarrow> modifier_value \<Rightarrow> bool" where
  "same_kind v w \<longleftrightarrow> (\<forall>t. convertible v t = convertible w t)"

subsection \<open>The interface\<close>

locale field_access =
  fixes wf :: "'h \<Rightarrow> bool"
    and set_field :: "'h \<Rightarrow> 'f \<Rightarrow> modifier_value \<Rightarrow> 'h"
    and get_field :: "'f \<Rightarrow> 'h \<Rightarrow> header_value"
    and get_field_type :: "'f \<Rightarrow> field_type"
    and stored :: "'f \<Rightarrow> u32 \<Rightarrow> header_value"
    and bytes :: "'h \<Rightarrow> u8 list"
    and of_bytes :: "u8 list \<Rightarrow> 'h"
    and protocol_length :: nat
  assumes set_wf: "wf h \<Longrightarrow> wf (set_field h f v)"
    and get_set: "wf h \<Longrightarrow> get_field f (set_field h f (Value_u32 x)) = stored f x"
    and get_other: "f \<noteq> g \<Longrightarrow> get_field g (set_field h f v) = get_field g h"
    and set_typed: "\<not> convertible v (get_field_type f) \<Longrightarrow> set_field h f v = h"
    and set_again: "wf h \<Longrightarrow> convertible w (get_field_type f) \<Longrightarrow>
      set_field (set_field h f v) f w = set_field h f w"
    and set_commute: "f \<noteq> g \<Longrightarrow>
      set_field (set_field h f v) g w = set_field (set_field h g w) f v"
    and bytes_length: "wf h \<Longrightarrow> length (bytes h) = protocol_length"
    and of_bytes: "wf h \<Longrightarrow> of_bytes (bytes h) = h"
    and bytes_of: "length bs = protocol_length \<Longrightarrow> bytes (of_bytes bs) = bs \<and> wf (of_bytes bs)"
begin

lemma set_fields_wf: "wf h \<Longrightarrow> wf (set_header_fields set_field h fs vs)"
proof (induction fs arbitrary: h vs)
  case (Cons f fs)
  then show ?case by (cases vs) (simp_all add: set_wf)
qed simp

lemma set_fields_length:
  "wf h \<Longrightarrow> length (bytes (set_header_fields set_field h fs vs)) = protocol_length"
  by (simp add: bytes_length set_fields_wf)

lemma set_fields_other:
  "f \<notin> set fs \<Longrightarrow> get_field f (set_header_fields set_field h fs vs) = get_field f h"
proof (induction fs arbitrary: h vs)
  case (Cons g fs)
  then show ?case by (cases vs) (auto simp: get_other)
qed simp

lemma set_fields_get:
  assumes "wf h" "distinct fs" "i < length fs" "i < length vs" "vs ! i = Value_u32 w"
  shows "get_field (fs ! i) (set_header_fields set_field h fs vs) = stored (fs ! i) w"
  using assms
proof (induction fs arbitrary: h vs i)
  case (Cons f fs)
  obtain v vs' where v: "vs = v # vs'" using Cons.prems(4) by (cases vs) auto
  show ?case using Cons v by (cases i) (simp_all add: set_fields_other get_set set_wf)
qed simp

lemma set_fields_untyped:
  "list_all2 (\<lambda>f v. \<not> convertible v (get_field_type f)) fs vs \<Longrightarrow>
   set_header_fields set_field h fs vs = h"
  by (induction fs vs rule: list_all2_induct) (simp_all add: set_typed)

lemma set_same:
  "wf h \<Longrightarrow> same_kind v w \<Longrightarrow> set_field (set_field h f v) f w = set_field h f w"
  by (cases "convertible w (get_field_type f)") (simp_all add: set_again set_typed same_kind_def)

lemma set_past_fields:
  "f \<notin> set fs \<Longrightarrow> set_field (set_header_fields set_field h fs vs) f v =
     set_header_fields set_field (set_field h f v) fs vs"
proof (induction fs arbitrary: h vs)
  case (Cons g fs)
  then show ?case by (cases vs) (auto simp: set_commute [of f g])
qed simp

lemma set_fields_again:
  assumes "wf h" "distinct fs" "list_all2 same_kind vs ws" "length vs = length fs"
  shows "set_header_fields set_field (set_header_fields set_field h fs vs) fs ws =
           set_header_fields set_field h fs ws"
  using assms(3,4,1,2)
proof (induction vs ws arbitrary: h fs rule: list_all2_induct)
  case (Cons v vs w ws)
  then obtain f fs' where f: "fs = f # fs'" by (cases fs) auto
  then show ?case using Cons by (simp add: set_past_fields set_same set_wf)
qed simp

lemma through_memory:
  assumes "length bs = protocol_length"
  shows "of_bytes (bytes (set_header_fields set_field (of_bytes bs) fs vs)) =
           set_header_fields set_field (of_bytes bs) fs vs"
  using assms by (simp add: of_bytes set_fields_wf bytes_of)

end

interpretation ethernet: field_access ethernet_wf ethernet_set_field ethernet_get_field ethernet_get_field_type
  ethernet_stored ethernet_bytes ethernet_of_bytes ethernet_protocol_length
  by unfold_locales (simp_all add: ethernet_set_field_wf ethernet_stored_field ethernet_other_field
      ethernet_not_convertible ethernet_set_again
      ethernet_set_commute length_ethernet_bytes ethernet_of_bytes_bytes ethernet_bytes_of_bytes)

interpretation vlan: field_access vlan_wf vlan_set_field vlan_get_field vlan_get_field_type
  vlan_stored vlan_bytes vlan_of_bytes vlan_protocol_length
  by unfold_locales (simp_all add: vlan_set_field_wf vlan_stored_field vlan_other_field
      vlan_not_convertible vlan_set_again
      vlan_set_commute length_vlan_bytes vlan_of_bytes_bytes vlan_bytes_of_bytes)

interpretation mpls: field_access mpls_wf mpls_set_field mpls_get_field mpls_get_field_type
  mpls_stored mpls_bytes mpls_of_bytes mpls_protocol_length
  by unfold_locales (simp_all add: mpls_set_field_wf mpls_stored_field mpls_other_field
      mpls_not_convertible mpls_set_again
      mpls_set_commute length_mpls_bytes mpls_of_bytes_bytes mpls_bytes_of_bytes)

interpretation ipv4: field_access ipv4_wf ipv4_set_field ipv4_get_field ipv4_get_field_type
  ipv4_stored ipv4_bytes ipv4_of_bytes ipv4_protocol_length
  by unfold_locales (simp_all add: ipv4_set_field_wf ipv4_stored_field ipv4_other_field
      ipv4_not_convertible ipv4_set_again
      ipv4_set_commute length_ipv4_bytes ipv4_of_bytes_bytes ipv4_bytes_of_bytes)

interpretation ipv6: field_access ipv6_wf ipv6_set_field ipv6_get_field ipv6_get_field_type
  ipv6_stored ipv6_bytes ipv6_of_bytes ipv6_protocol_length
  by unfold_locales (simp_all add: ipv6_set_field_wf ipv6_stored_field ipv6_other_field
      ipv6_not_convertible ipv6_set_again
      ipv6_set_commute length_ipv6_bytes ipv6_of_bytes_bytes ipv6_bytes_of_bytes)

interpretation tcp: field_access tcp_wf tcp_set_field tcp_get_field tcp_get_field_type
  tcp_stored tcp_bytes tcp_of_bytes tcp_protocol_length
  by unfold_locales (simp_all add: tcp_set_field_wf tcp_stored_field tcp_other_field
      tcp_not_convertible tcp_set_again
      tcp_set_commute length_tcp_bytes tcp_of_bytes_bytes tcp_bytes_of_bytes)

interpretation udp: field_access udp_wf udp_set_field udp_get_field udp_get_field_type
  udp_stored udp_bytes udp_of_bytes udp_protocol_length
  by unfold_locales (simp_all add: udp_set_field_wf udp_stored_field udp_other_field
      udp_not_convertible udp_set_again
      udp_set_commute length_udp_bytes udp_of_bytes_bytes udp_bytes_of_bytes)

subsection \<open>The types of the fields\<close>



end
