(* ===== verification/Spec2Isabelle.thy ===== *)
theory Spec2Isabelle
  imports Endian Pga_Crc Pga_Signature Pga_Signature_Driver Pga_Checksum Pga_Fill Bpf_Filter
    Free_List Memory_Pool Tx_Scheduler Tx_Ledger Dgram_Channel
    Sequence_Schedule Protocol_Access
begin

text \<open>
  A verification development of OpenPerf, a traffic generator and analyzer. OpenPerf marks the
  packets it sends with a signature, fills their payloads with patterns that the receiver can check,
  and on the receiving side selects packets with filters and measures what arrives. The development
  covers the code that a wrong bit breaks: the packet field types, the signature, checksum and
  payload routines, the packet filter from the filter string to the packets it keeps, the transmit
  scheduler, the socket rings and the memory allocators.

  \<^bold>\<open>Conventions\<close> (\<^verbatim>\<open>Prelude\<close>). An unsigned integer of \<open>w\<close> bits is a \<open>w word\<close>; a count that cannot
  wrap is a natural number. Memory behind a byte pointer is a list of bytes, read through wider
  pointers by \<open>le_load\<close>. Exceptions, aborts and undefined behaviour are error values. Functions the
  code takes from a run time table, and third party code, are arguments; a locale states what is
  relied upon and is interpreted on the routines of the repository.

  \<^bold>\<open>Packet fields\<close>. \<^verbatim>\<open>Endian\<close> models \<^verbatim>\<open>src/lib/packet/type/endian.hpp\<close>: byte swap, \<open>field\<close> and
  \<open>number\<close>. A stored value is loaded back, the comparison of fields is the comparison of the numbers
  they hold, and the arithmetic of \<open>number\<close> is arithmetic modulo the width of the field.

  \<^bold>\<open>Packet generation and analysis library\<close>, \<^verbatim>\<open>src/lib/spirent_pga\<close>.
  \<^item> \<^verbatim>\<open>Pga_Crc\<close> (\<^verbatim>\<open>common/crc.h\<close>): the table driven CRC is the bit serial CRC-16 and detects every
    burst error of up to 16 bits.
  \<^item> \<^verbatim>\<open>Pga_Signature\<close> (\<^verbatim>\<open>scalar/encode_signatures.cpp\<close>, \<^verbatim>\<open>scalar/decode_signatures.cpp\<close>) and
    \<^verbatim>\<open>Pga_Signature_Driver\<close> (\<^verbatim>\<open>common/signature.cpp\<close>): an encoded signature decodes to what was
    encoded, for one packet and through the batching drivers, which also place the results of each
    packet at its own index; one timestamp is misplaced by the driver, and the theorem says when.
  \<^item> \<^verbatim>\<open>Ones_Complement\<close> and \<^verbatim>\<open>Pga_Checksum\<close> (\<^verbatim>\<open>scalar/checksum.cpp\<close>, \<^verbatim>\<open>common/checksum.cpp\<close>): headers
    and segments that carry the computed checksum verify; the two places where a carry is lost are
    described exactly.
  \<^item> \<^verbatim>\<open>Pga_Prbs\<close> (\<^verbatim>\<open>common/prbs.h\<close>, \<^verbatim>\<open>scalar/prbs.cpp\<close>, \<^verbatim>\<open>common/verify.cpp\<close>) and \<^verbatim>\<open>Pga_Fill\<close>
    (\<^verbatim>\<open>common/fill.cpp\<close>, \<^verbatim>\<open>api.cpp\<close>): a word of the payload is the output of the PRBS23 shift
    register, a filled payload verifies with no bit errors, and the boundary cases that fail.

  \<^bold>\<open>Packet filter\<close>, \<^verbatim>\<open>src/modules/packet/bpf\<close>.
  \<^item> \<^verbatim>\<open>Bpf_Vm\<close> (\<^verbatim>\<open>bsd/bpf_filter.c\<close>): the interpreter, one \<open>op\<close> for each case of its switch, and the
    validator. The program counter only grows, so \<open>run\<close> is total without fuel. \<^verbatim>\<open>Bpf_Safety\<close>: what an
    accepted program cannot do, and the two faults it still can.
  \<^item> \<^verbatim>\<open>Bpf_Expr\<close>, \<^verbatim>\<open>Bpf_Parse\<close>, \<^verbatim>\<open>Bpf_Roundtrip\<close> and \<^verbatim>\<open>Bpf_Split\<close> (\<^verbatim>\<open>bpf_parse.hpp\<close>,
    \<^verbatim>\<open>bpf_parse.cpp\<close>): expressions and printer, tokenizer and parser, and the splitter. The parser
    has fuel equal to the number of tokens plus one and always returns; parsing what was printed
    gives the expression back; splitting keeps the meaning and makes a filter buildable.
  \<^item> \<^verbatim>\<open>Bpf_Build\<close> (\<^verbatim>\<open>bpf_build.cpp\<close>): programs of special terms compute the expression, and mixed
    programs the connective, within the reach of an eight bit jump; a mixed filter that goes wrong.
  \<^item> \<^verbatim>\<open>Bpf_Filter\<close> (\<^verbatim>\<open>bpf.cpp\<close>, \<^verbatim>\<open>bpf_sink.cpp\<close>): the filter class. A filter of special terms keeps
    exactly the packets its expression matches, and the three burst functions agree. libpcap's
    compiler and the JIT compiler are arguments, the latter under the contract \<open>jit_compiler\<close>.

  \<^bold>\<open>Transmit scheduler\<close>, \<^verbatim>\<open>src/modules/packetio/workers/dpdk/tx_scheduler.cpp\<close>. \<^verbatim>\<open>Tx_Scheduler\<close> has its state
  machine, one function for each handler, over an environment of link, clock, sources and driver. In every
  reachable state the schedule is ordered and holds a source once, and the timer is armed as long as the driver
  prepares packets; \<^verbatim>\<open>Tx_Ledger\<close> follows the packets: none is sent or freed twice. The loop of the running state
  takes fuel, and enough fuel for the distance of the schedule to the clock's bound gives a result. Two
  examples show a burst that is exceeded and a timer that is left expired.

  \<^bold>\<open>Protocol headers\<close>, \<^verbatim>\<open>src/lib/packet/protocol\<close>. \<^verbatim>\<open>Protocol_Fields\<close> has what the headers share,
  \<^verbatim>\<open>Protocol_L2\<close>, \<^verbatim>\<open>Protocol_L3\<close> and \<^verbatim>\<open>Protocol_L4\<close> the seven headers: a record for the class, a getter and
  a setter for each field, the assignment by name and the layout in memory. \<^verbatim>\<open>Protocol_Access\<close> states the contract
  they share as the locale \<open>field_access\<close> and interprets it seven times: an assigned field is read back, the
  others are kept, and a value of a wrong type is ignored.

  \<^bold>\<open>Traffic sequences\<close>, \<^verbatim>\<open>src/modules/packet/generator/traffic\<close>. \<^verbatim>\<open>Header_Container\<close> is the store of packet
  headers; \<^verbatim>\<open>Traffic_Sequence\<close> builds the tables of a sequence and reads packets from them, one at a time or in
  bulk. \<^verbatim>\<open>Round_Robin\<close> specifies the order of packets without tables, and \<^verbatim>\<open>Sequence_Schedule\<close> shows that the
  tables realize it, that flows and stream identifiers agree, and when the sums of lengths are exact.

  \<^bold>\<open>Socket rings\<close>, \<^verbatim>\<open>src/modules/socket\<close>. \<^verbatim>\<open>Circular_Buffer\<close> has the operations of the ring that a client process and
  the stack share; \<^verbatim>\<open>Shared_Ring\<close> states the contract of a byte queue, shows that the ring refines a bounded
  queue, and follows producer and consumer through every interleaving of their loads, copies and stores.
  \<^verbatim>\<open>Dgram_Channel\<close> sends datagrams over the ring: a frame at the front is received as it was sent, and three theorems
  say where that fails: an offset behind twice the buffer length, a payload skipped after its descriptor, and
  the third vector of a receive.

  \<^bold>\<open>Memory allocators\<close>, \<^verbatim>\<open>src/framework/memory/allocator\<close>. \<^verbatim>\<open>Free_List\<close>: after any sequence of calls the free
  nodes and the blocks in use tile the heap, memory handed out is disjoint from both, and a heap with nothing in
  use is whole again; a request close to the largest size wraps. \<^verbatim>\<open>Memory_Pool\<close>: items are conserved and the item
  size is the next power of two.

  \<^bold>\<open>Not modelled\<close>. The vector variants of the packet library (intrinsics and ISPC), its dispatch by
  CPU features, the JIT compiler (machine code through sljit), and the parts of OpenPerf that are
  REST interfaces, generated code, message serialization, DPDK and lwIP glue, threads and files.
\<close>

end
